(* ===== verification/QC_Prelude.thy ===== *)
theory QC_Prelude
  imports Main
begin

text \<open>
  The prelude of the development: the part of Rust's \<open>str\<close>, \<open>Vec\<close> and integer parsing
  that the program uses, with the lemmas the components share.

  A Rust \<open>str\<close> is its UTF-8 byte sequence, a \<^typ>\<open>string\<close> here. Searching, splitting and
  stripping with ASCII patterns works on the bytes, as in Rust. Where the source counts or
  tests characters (\<open>chars()\<close>, \<open>char::is_whitespace\<close>), \<open>str_chars\<close> groups the bytes of
  one character; the Unicode white space characters are listed by their bytes.
\<close>

named_theorems str_simps \<open>definitions of the string operations, for evaluation\<close>
named_theorems contains_rules \<open>facts about substrings\<close>

section \<open>Results\<close>

text \<open>\<open>Result<T, E>\<close> is \<open>'e + 't\<close> with \<open>Inl\<close> for \<open>Err\<close>. The \<open>?\<close> operator is \<open>andThen\<close>.\<close>

fun andThen :: "'e + 'a \<Rightarrow> ('a \<Rightarrow> 'e + 'b) \<Rightarrow> 'e + 'b" where
  "andThen (Inl e) f = Inl e"
| "andThen (Inr x) f = f x"

fun mapErr :: "('e \<Rightarrow> 'f) \<Rightarrow> 'e + 'a \<Rightarrow> 'f + 'a" where
  "mapErr f (Inl e) = Inl (f e)"
| "mapErr f (Inr x) = Inr x"

fun okOr :: "'e \<Rightarrow> 'a option \<Rightarrow> 'e + 'a" where
  "okOr e None = Inl e"
| "okOr e (Some x) = Inr x"

fun isOk :: "'e + 'a \<Rightarrow> bool" where
  "isOk (Inl e) = False"
| "isOk (Inr x) = True"

lemma andThen_Inr_iff: "andThen r f = Inr y \<longleftrightarrow> (\<exists>x. r = Inr x \<and> f x = Inr y)"
  by (cases r) auto

lemma andThen_Inl_iff: "andThen r f = Inl e \<longleftrightarrow> r = Inl e \<or> (\<exists>x. r = Inr x \<and> f x = Inl e)"
  by (cases r) auto

lemma mapErr_Inr_iff [simp]: "mapErr f r = Inr y \<longleftrightarrow> r = Inr y"
  by (cases r) auto

lemma mapErr_Inl_iff: "mapErr f r = Inl e \<longleftrightarrow> (\<exists>d. r = Inl d \<and> e = f d)"
  by (cases r) auto

lemma okOr_Inr_iff [simp]: "okOr e r = Inr y \<longleftrightarrow> r = Some y"
  by (cases r) auto

text \<open>\<open>Iterator::find_map\<close>.\<close>

fun findMap :: "('a \<Rightarrow> 'b option) \<Rightarrow> 'a list \<Rightarrow> 'b option" where
  "findMap f [] = None"
| "findMap f (x # xs) = (case f x of Some y \<Rightarrow> Some y | None \<Rightarrow> findMap f xs)"

lemma findMap_Some: "findMap f xs = Some y \<Longrightarrow> \<exists>x \<in> set xs. f x = Some y"
  by (induction xs) (auto split: option.splits)

lemma findMap_None: "findMap f xs = None \<longleftrightarrow> (\<forall>x \<in> set xs. f x = None)"
  by (induction xs) (auto split: option.splits)

text \<open>\<open>Iterator::position\<close>.\<close>

fun position :: "('a \<Rightarrow> bool) \<Rightarrow> 'a list \<Rightarrow> nat option" where
  "position p [] = None"
| "position p (x # xs) = (if p x then Some 0 else map_option Suc (position p xs))"

lemma position_Some:
  "position p xs = Some i \<Longrightarrow> i < length xs \<and> p (xs ! i) \<and> (\<forall>j < i. \<not> p (xs ! j))"
proof (induction xs arbitrary: i)
  case (Cons x xs)
  show ?case
  proof (cases "p x")
    case False
    with Cons.prems obtain j where "i = Suc j" "position p xs = Some j" by auto
    with Cons.IH [of j] False show ?thesis by (auto simp: less_Suc_eq_0_disj)
  qed (use Cons.prems in auto)
qed simp

lemma position_None: "position p xs = None \<longleftrightarrow> (\<forall>x \<in> set xs. \<not> p x)"
  by (induction xs) auto

lemma position_split: "x \<notin> set xs \<Longrightarrow> position (\<lambda>a. a = x) (xs @ x # ys) = Some (length xs)"
  by (induction xs) auto

lemma find_SomeD: "List.find p xs = Some x \<Longrightarrow> x \<in> set xs \<and> p x"
  by (induction xs) (auto split: if_splits)

section \<open>Splitting lists\<close>

text \<open>\<open>split\<close> with a predicate: the pieces between separators, empty pieces included.\<close>

fun splitBy :: "('a \<Rightarrow> bool) \<Rightarrow> 'a list \<Rightarrow> 'a list list" where
  "splitBy p [] = [[]]"
| "splitBy p (x # xs) =
     (if p x then [] # splitBy p xs
      else case splitBy p xs of [] \<Rightarrow> [[x]] | w # ws \<Rightarrow> (x # w) # ws)"

lemma splitBy_not_Nil [simp]: "splitBy p xs \<noteq> []"
  by (induction xs) (auto split: list.splits)

lemma splitBy_no_sep: "w \<in> set (splitBy p xs) \<Longrightarrow> x \<in> set w \<Longrightarrow> \<not> p x \<and> x \<in> set xs"
proof (induction xs arbitrary: w)
  case (Cons a xs)
  show ?case
  proof (cases "p a")
    case False
    obtain v vs where v: "splitBy p xs = v # vs" by (cases "splitBy p xs") auto
    from Cons.prems False v have "w = a # v \<or> w \<in> set (splitBy p xs)" by auto
    with Cons.IH [of v] Cons.IH [of w] Cons.prems(2) False v show ?thesis by auto
  qed (use Cons in auto)
qed simp

lemma splitBy_id: "\<forall>x \<in> set xs. \<not> p x \<Longrightarrow> splitBy p xs = [xs]"
  by (induction xs) auto

lemma splitBy_append:
  "\<forall>x \<in> set xs. \<not> p x \<Longrightarrow> p s \<Longrightarrow> splitBy p (xs @ s # ys) = xs # splitBy p ys"
  by (induction xs) auto

section \<open>Characters of a UTF-8 string\<close>

text \<open>
  \<open>str_chars s\<close> is the list of the characters of \<open>s\<close>, each as its UTF-8 bytes: a byte
  \<open>10xxxxxx\<close> continues the character before it.
\<close>

definition is_cont :: "char \<Rightarrow> bool" where
  "is_cont c \<longleftrightarrow> digit7 c \<and> \<not> digit6 c"

fun str_chars :: "string \<Rightarrow> string list" where
  "str_chars [] = []"
| "str_chars (b # bs) =
     (case str_chars bs of
        [] \<Rightarrow> [[b]]
      | c # cs \<Rightarrow> (if is_cont (hd c) then (b # c) # cs else [b] # c # cs))"

lemma concat_str_chars [simp]: "concat (str_chars s) = s"
  by (induction s) (auto split: list.splits)

lemma str_chars_ne: "c \<in> set (str_chars s) \<Longrightarrow> c \<noteq> []"
  by (induction s arbitrary: c) (auto split: list.splits if_splits)

lemma length_str_chars: "length (str_chars s) \<le> length s"
  by (induction s) (auto split: list.splits)

definition ascii :: "string \<Rightarrow> bool" where
  "ascii s \<longleftrightarrow> (\<forall>c \<in> set s. \<not> digit7 c)"

lemma ascii_Nil [simp]: "ascii []"
  and ascii_Cons [simp]: "ascii (c # s) \<longleftrightarrow> \<not> digit7 c \<and> ascii s"
  and ascii_append [simp]: "ascii (s @ t) \<longleftrightarrow> ascii s \<and> ascii t"
  by (auto simp: ascii_def)

lemma str_chars_ascii: "ascii s \<Longrightarrow> str_chars s = map (\<lambda>c. [c]) s"
proof (induction s)
  case (Cons b s)
  then show ?case by (cases s) (auto simp: is_cont_def)
qed simp

text \<open>\<open>char::is_whitespace\<close>: the Unicode property White\_Space, by UTF-8 bytes.\<close>

definition ws_ascii :: "string" where
  "ws_ascii = [CHR 0x09, CHR 0x0A, CHR 0x0B, CHR 0x0C, CHR 0x0D, CHR 0x20]"

definition ws_chars :: "string list" where
  "ws_chars =
     [[CHR 0xC2, CHR 0x85], [CHR 0xC2, CHR 0xA0], [CHR 0xE1, CHR 0x9A, CHR 0x80],
      [CHR 0xE2, CHR 0x80, CHR 0x80], [CHR 0xE2, CHR 0x80, CHR 0x81], [CHR 0xE2, CHR 0x80, CHR 0x82],
      [CHR 0xE2, CHR 0x80, CHR 0x83], [CHR 0xE2, CHR 0x80, CHR 0x84], [CHR 0xE2, CHR 0x80, CHR 0x85],
      [CHR 0xE2, CHR 0x80, CHR 0x86], [CHR 0xE2, CHR 0x80, CHR 0x87], [CHR 0xE2, CHR 0x80, CHR 0x88],
      [CHR 0xE2, CHR 0x80, CHR 0x89], [CHR 0xE2, CHR 0x80, CHR 0x8A], [CHR 0xE2, CHR 0x80, CHR 0xA8],
      [CHR 0xE2, CHR 0x80, CHR 0xA9], [CHR 0xE2, CHR 0x80, CHR 0xAF], [CHR 0xE2, CHR 0x81, CHR 0x9F],
      [CHR 0xE3, CHR 0x80, CHR 0x80]]"

definition is_ws :: "char \<Rightarrow> bool" where
  "is_ws c \<longleftrightarrow> c \<in> set ws_ascii"

fun is_whitespace :: "string \<Rightarrow> bool" where
  "is_whitespace [c] = is_ws c"
| "is_whitespace cs = (cs \<in> set ws_chars)"

definition str_trim_start :: "string \<Rightarrow> string" where
  "str_trim_start s = concat (dropWhile is_whitespace (str_chars s))"

definition str_trim_end :: "string \<Rightarrow> string" where
  "str_trim_end s = concat (rev (dropWhile is_whitespace (rev (str_chars s))))"

definition str_trim :: "string \<Rightarrow> string" where
  "str_trim s =
     concat (rev (dropWhile is_whitespace (rev (dropWhile is_whitespace (str_chars s)))))"

definition str_split_ws :: "string \<Rightarrow> string list" where
  "str_split_ws s = filter (\<lambda>w. w \<noteq> []) (map concat (splitBy is_whitespace (str_chars s)))"

definition has_whitespace :: "string \<Rightarrow> bool" where
  "has_whitespace s \<longleftrightarrow> (\<exists>c \<in> set (str_chars s). is_whitespace c)"

text \<open>\<open>str::lines\<close>: split after each line feed, dropping it and a carriage return before it.\<close>

definition strip_cr :: "string \<Rightarrow> string" where
  "strip_cr s = (if s \<noteq> [] \<and> last s = CHR 0x0D then butlast s else s)"

definition str_lines :: "string \<Rightarrow> string list" where
  "str_lines s =
     (let ps = splitBy (\<lambda>c. c = CHR 0x0A) s
      in map strip_cr (butlast ps) @ (if last ps = [] then [] else [last ps]))"

section \<open>Searching, stripping, splitting, replacing\<close>

fun starts_with :: "string \<Rightarrow> string \<Rightarrow> bool" where
  "starts_with [] s = True"
| "starts_with (p # ps) [] = False"
| "starts_with (p # ps) (c # cs) = (p = c \<and> starts_with ps cs)"

lemma starts_with_iff: "starts_with p s \<longleftrightarrow> (\<exists>t. s = p @ t)"
  by (induction p s rule: starts_with.induct) auto

lemma starts_with_append [simp]: "starts_with p (p @ t)"
  by (auto simp: starts_with_iff)

definition ends_with :: "string \<Rightarrow> string \<Rightarrow> bool" where
  "ends_with p s \<longleftrightarrow> starts_with (rev p) (rev s)"

lemma ends_with_iff: "ends_with p s \<longleftrightarrow> (\<exists>t. s = t @ p)"
  unfolding ends_with_def starts_with_iff by (metis rev_append rev_rev_ident)

definition strip_prefix :: "string \<Rightarrow> string \<Rightarrow> string option" where
  "strip_prefix p s = (if starts_with p s then Some (drop (length p) s) else None)"

definition strip_suffix :: "string \<Rightarrow> string \<Rightarrow> string option" where
  "strip_suffix p s = (if ends_with p s then Some (take (length s - length p) s) else None)"

lemma strip_prefix_Some [simp]: "strip_prefix p s = Some t \<longleftrightarrow> s = p @ t"
  by (auto simp: strip_prefix_def starts_with_iff)

lemma strip_suffix_Some [simp]: "strip_suffix p s = Some t \<longleftrightarrow> s = t @ p"
  by (auto simp: strip_suffix_def ends_with_iff)

fun str_find :: "string \<Rightarrow> string \<Rightarrow> nat option" where
  "str_find n [] = (if n = [] then Some 0 else None)"
| "str_find n (c # cs) =
     (if starts_with n (c # cs) then Some 0 else map_option Suc (str_find n cs))"

definition str_contains :: "string \<Rightarrow> string \<Rightarrow> bool" where
  "str_contains n h \<longleftrightarrow> str_find n h \<noteq> None"

lemma str_contains_iff: "str_contains n h \<longleftrightarrow> (\<exists>u v. h = u @ n @ v)"
proof (induction h)
  case Nil
  then show ?case by (auto simp: str_contains_def)
next
  case (Cons c cs)
  have "str_contains n (c # cs) \<longleftrightarrow> starts_with n (c # cs) \<or> str_contains n cs"
    by (auto simp: str_contains_def)
  also have "\<dots> \<longleftrightarrow> (\<exists>u v. c # cs = u @ n @ v)"
    unfolding Cons.IH starts_with_iff by (metis append_Cons append_Nil append_eq_Cons_conv)
  finally show ?case .
qed

lemma str_contains_append [contains_rules]:
  "str_contains n h \<Longrightarrow> str_contains n (u @ h @ v)"
  unfolding str_contains_iff by (metis append.assoc)

lemma str_find_Some: "str_find n h = Some i \<Longrightarrow> \<exists>u v. h = u @ n @ v \<and> length u = i"
proof (induction h arbitrary: i)
  case (Cons c cs)
  show ?case
  proof (cases "starts_with n (c # cs)")
    case True
    with Cons.prems show ?thesis by (auto simp: starts_with_iff)
  next
    case False
    with Cons.prems obtain j where j: "i = Suc j" "str_find n cs = Some j" by auto
    with Cons.IH [of j] obtain u v where "cs = u @ n @ v" "length u = j" by blast
    with j have "c # cs = (c # u) @ n @ v \<and> length (c # u) = i" by simp
    then show ?thesis by blast
  qed
qed (auto split: if_splits)

text \<open>\<open>split(c)\<close>, \<open>split\_once(c)\<close> and \<open>rsplit\_once(c)\<close> for an ASCII character.\<close>

definition str_split :: "char \<Rightarrow> string \<Rightarrow> string list" where
  "str_split c s = splitBy (\<lambda>x. x = c) s"

fun split_once :: "char \<Rightarrow> string \<Rightarrow> (string \<times> string) option" where
  "split_once c [] = None"
| "split_once c (x # xs) =
     (if x = c then Some ([], xs) else map_option (\<lambda>(a, b). (x # a, b)) (split_once c xs))"

definition rsplit_once :: "char \<Rightarrow> string \<Rightarrow> (string \<times> string) option" where
  "rsplit_once c s = map_option (\<lambda>(a, b). (rev b, rev a)) (split_once c (rev s))"

lemma split_once_Some: "split_once c s = Some (a, b) \<longleftrightarrow> s = a @ c # b \<and> c \<notin> set a"
proof (induction s arbitrary: a)
  case (Cons x xs)
  then show ?case by (cases a) auto
qed simp

lemma rsplit_once_Some: "rsplit_once c s = Some (a, b) \<longleftrightarrow> s = a @ c # b \<and> c \<notin> set b"
proof -
  have "rsplit_once c s = Some (a, b) \<longleftrightarrow> split_once c (rev s) = Some (rev b, rev a)"
    by (auto simp: rsplit_once_def rev_swap)
  also have "\<dots> \<longleftrightarrow> s = a @ c # b \<and> c \<notin> set b"
    by (simp add: split_once_Some rev_swap)
  finally show ?thesis .
qed

text \<open>\<open>trim\_matches(c)\<close> and its one-sided forms, for an ASCII character.\<close>

definition trim_start_matches :: "char \<Rightarrow> string \<Rightarrow> string" where
  "trim_start_matches c s = dropWhile (\<lambda>x. x = c) s"

definition trim_end_matches :: "char \<Rightarrow> string \<Rightarrow> string" where
  "trim_end_matches c s = rev (dropWhile (\<lambda>x. x = c) (rev s))"

definition trim_matches :: "char \<Rightarrow> string \<Rightarrow> string" where
  "trim_matches c s = trim_end_matches c (trim_start_matches c s)"

text \<open>\<open>str::replace(pat, to)\<close>: non-overlapping matches from the left, \<open>pat\<close> not empty.\<close>

function str_replace :: "string \<Rightarrow> string \<Rightarrow> string \<Rightarrow> string" where
  "str_replace n r [] = []"
| "str_replace n r (c # cs) =
     (if n \<noteq> [] \<and> starts_with n (c # cs)
      then r @ str_replace n r (drop (length n) (c # cs))
      else c # str_replace n r cs)"
  by pat_completeness auto
termination
  by (relation "measure (\<lambda>(n, r, s). length s)") (auto simp: neq_Nil_conv)

fun str_join :: "string \<Rightarrow> string list \<Rightarrow> string" where
  "str_join sep [] = []"
| "str_join sep [x] = x"
| "str_join sep (x # y # xs) = x @ sep @ str_join sep (y # xs)"

section \<open>ASCII case\<close>

definition is_ascii_upper :: "char \<Rightarrow> bool" where
  "is_ascii_upper c \<longleftrightarrow> 65 \<le> (of_char c :: nat) \<and> (of_char c :: nat) \<le> 90"

definition is_ascii_lower :: "char \<Rightarrow> bool" where
  "is_ascii_lower c \<longleftrightarrow> 97 \<le> (of_char c :: nat) \<and> (of_char c :: nat) \<le> 122"

definition is_ascii_digit :: "char \<Rightarrow> bool" where
  "is_ascii_digit c \<longleftrightarrow> 48 \<le> (of_char c :: nat) \<and> (of_char c :: nat) \<le> 57"

definition is_ascii_alnum :: "char \<Rightarrow> bool" where
  "is_ascii_alnum c \<longleftrightarrow> is_ascii_upper c \<or> is_ascii_lower c \<or> is_ascii_digit c"

text \<open>Setting bit 5 turns an upper case letter into its lower case.\<close>

definition ascii_lower :: "char \<Rightarrow> char" where
  "ascii_lower c =
     (if is_ascii_upper c
      then Char (digit0 c) (digit1 c) (digit2 c) (digit3 c) (digit4 c) True (digit6 c) (digit7 c)
      else c)"

definition to_ascii_lowercase :: "string \<Rightarrow> string" where
  "to_ascii_lowercase s = map ascii_lower s"

definition eq_ignore_ascii_case :: "string \<Rightarrow> string \<Rightarrow> bool" where
  "eq_ignore_ascii_case s t \<longleftrightarrow> to_ascii_lowercase s = to_ascii_lowercase t"

lemma length_to_ascii_lowercase [simp]: "length (to_ascii_lowercase s) = length s"
  by (simp add: to_ascii_lowercase_def)

lemma eq_ignore_ascii_case_refl [simp]: "eq_ignore_ascii_case s s"
  by (simp add: eq_ignore_ascii_case_def)

section \<open>Decimal numbers\<close>

definition digit_val :: "char \<Rightarrow> nat" where
  "digit_val c = of_char c - 48"

definition digit_char :: "nat \<Rightarrow> char" where
  "digit_char d = char_of (48 + d)"

text \<open>
  \<open>str::parse::<uN>()\<close>: an optional \<open>+\<close>, then at least one digit; \<open>None\<close> on any other
  character and on overflow of the type, whose largest value is the first argument.
\<close>

definition u16_max :: nat where "u16_max = 65535"
definition u32_max :: nat where "u32_max = 4294967295"
definition u64_max :: nat where "u64_max = 18446744073709551615"

definition parse_digits :: "string \<Rightarrow> nat" where
  "parse_digits s = foldl (\<lambda>n c. 10 * n + digit_val c) 0 s"

definition parse_uint :: "nat \<Rightarrow> string \<Rightarrow> nat option" where
  "parse_uint mx s =
     (let ds = (case s of c # cs \<Rightarrow> if c = CHR ''+'' then cs else s | [] \<Rightarrow> [])
      in if ds \<noteq> [] \<and> list_all is_ascii_digit ds \<and> parse_digits ds \<le> mx
         then Some (parse_digits ds) else None)"

text \<open>\<open>format!("{}", n)\<close> of an unsigned integer.\<close>

fun show_nat :: "nat \<Rightarrow> string" where
  "show_nat n = (if n < 10 then [digit_char n] else show_nat (n div 10) @ [digit_char (n mod 10)])"

declare show_nat.simps [simp del]

lemma digit_char:
  assumes "d < 10"
  shows "is_ascii_digit (digit_char d)" and "digit_val (digit_char d) = d"
proof -
  have "of_char (digit_char d) = (48 + d) mod (256 :: nat)"
    by (simp add: digit_char_def)
  with assms have *: "of_char (digit_char d) = (48 + d :: nat)" by simp
  show "is_ascii_digit (digit_char d)" using * assms by (simp add: is_ascii_digit_def)
  show "digit_val (digit_char d) = d" using * by (simp add: digit_val_def)
qed

lemma parse_digits_snoc: "parse_digits (s @ [c]) = 10 * parse_digits s + digit_val c"
  by (simp add: parse_digits_def)

lemma show_nat_digits: "list_all is_ascii_digit (show_nat n) \<and> show_nat n \<noteq> [] \<and> parse_digits (show_nat n) = n"
proof (induction n rule: show_nat.induct)
  case (1 n)
  show ?case
  proof (cases "n < 10")
    case True
    then show ?thesis
      by (subst (1 2 3) show_nat.simps) (simp add: digit_char parse_digits_def)
  next
    case False
    with 1 have *: "list_all is_ascii_digit (show_nat (n div 10))" "parse_digits (show_nat (n div 10)) = n div 10"
      by auto
    have "show_nat n = show_nat (n div 10) @ [digit_char (n mod 10)]"
      using False by (subst show_nat.simps) simp
    with * show ?thesis by (simp add: digit_char parse_digits_snoc)
  qed
qed

lemma parse_show_nat [simp]: "n \<le> mx \<Longrightarrow> parse_uint mx (show_nat n) = Some n"
proof -
  assume n: "n \<le> mx"
  obtain c cs where s: "show_nat n = c # cs" using show_nat_digits [of n] by (cases "show_nat n") auto
  with show_nat_digits [of n] have "is_ascii_digit c" by auto
  then have "c \<noteq> CHR ''+''" by (auto simp: is_ascii_digit_def)
  with n s show_nat_digits [of n] show ?thesis by (simp add: parse_uint_def)
qed

lemma parse_uint_le: "parse_uint mx s = Some n \<Longrightarrow> n \<le> mx"
  by (auto simp: parse_uint_def Let_def split: if_splits)

section \<open>Removing a secret from a text\<close>

text \<open>
  Replacing every occurrence of a secret by a marker \<open>[m]\<close> leaves no occurrence, when the
  secret has no bracket and is no part of \<open>m\<close>: an occurrence in the result would either lie
  in unreplaced text, where it would have been replaced, or touch a bracket.
\<close>

lemma str_replace_prefix:
  assumes "str_replace n (CHR ''['' # r) t = p @ q" and "CHR ''['' \<notin> set p"
  shows "\<exists>t'. t = p @ t'"
  using assms
proof (induction p arbitrary: t)
  case (Cons x p)
  then obtain c cs where t: "t = c # cs" by (cases t) auto
  have "\<not> (n \<noteq> [] \<and> starts_with n (c # cs))" using Cons.prems t by auto
  with Cons.prems t have "c = x" "str_replace n (CHR ''['' # r) cs = p @ q" by auto
  with Cons.IH [of cs] Cons.prems(2) t show ?case by auto
qed simp

lemma not_starts_with_replaced:
  assumes "n \<noteq> []" "CHR ''['' \<notin> set n"
  shows "\<not> starts_with n (str_replace n (CHR ''['' # r) t)"
proof
  assume "starts_with n (str_replace n (CHR ''['' # r) t)"
  then obtain q where q: "str_replace n (CHR ''['' # r) t = n @ q" by (auto simp: starts_with_iff)
  with str_replace_prefix [OF q assms(2)] obtain t' where t: "t = n @ t'" by blast
  with assms(1) obtain c cs where "t = c # cs" by (cases n) auto
  with t assms(1) have "str_replace n (CHR ''['' # r) t = CHR ''['' # r @ str_replace n (CHR ''['' # r) (drop (length n) t)"
    by (metis append_Cons starts_with_append str_replace.simps(2))
  with q assms show False by (cases n) auto
qed

lemma contains_Cons: "n \<noteq> [] \<Longrightarrow> str_contains n (c # cs) \<longleftrightarrow> starts_with n (c # cs) \<or> str_contains n cs"
  by (auto simp: str_contains_def)

lemma starts_with_split:
  assumes "starts_with n (u @ x # v)" and "x \<notin> set n"
  shows "starts_with n u"
  using assms
proof (induction n u rule: starts_with.induct)
qed auto

lemma contains_past_mark:
  assumes "n \<noteq> []" "x \<notin> set n" "str_contains n (u @ x # v)"
  shows "str_contains n u \<or> str_contains n v"
  using assms
proof (induction u)
  case Nil
  then show ?case by (cases n) (auto simp: contains_Cons)
next
  case (Cons c u)
  then consider "starts_with n ((c # u) @ x # v)" | "str_contains n (u @ x # v)"
    by (auto simp: contains_Cons)
  then show ?case
  proof cases
    case 1
    with starts_with_split [OF this Cons.prems(2)] have "str_contains n (c # u)"
      by (simp add: contains_Cons Cons.prems(1))
    then show ?thesis ..
  next
    case 2
    with Cons show ?thesis by (auto simp: contains_Cons)
  qed
qed

theorem str_replace_removes:
  assumes n: "n \<noteq> []" "CHR ''['' \<notin> set n" "CHR '']'' \<notin> set n" and m: "\<not> str_contains n m"
  shows "\<not> str_contains n (str_replace n (CHR ''['' # m @ [CHR '']'']) t)"
proof (induction t rule: length_induct)
  case (1 t)
  let ?r = "CHR ''['' # m @ [CHR '']'']"
  show ?case
  proof (cases t)
    case Nil
    with n show ?thesis by (simp add: str_contains_def)
  next
    case (Cons c cs)
    show ?thesis
    proof (cases "starts_with n t")
      case True
      let ?t' = "str_replace n ?r (drop (length n) t)"
      have "length (drop (length n) t) < length t" using n(1) Cons by simp
      with 1 have IH: "\<not> str_contains n ?t'" by blast
      have "str_replace n ?r t = [] @ CHR ''['' # (m @ CHR '']'' # ?t')"
        using True n(1) Cons by simp
      with contains_past_mark [OF n(1) n(2), of "[]"] contains_past_mark [OF n(1) n(3), of m] m IH n(1)
      show ?thesis by (metis str_contains_def str_find.simps(1))
    next
      case False
      with Cons have eq: "str_replace n ?r t = c # str_replace n ?r cs" by simp
      have "\<not> starts_with n (str_replace n ?r t)" using not_starts_with_replaced [OF n(1,2)] by blast
      with eq n(1) have "str_contains n (str_replace n ?r t) \<longleftrightarrow> str_contains n (str_replace n ?r cs)"
        by (simp add: contains_Cons)
      with 1 Cons show ?thesis by simp
    qed
  qed
qed

lemma str_contains_take_chars:
  "str_contains n (concat (take k (str_chars s))) \<Longrightarrow> str_contains n s"
proof -
  assume *: "str_contains n (concat (take k (str_chars s)))"
  have "s = concat (take k (str_chars s)) @ concat (drop k (str_chars s))"
    by (metis append_take_drop_id concat_append concat_str_chars)
  with str_contains_append [OF *, of "[]" "concat (drop k (str_chars s))"] show ?thesis by simp
qed

section \<open>Decoding bytes as UTF-8, replacing what is not\<close>

text \<open>
  \<open>String::from\_utf8\_lossy\<close>: each maximal prefix of an ill-formed sequence becomes
  U+FFFD. \<open>utf8_width\<close> and \<open>second_ok\<close> are the standard library's tables.
\<close>

definition code :: "char \<Rightarrow> nat" where
  "code c = of_char c"

definition replacement_char :: string where
  "replacement_char = [CHR 0xEF, CHR 0xBF, CHR 0xBD]"

definition utf8_width :: "char \<Rightarrow> nat" where
  "utf8_width b =
     (if code b < 0x80 then 1
      else if 0xC2 \<le> code b \<and> code b \<le> 0xDF then 2
      else if 0xE0 \<le> code b \<and> code b \<le> 0xEF then 3
      else if 0xF0 \<le> code b \<and> code b \<le> 0xF4 then 4
      else 0)"

definition second_ok :: "char \<Rightarrow> char \<Rightarrow> bool" where
  "second_ok b c \<longleftrightarrow>
     (if code b = 0xE0 then 0xA0 \<le> code c \<and> code c \<le> 0xBF
      else if code b = 0xED then 0x80 \<le> code c \<and> code c \<le> 0x9F
      else if code b = 0xF0 then 0x90 \<le> code c \<and> code c \<le> 0xBF
      else if code b = 0xF4 then 0x80 \<le> code c \<and> code c \<le> 0x8F
      else 0x80 \<le> code c \<and> code c \<le> 0xBF)"

text \<open>The number of bytes at the front that are a character (\<open>True\<close>) or to be replaced.\<close>

fun utf8_next :: "string \<Rightarrow> nat \<times> bool" where
  "utf8_next [] = (0, True)"
| "utf8_next (b # bs) =
     (let w = utf8_width b in
      if w = 0 then (1, False)
      else if w = 1 then (1, True)
      else case bs of
        [] \<Rightarrow> (1, False)
      | c # cs \<Rightarrow>
          if \<not> second_ok b c then (1, False)
          else if w = 2 then (2, True)
          else case cs of
            [] \<Rightarrow> (2, False)
          | d # ds \<Rightarrow>
              if \<not> is_cont d then (2, False)
              else if w = 3 then (3, True)
              else case ds of
                [] \<Rightarrow> (3, False)
              | e # es \<Rightarrow> if is_cont e then (4, True) else (3, False))"

lemma utf8_next_pos: "0 < fst (utf8_next (b # bs))"
  by (auto simp: Let_def split: list.splits)

declare utf8_next.simps [simp del]

function from_utf8_lossy :: "string \<Rightarrow> string" where
  "from_utf8_lossy [] = []"
| "from_utf8_lossy (b # bs) =
     (let (k, ok) = utf8_next (b # bs)
      in (if ok then take k (b # bs) else replacement_char) @ from_utf8_lossy (drop k (b # bs)))"
  by pat_completeness auto
termination
proof (relation "measure length", goal_cases)
  case (2 b bs x k ok)
  then have "k > 0" using utf8_next_pos [of b bs] by (metis fst_conv)
  then show ?case by simp
qed simp

lemma ascii_code: "\<not> digit7 c \<longleftrightarrow> code c < 128"
  by (cases c) (simp add: code_def of_char_def)

lemma utf8_next_ascii: "\<not> digit7 b \<Longrightarrow> utf8_next (b # bs) = (1, True)"
  by (simp add: utf8_next.simps utf8_width_def ascii_code)

lemma from_utf8_lossy_ascii: "ascii s \<Longrightarrow> from_utf8_lossy s = s"
  by (induction s) (simp_all add: utf8_next_ascii)

section \<open>Tokens\<close>

text \<open>A list of byte groups that are characters: it is what \<open>str_chars\<close> makes of their bytes.\<close>

definition chars_ok :: "string list \<Rightarrow> bool" where
  "chars_ok cs \<longleftrightarrow>
     (\<forall>c \<in> set cs. c \<noteq> [] \<and> list_all is_cont (tl c)) \<and> list_all (\<lambda>c. \<not> is_cont (hd c)) (tl cs)"

lemma chars_ok_str_chars: "chars_ok (str_chars s)"
proof (induction s)
  case (Cons b s)
  then show ?case
    by (cases "str_chars s"; cases "hd (str_chars s)")
       (auto simp: chars_ok_def neq_Nil_conv split: list.splits)
qed (simp add: chars_ok_def)

lemma str_chars_group: "list_all is_cont t \<Longrightarrow> cs = [] \<or> \<not> is_cont (hd (hd cs)) \<Longrightarrow>
  str_chars s = cs \<Longrightarrow> str_chars (b # t @ s) = (b # t) # cs"
proof (induction t arbitrary: b)
  case (Cons c t)
  from Cons.IH [of c] Cons.prems show ?case by simp
qed (auto split: list.splits)

lemma str_chars_concat: "chars_ok cs \<Longrightarrow> str_chars (concat cs) = cs"
proof (induction cs)
  case (Cons c cs)
  from Cons.prems obtain b t where c: "c = b # t" "list_all is_cont t"
    by (cases c) (auto simp: chars_ok_def)
  have "chars_ok cs" using Cons.prems by (cases cs) (auto simp: chars_ok_def)
  moreover have "cs = [] \<or> \<not> is_cont (hd (hd cs))" using Cons.prems by (cases cs) (auto simp: chars_ok_def)
  ultimately show ?case using Cons.IH c str_chars_group [of t cs "concat cs" b] by simp
qed simp

lemma chars_ok_part: "chars_ok (u @ w @ v) \<Longrightarrow> chars_ok w"
  by (cases u; cases w) (auto simp: chars_ok_def)

lemma splitBy_head: "splitBy p xs = v # vs \<Longrightarrow> \<exists>z. xs = v @ z"
  by (induction xs arbitrary: v vs) (auto split: if_splits list.splits)

lemma splitBy_part: "w \<in> set (splitBy p xs) \<Longrightarrow> \<exists>u v. xs = u @ w @ v"
proof (induction xs arbitrary: w)
  case (Cons x xs)
  obtain v vs where v: "splitBy p xs = v # vs" by (cases "splitBy p xs") auto
  then obtain z where z: "xs = v @ z" using splitBy_head by blast
  from Cons.prems v consider "w = []" | "w = x # v" | "w \<in> set (splitBy p xs)"
    by (auto split: if_splits)
  then show ?case
  proof cases
    case 2
    with z have "x # xs = [] @ w @ z" by simp
    then show ?thesis by blast
  next
    case 3
    with Cons.IH obtain u z where "xs = u @ w @ z" by blast
    then have "x # xs = (x # u) @ w @ z" by simp
    then show ?thesis by blast
  qed (metis append_Nil)
qed simp

lemma str_split_ws_token:
  assumes "w \<in> set (str_split_ws s)"
  shows "w \<noteq> []" and "\<not> has_whitespace w"
proof -
  from assms obtain cs where cs: "cs \<in> set (splitBy is_whitespace (str_chars s))" "w = concat cs" "w \<noteq> []"
    by (auto simp: str_split_ws_def)
  from splitBy_part [OF cs(1)] chars_ok_str_chars [of s] have "chars_ok cs"
    by (metis chars_ok_part)
  with cs(2) have "str_chars w = cs" by (simp add: str_chars_concat)
  with splitBy_no_sep [OF cs(1)] show "\<not> has_whitespace w" by (auto simp: has_whitespace_def)
  show "w \<noteq> []" by (rule cs(3))
qed

text \<open>On ASCII text all this works byte by byte.\<close>

lemma concat_singles [simp]: "concat (map (\<lambda>c. [c]) s) = s"
  by (induction s) auto

lemma splitBy_map: "splitBy p (map f xs) = map (map f) (splitBy (\<lambda>x. p (f x)) xs)"
  by (induction xs) (auto split: list.splits)

lemma dropWhile_singles: "dropWhile p (map (\<lambda>c. [c]) s) = map (\<lambda>c. [c]) (dropWhile (\<lambda>c. p [c]) s)"
  by (induction s) auto

lemma str_split_ws_ascii: "ascii s \<Longrightarrow> str_split_ws s = filter (\<lambda>w. w \<noteq> []) (splitBy is_ws s)"
  by (simp add: str_split_ws_def str_chars_ascii splitBy_map comp_def)

lemma ascii_rev [simp]: "ascii (rev s) = ascii s"
  by (simp add: ascii_def)

lemma str_trim_ascii: "ascii s \<Longrightarrow> str_trim s = rev (dropWhile is_ws (rev (dropWhile is_ws s)))"
  by (simp add: str_trim_def str_chars_ascii dropWhile_singles rev_map)

lemma dropWhile_hd: "s = [] \<or> \<not> p (hd s) \<Longrightarrow> dropWhile p s = s"
  by (cases s) auto

lemma str_trim_no_ws:
  "ascii s \<Longrightarrow> s \<noteq> [] \<Longrightarrow> \<not> is_ws (hd s) \<Longrightarrow> \<not> is_ws (last s) \<Longrightarrow> str_trim s = s"
  by (simp add: str_trim_ascii dropWhile_hd hd_rev)

text \<open>Plain tokens: ASCII, not empty, no white space. Text made of them splits back.\<close>

definition plain :: "string \<Rightarrow> bool" where
  "plain s \<longleftrightarrow> s \<noteq> [] \<and> ascii s \<and> (\<forall>c \<in> set s. \<not> is_ws c)"

lemma plain_append: "plain a \<Longrightarrow> plain b \<Longrightarrow> plain (a @ b)"
  by (auto simp: plain_def ascii_def)

lemma is_ws_space [simp]: "is_ws CHR '' ''" and is_ws_lf [simp]: "is_ws CHR 0x0A"
  and is_ws_cr [simp]: "is_ws CHR 0x0D"
  by (simp_all add: is_ws_def ws_ascii_def)

lemma str_split_ws_join:
  "\<forall>w \<in> set ws. plain w \<Longrightarrow> str_split_ws (str_join '' '' ws) = ws"
proof (induction ws rule: induct_list012)
  case 1
  show ?case by (simp add: str_split_ws_def)
next
  case (2 x)
  then show ?case by (simp add: str_split_ws_ascii plain_def splitBy_id)
next
  case (3 x y zs)
  have asc: "\<forall>w \<in> set ws. plain w \<Longrightarrow> ascii (str_join '' '' ws)" for ws
    by (induction ws rule: induct_list012) (auto simp: plain_def)
  from 3 have "str_split_ws (str_join '' '' (y # zs)) = y # zs" by simp
  moreover from 3 asc [of "y # zs"] asc [of "x # y # zs"]
  have "ascii (str_join '' '' (y # zs))" "ascii (str_join '' '' (x # y # zs))" by simp_all
  moreover from 3 have "\<forall>c \<in> set x. \<not> is_ws c" "x \<noteq> []" by (auto simp: plain_def)
  ultimately show ?case by (simp add: str_split_ws_ascii splitBy_append)
qed

lemma str_lines_cons:
  assumes "CHR 0x0A \<notin> set l" and "l = [] \<or> last l \<noteq> CHR 0x0D"
  shows "str_lines (l @ CHR 0x0A # s) = l # str_lines s"
proof -
  have "splitBy (\<lambda>c. c = CHR 0x0A) (l @ CHR 0x0A # s) = l # splitBy (\<lambda>c. c = CHR 0x0A) s"
    using assms(1) by (intro splitBy_append) auto
  with assms(2) show ?thesis by (auto simp: str_lines_def Let_def strip_cr_def)
qed

lemma str_lines_Nil [simp]: "str_lines [] = []"
  by (simp add: str_lines_def)

end
