(* ===== verification/OsModel.thy ===== *)
theory OsModel
  imports QC_Prelude
begin

text \<open>
  What the program uses of \<open>std::process\<close>, \<open>std::time\<close> and \<open>std::thread\<close>.

  Time is a natural number of milliseconds. It passes in \<open>thread::sleep\<close> and in blocking
  waits; a sleep lasts at least what was asked, the excess being an arbitrary function of the
  moment (\<open>lag\<close>). A child process is described by what it will do: when it exits by itself,
  how it reacts to the gentle signals, what it writes to its pipes and when they are closed.
  The closures the program polls (\<open>escalated\<close>, cancellation flags) may answer differently at
  every call, so they are functions of the number of calls made before.
\<close>

section \<open>Errors of \<open>std::io\<close>\<close>

datatype io_kind = KNotFound | KInvalidInput | KInvalidData | KTimedOut | KUnexpectedEof | KWouldBlock | KOther

datatype io_error = IoError (io_kind: io_kind) (io_text: string)

section \<open>Clock\<close>

record clock =
  now :: nat
  lag :: "nat \<Rightarrow> nat"
  polls :: nat

definition os_sleep :: "nat \<Rightarrow> clock \<Rightarrow> clock" where
  "os_sleep d c = c\<lparr>now := now c + d + lag c (now c)\<rparr>"

text \<open>\<open>start.elapsed()\<close>; monotonic clocks saturate at zero.\<close>

definition elapsed :: "nat \<Rightarrow> clock \<Rightarrow> nat" where
  "elapsed start c = now c - start"

text \<open>One call of a polled closure.\<close>

definition poll_flag :: "(nat \<Rightarrow> bool) \<Rightarrow> clock \<Rightarrow> clock \<times> bool" where
  "poll_flag f c = (c\<lparr>polls := Suc (polls c)\<rparr>, f (polls c))"

lemma os_sleep_simps [simp]:
  "now (os_sleep d c) = now c + d + lag c (now c)"
  "lag (os_sleep d c) = lag c" "polls (os_sleep d c) = polls c"
  by (simp_all add: os_sleep_def)

lemma poll_flag_simps [simp]:
  "now (fst (poll_flag f c)) = now c" "lag (fst (poll_flag f c)) = lag c"
  "snd (poll_flag f c) = f (polls c)"
  by (simp_all add: poll_flag_def)

section \<open>Child processes\<close>

datatype signal = SIGINT | SIGTERM | SIGKILL | CTRL_BREAK | TERMINATE

text \<open>
  \<open>exit_at\<close> is the moment of exit and the exit code (\<open>None\<close> when a signal ended it);
  \<open>on_int\<close> and \<open>on_term\<close> say after how long, and with which code, the process obeys
  \<open>SIGINT\<close> (or the console event) and \<open>SIGTERM\<close>, \<open>None\<close> when it ignores the signal.
  \<open>delivered\<close> records the signals sent to the process group. \<open>pipe_eof\<close> is the moment
  after the exit at which the pipes reach end of file: a grandchild that inherited them keeps
  them open, for ever when it is \<open>None\<close>. \<open>in_data\<close> is what was written to its standard input,
  unless writing fails with \<open>in_err\<close>.
\<close>

record proc =
  pid :: nat
  exit_at :: "(nat \<times> int option) option"
  on_int :: "(nat \<times> int option) option"
  on_term :: "(nat \<times> int option) option"
  wait_err :: "io_error option"
  kill_err :: "io_error option"
  reaped :: bool
  delivered :: "signal list"
  out_chunks :: "(io_error + string) list"
  err_chunks :: "(io_error + string) list"
  pipe_eof :: "nat option"
  in_err :: "io_error option"
  in_data :: string

definition exited_by :: "nat \<Rightarrow> proc \<Rightarrow> bool" where
  "exited_by t p = (case exit_at p of None \<Rightarrow> False | Some (e, _) \<Rightarrow> e \<le> t)"

fun earlier :: "(nat \<times> 'a) option \<Rightarrow> (nat \<times> 'a) option \<Rightarrow> (nat \<times> 'a) option" where
  "earlier None b = b"
| "earlier a None = a"
| "earlier (Some (s, x)) (Some (t, y)) = (if t < s then Some (t, y) else Some (s, x))"

definition reaction :: "signal \<Rightarrow> nat \<Rightarrow> proc \<Rightarrow> (nat \<times> int option) option" where
  "reaction sg t p =
     (case sg of
        SIGINT \<Rightarrow> map_option (\<lambda>(d, k). (t + d, k)) (on_int p)
      | CTRL_BREAK \<Rightarrow> map_option (\<lambda>(d, k). (t + d, k)) (on_int p)
      | SIGTERM \<Rightarrow> map_option (\<lambda>(d, k). (t + d, k)) (on_term p)
      | SIGKILL \<Rightarrow> Some (t, None)
      | TERMINATE \<Rightarrow> Some (t, Some 1))"

text \<open>\<open>kill(-pgid, signal)\<close>: the whole group hears it; an exited leader is past reacting.\<close>

definition os_kill_group :: "signal \<Rightarrow> nat \<Rightarrow> proc \<Rightarrow> proc" where
  "os_kill_group sg t p =
     p\<lparr>delivered := delivered p @ [sg],
       exit_at := (if exited_by t p then exit_at p else earlier (exit_at p) (reaction sg t p))\<rparr>"

text \<open>\<open>Child::try_wait\<close>, \<open>Child::wait\<close> (\<open>None\<close>: it blocks for ever) and \<open>Child::kill\<close>.\<close>

definition os_try_wait :: "clock \<Rightarrow> proc \<Rightarrow> proc \<times> (io_error + int option option)" where
  "os_try_wait c p =
     (case wait_err p of
        Some e \<Rightarrow> (p, Inl e)
      | None \<Rightarrow>
          (case exit_at p of
             Some (e, k) \<Rightarrow> if e \<le> now c then (p\<lparr>reaped := True\<rparr>, Inr (Some k)) else (p, Inr None)
           | None \<Rightarrow> (p, Inr None)))"

definition os_wait :: "clock \<Rightarrow> proc \<Rightarrow> (clock \<times> proc \<times> (io_error + int option)) option" where
  "os_wait c p =
     (case wait_err p of
        Some e \<Rightarrow> Some (c, p, Inl e)
      | None \<Rightarrow>
          (case exit_at p of
             Some (e, k) \<Rightarrow> Some (c\<lparr>now := max (now c) e\<rparr>, p\<lparr>reaped := True\<rparr>, Inr k)
           | None \<Rightarrow> None))"

definition os_kill :: "nat \<Rightarrow> proc \<Rightarrow> proc \<times> (io_error + unit)" where
  "os_kill t p =
     (case kill_err p of
        Some e \<Rightarrow> (p, Inl e)
      | None \<Rightarrow> (os_kill_group SIGKILL t p, Inr ()))"

text \<open>\<open>write_all\<close> to the standard input.\<close>

definition os_write_stdin :: "string \<Rightarrow> proc \<Rightarrow> proc \<times> (io_error + unit)" where
  "os_write_stdin s p =
     (case in_err p of Some e \<Rightarrow> (p, Inl e) | None \<Rightarrow> (p\<lparr>in_data := in_data p @ s\<rparr>, Inr ()))"

text \<open>\<open>try_wait().ok().flatten().is_some()\<close>.\<close>

definition saw_exit :: "io_error + int option option \<Rightarrow> bool" where
  "saw_exit r = (case r of Inr (Some _) \<Rightarrow> True | _ \<Rightarrow> False)"

text \<open>\<open>status.code().unwrap_or(d)\<close>.\<close>

definition code_or :: "int \<Rightarrow> int option \<Rightarrow> int" where
  "code_or d k = (case k of Some n \<Rightarrow> n | None \<Rightarrow> d)"

text \<open>
  Joining a thread that drains the pipes: it ends when the pipes reach end of file, which is
  at the exit of the process or, with a grandchild, later or never.
\<close>

definition os_join_reader :: "clock \<Rightarrow> proc \<Rightarrow> clock option" where
  "os_join_reader c p =
     (case (exit_at p, pipe_eof p) of
        (Some (e, _), Some d) \<Rightarrow> Some (c\<lparr>now := max (now c) (e + d)\<rparr>)
      | _ \<Rightarrow> None)"

section \<open>Facts about signals and waiting\<close>

lemma wait_result_cases:
  obtains (err) e where "r = Inl e" | (running) "r = Inr None" | (exit) k where "r = Inr (Some k)"
  by (metis option.exhaust sum.exhaust)

lemma exited_by_mono: "exited_by s p \<Longrightarrow> s \<le> t \<Longrightarrow> exited_by t p"
  by (auto simp: exited_by_def split: option.splits)

lemma os_kill_group_frame [simp]:
  "pid (os_kill_group sg t p) = pid p"
  "wait_err (os_kill_group sg t p) = wait_err p"
  "reaped (os_kill_group sg t p) = reaped p"
  "delivered (os_kill_group sg t p) = delivered p @ [sg]"
  "kill_err (os_kill_group sg t p) = kill_err p"
  "pipe_eof (os_kill_group sg t p) = pipe_eof p"
  "on_int (os_kill_group sg t p) = on_int p" "on_term (os_kill_group sg t p) = on_term p"
  by (simp_all add: os_kill_group_def)

lemma exited_by_kill_group: "exited_by t p \<Longrightarrow> exited_by t (os_kill_group sg t' p)"
  by (cases "exit_at p"; cases "reaction sg t' p")
     (auto simp: exited_by_def os_kill_group_def split: option.splits if_splits)

lemma SIGKILL_exits: "exited_by t (os_kill_group SIGKILL t p)"
  by (cases "exit_at p") (auto simp: exited_by_def os_kill_group_def reaction_def)

lemma TERMINATE_exits: "exited_by t (os_kill_group TERMINATE t p)"
  by (cases "exit_at p") (auto simp: exited_by_def os_kill_group_def reaction_def)

lemma saw_exit_try_wait:
  "saw_exit (snd (os_try_wait c p)) \<longleftrightarrow> wait_err p = None \<and> exited_by (now c) p"
  by (auto simp: saw_exit_def os_try_wait_def exited_by_def split: option.splits)

lemma os_try_wait_frame [simp]:
  "pid (fst (os_try_wait c p)) = pid p"
  "exit_at (fst (os_try_wait c p)) = exit_at p"
  "wait_err (fst (os_try_wait c p)) = wait_err p"
  "delivered (fst (os_try_wait c p)) = delivered p"
  "on_int (fst (os_try_wait c p)) = on_int p" "on_term (fst (os_try_wait c p)) = on_term p"
  "kill_err (fst (os_try_wait c p)) = kill_err p"
  "pipe_eof (fst (os_try_wait c p)) = pipe_eof p"
  by (simp_all add: os_try_wait_def split: option.splits)

lemma reaped_try_wait:
  "reaped (fst (os_try_wait c p)) \<longleftrightarrow> reaped p \<or> saw_exit (snd (os_try_wait c p))"
  by (auto simp: os_try_wait_def saw_exit_def split: option.splits)

lemma exited_by_cong: "exit_at p = exit_at q \<Longrightarrow> exited_by t p = exited_by t q"
  by (simp add: exited_by_def)

lemma os_wait_exited:
  assumes "exited_by (now c) p" and "wait_err p = None"
  obtains k where "os_wait c p = Some (c, p\<lparr>reaped := True\<rparr>, Inr k)"
proof -
  from assms(1) obtain e k where "exit_at p = Some (e, k)" "e \<le> now c"
    by (auto simp: exited_by_def split: option.splits)
  with assms(2) have "os_wait c p = Some (c, p\<lparr>reaped := True\<rparr>, Inr k)"
    by (simp add: os_wait_def max_def)
  then show thesis by (rule that)
qed

lemma wait_after_kill_returns: "exited_by (now c) p \<Longrightarrow> \<exists>c' p' r. os_wait c p = Some (c', p', r)"
  by (auto simp: os_wait_def exited_by_def split: option.splits)

lemma os_join_reader_exited:
  assumes "exited_by (now c) p" and "pipe_eof p = Some d"
  obtains c' where "os_join_reader c p = Some c'" "lag c' = lag c" "now c \<le> now c'" "now c' \<le> now c + d"
proof -
  from assms obtain e k where "exit_at p = Some (e, k)" "e \<le> now c"
    by (auto simp: exited_by_def split: option.splits)
  with assms(2) have "os_join_reader c p = Some (c\<lparr>now := max (now c) (e + d)\<rparr>)"
    by (simp add: os_join_reader_def)
  then show thesis using \<open>e \<le> now c\<close> by (intro that [of "c\<lparr>now := max (now c) (e + d)\<rparr>"]) auto
qed

text \<open>A child that can be waited for and killed, and whose pipes close \<open>d\<close> after its exit.\<close>

definition tame :: "nat \<Rightarrow> proc \<Rightarrow> bool" where
  "tame d p \<longleftrightarrow> wait_err p = None \<and> kill_err p = None \<and> pipe_eof p = Some d"

lemma tame_try_wait: "os_try_wait c p = (p', r) \<Longrightarrow> tame d p \<Longrightarrow>
    tame d p' \<and> exit_at p' = exit_at p \<and> out_chunks p' = out_chunks p \<and> err_chunks p' = err_chunks p \<and>
    (if exited_by (now c) p then (\<exists>k. r = Inr (Some k)) \<and> reaped p' else r = Inr None)"
  by (auto simp: os_try_wait_def tame_def exited_by_def split: option.splits if_splits)

lemma tame_kill_wait:
  assumes "tame d p"
  obtains p' k where "os_kill (now c) p = (os_kill_group SIGKILL (now c) p, Inr ())"
    "os_wait c (os_kill_group SIGKILL (now c) p) = Some (c, p', Inr k)" "exited_by (now c) p'" "reaped p'" "tame d p'"
proof -
  let ?p = "os_kill_group SIGKILL (now c) p"
  have ex: "exited_by (now c) ?p" by (rule SIGKILL_exits)
  moreover have "wait_err ?p = None" using assms by (simp add: tame_def)
  ultimately obtain k where "os_wait c ?p = Some (c, ?p\<lparr>reaped := True\<rparr>, Inr k)" by (rule os_wait_exited)
  then show thesis by (rule that [rotated]) (use assms ex in \<open>simp_all add: os_kill_def tame_def exited_by_def\<close>)
qed

section \<open>Bounded capture of a pipe\<close>

text \<open>
  The loop both crates run in a reader thread, as a function of the results of \<open>read\<close>: each
  is a chunk, the empty one being end of file, or an error; end of file follows the last.
  The result is the stored bytes and whether some were dropped.
\<close>

fun capture_loop :: "nat \<Rightarrow> string \<Rightarrow> bool \<Rightarrow> (io_error + string) list \<Rightarrow> io_error + (string \<times> bool)" where
  "capture_loop limit bytes truncated [] = Inr (bytes, truncated)"
| "capture_loop limit bytes truncated (Inl e # rs) = Inl e"
| "capture_loop limit bytes truncated (Inr chunk # rs) =
     (if chunk = [] then Inr (bytes, truncated)
      else let remaining = limit - length bytes;
               stored = min remaining (length chunk)
           in capture_loop limit (bytes @ take stored chunk)
                (truncated \<or> stored < length chunk) rs)"

text \<open>The bytes of a pipe: everything up to end of file, unless an error comes first.\<close>

fun pipe_bytes :: "(io_error + string) list \<Rightarrow> io_error + string" where
  "pipe_bytes [] = Inr []"
| "pipe_bytes (Inl e # rs) = Inl e"
| "pipe_bytes (Inr chunk # rs) =
     (if chunk = [] then Inr [] else andThen (pipe_bytes rs) (\<lambda>s. Inr (chunk @ s)))"

lemma capture_loop_ok:
  "length bytes \<le> limit \<Longrightarrow> pipe_bytes rs = Inr s \<Longrightarrow>
   capture_loop limit bytes truncated rs =
     Inr (take limit (bytes @ s), truncated \<or> limit < length bytes + length s)"
proof (induction rs arbitrary: bytes truncated s)
  case (Cons r rs)
  show ?case
  proof (cases r)
    case (Inr chunk)
    show ?thesis
    proof (cases "chunk = []")
      case True
      with Cons.prems Inr show ?thesis by simp
    next
      case False
      with Cons.prems(2) Inr obtain s' where s': "pipe_bytes rs = Inr s'" "s = chunk @ s'"
        by (auto simp: andThen_Inr_iff)
      let ?k = "min (limit - length bytes) (length chunk)"
      have "length (bytes @ take ?k chunk) \<le> limit" using Cons.prems(1) by simp
      from Cons.IH [OF this s'(1)] show ?thesis
        using Cons.prems(1) False Inr s'(2) by (auto simp: Let_def min_def)
    qed
  qed (use Cons.prems in auto)
qed simp

lemma capture_loop_err: "pipe_bytes rs = Inl e \<Longrightarrow> capture_loop limit bytes truncated rs = Inl e"
proof (induction rs arbitrary: bytes truncated)
  case (Cons r rs)
  then show ?case
    by (cases r) (auto simp: Let_def andThen_Inl_iff split: if_splits)
qed simp

lemma capture_loop_bounded:
  "length bytes \<le> limit \<Longrightarrow> capture_loop limit bytes truncated rs = Inr (b, t) \<Longrightarrow> length b \<le> limit"
  by (induction limit bytes truncated rs rule: capture_loop.induct)
     (auto simp: Let_def split: if_splits)

section \<open>Launching external programs\<close>

text \<open>
  The machine the program runs on: its clock, the command lines launched so far (the program,
  the variables set for it and its arguments), and what launching one does, which is up to the
  external program and may differ at every launch. The exit moment of a new child counts from
  its start.
\<close>

record host =
  clk :: clock
  issued :: "(string \<times> (string \<times> string) list \<times> string list) list"
  launch :: "nat \<Rightarrow> string \<Rightarrow> (string \<times> string) list \<Rightarrow> string list \<Rightarrow> io_error + proc"

definition os_spawn_env :: "string \<Rightarrow> (string \<times> string) list \<Rightarrow> string list \<Rightarrow> host \<Rightarrow> host \<times> (io_error + proc)" where
  "os_spawn_env path env args h =
     (h\<lparr>issued := issued h @ [(path, env, args)]\<rparr>,
      andThen (launch h (length (issued h)) path env args)
        (\<lambda>p. Inr (p\<lparr>exit_at := map_option (\<lambda>(e, k). (now (clk h) + e, k)) (exit_at p)\<rparr>)))"

abbreviation os_spawn :: "string \<Rightarrow> string list \<Rightarrow> host \<Rightarrow> host \<times> (io_error + proc)" where
  "os_spawn path args \<equiv> os_spawn_env path [] args"

lemma os_spawn_eq:
  "os_spawn_env path env args h = (h', r) \<Longrightarrow>
   issued h' = issued h @ [(path, env, args)] \<and> clk h' = clk h \<and> launch h' = launch h"
  by (auto simp: os_spawn_env_def)

lemma os_spawn_child:
  "os_spawn_env path env args h = (h', Inr p) \<Longrightarrow>
   \<exists>q. launch h (length (issued h)) path env args = Inr q \<and>
       p = q\<lparr>exit_at := map_option (\<lambda>(e, k). (now (clk h) + e, k)) (exit_at q)\<rparr>"
  by (auto simp: os_spawn_env_def andThen_Inr_iff)

lemma os_spawn_host [simp]:
  "issued (fst (os_spawn_env path env args h)) = issued h @ [(path, env, args)]"
  "clk (fst (os_spawn_env path env args h)) = clk h"
  "launch (fst (os_spawn_env path env args h)) = launch h"
  by (simp_all add: os_spawn_env_def)

text \<open>
  \<open>Command::output\<close>: read both pipes to their end, then wait; there is no time limit, the
  value is \<open>None\<close> when the child never exits or leaves its pipes open.
\<close>

definition os_output :: "clock \<Rightarrow> proc \<Rightarrow> (clock \<times> (io_error + (int option \<times> string \<times> string))) option" where
  "os_output c p =
     (case os_join_reader c p of
        None \<Rightarrow> None
      | Some c \<Rightarrow>
          (case os_wait c p of
             None \<Rightarrow> None
           | Some (c, p, r) \<Rightarrow>
               Some (c, andThen (pipe_bytes (out_chunks p)) (\<lambda>out.
                        andThen (pipe_bytes (err_chunks p)) (\<lambda>err.
                        andThen r (\<lambda>k. Inr (k, out, err)))))))"

end
