(* ===== verification/ProcessLadder.thy ===== *)
theory ProcessLadder
  imports OsModel "HOL-Library.Sublist"
begin

text \<open>
  The crate \<open>quadcontrol-process\<close>: the bounded buffer that keeps the tail of a child's
  \<open>stderr\<close>, and the termination ladder \<open>SIGINT\<close>, \<open>SIGTERM\<close>, \<open>SIGKILL\<close> for one child
  (\<open>terminate\<close>) and for several with one shared waiting budget (\<open>terminate_all\<close>), on Unix
  and on Windows. The closure \<open>escalated\<close> is a function of the number of its calls.
\<close>

named_theorems ladder_frame \<open>what the steps of the ladder leave unchanged\<close>

section \<open>The ring buffer\<close>

definition STDERR_LIMIT :: nat where "STDERR_LIMIT = 64 * 1024"

record ring_buffer =
  rb_bytes :: string
  rb_limit :: nat

definition ring_new :: "nat \<Rightarrow> ring_buffer" where
  "ring_new limit = \<lparr>rb_bytes = [], rb_limit = limit\<rparr>"

definition ring_push1 :: "ring_buffer \<Rightarrow> char \<Rightarrow> ring_buffer" where
  "ring_push1 r b =
     (let bs = (if length (rb_bytes r) = rb_limit r then tl (rb_bytes r) else rb_bytes r)
      in r\<lparr>rb_bytes := bs @ [b]\<rparr>)"

definition ring_push :: "ring_buffer \<Rightarrow> string \<Rightarrow> ring_buffer" where
  "ring_push r data = foldl ring_push1 r data"

definition ring_text :: "ring_buffer \<Rightarrow> string" where
  "ring_text r = from_utf8_lossy (rb_bytes r)"

text \<open>\<open>drain_stderr\<close>: read until end of file or an error, pushing every chunk.\<close>

fun drain_stderr :: "(io_error + string) list \<Rightarrow> ring_buffer \<Rightarrow> ring_buffer" where
  "drain_stderr [] r = r"
| "drain_stderr (Inl e # rs) r = r"
| "drain_stderr (Inr chunk # rs) r = (if chunk = [] then r else drain_stderr rs (ring_push r chunk))"

text \<open>The last \<open>n\<close> elements of a list.\<close>

definition last_n :: "nat \<Rightarrow> 'a list \<Rightarrow> 'a list" where
  "last_n n xs = drop (length xs - n) xs"

lemma length_last_n [simp]: "length (last_n n xs) = min n (length xs)"
  by (auto simp: last_n_def)

lemma last_n_append_last_n: "last_n n (last_n n xs @ ys) = last_n n (xs @ ys)"
proof (cases "length xs \<le> n")
  case False
  then have "last_n n xs @ ys = drop (length xs - n) (xs @ ys)" by (simp add: last_n_def)
  with False show ?thesis by (simp add: last_n_def add.commute)
qed (simp add: last_n_def)

text \<open>
  The interface the rest of the program relies on: a buffer whose contents after a push are
  the last \<open>cap\<close> bytes of what was there and what was pushed.
\<close>

locale tail_buffer =
  fixes push :: "'b \<Rightarrow> string \<Rightarrow> 'b"
    and contents :: "'b \<Rightarrow> string"
    and cap :: "'b \<Rightarrow> nat"
    and wf :: "'b \<Rightarrow> bool"
  assumes push_contents: "wf b \<Longrightarrow> contents (push b d) = last_n (cap b) (contents b @ d)"
    and push_cap: "cap (push b d) = cap b"
    and push_wf: "wf b \<Longrightarrow> wf (push b d)"
begin

lemma pushes_cap: "cap (foldl push b ds) = cap b"
  by (induction ds arbitrary: b) (simp_all add: push_cap)

lemma pushes_wf: "wf b \<Longrightarrow> wf (foldl push b ds)"
  by (induction ds arbitrary: b) (simp_all add: push_wf)

lemma pushes_contents:
  "wf b \<Longrightarrow> length (contents b) \<le> cap b \<Longrightarrow>
   contents (foldl push b ds) = last_n (cap b) (contents b @ concat ds)"
proof (induction ds arbitrary: b)
  case Nil
  then show ?case by (simp add: last_n_def)
next
  case (Cons d ds)
  have "length (contents (push b d)) \<le> cap (push b d)"
    using Cons.prems by (simp add: push_contents push_cap)
  with Cons show ?case
    by (simp add: push_wf push_cap push_contents last_n_append_last_n)
qed

lemma pushes_bounded:
  "wf b \<Longrightarrow> length (contents b) \<le> cap b \<Longrightarrow> length (contents (foldl push b ds)) \<le> cap b"
  by (simp add: pushes_contents)

end

definition ring_wf :: "ring_buffer \<Rightarrow> bool" where
  "ring_wf r \<longleftrightarrow> 0 < rb_limit r \<and> length (rb_bytes r) \<le> rb_limit r"

lemma ring_push1_limit [simp]: "rb_limit (ring_push1 r b) = rb_limit r"
  by (simp add: ring_push1_def Let_def)

lemma ring_push1_contents:
  "ring_wf r \<Longrightarrow> rb_bytes (ring_push1 r b) = last_n (rb_limit r) (rb_bytes r @ [b])"
  by (cases "rb_bytes r") (auto simp: ring_push1_def ring_wf_def last_n_def Let_def)

lemma ring_push1_wf: "ring_wf r \<Longrightarrow> ring_wf (ring_push1 r b)"
  by (auto simp: ring_push1_contents ring_wf_def)

lemma ring_push_limit: "rb_limit (ring_push r d) = rb_limit r"
  unfolding ring_push_def by (induction d arbitrary: r) simp_all

lemma ring_push_wf: "ring_wf r \<Longrightarrow> ring_wf (ring_push r d)"
  unfolding ring_push_def by (induction d arbitrary: r) (simp_all add: ring_push1_wf)

lemma ring_push_contents:
  "ring_wf r \<Longrightarrow> rb_bytes (ring_push r d) = last_n (rb_limit r) (rb_bytes r @ d)"
proof (induction d arbitrary: r)
  case Nil
  then show ?case by (simp add: ring_push_def ring_wf_def last_n_def)
next
  case (Cons b d)
  then have "rb_bytes (ring_push (ring_push1 r b) d) = last_n (rb_limit r) (last_n (rb_limit r) (rb_bytes r @ [b]) @ d)"
    by (simp add: ring_push1_wf ring_push1_contents)
  then show ?case by (simp add: ring_push_def last_n_append_last_n)
qed

interpretation ring: tail_buffer ring_push rb_bytes rb_limit ring_wf
  by unfold_locales (auto simp: ring_push_contents ring_push_limit ring_push_wf)

lemma ring_new_wf: "0 < n \<Longrightarrow> ring_wf (ring_new n)"
  by (simp add: ring_wf_def ring_new_def)

text \<open>What was read before the first error or end of file.\<close>

fun chunks_before_stop :: "(io_error + string) list \<Rightarrow> string list" where
  "chunks_before_stop [] = []"
| "chunks_before_stop (Inl e # rs) = []"
| "chunks_before_stop (Inr chunk # rs) = (if chunk = [] then [] else chunk # chunks_before_stop rs)"

lemma drain_stderr_pushes: "drain_stderr rs r = foldl ring_push r (chunks_before_stop rs)"
  by (induction rs r rule: drain_stderr.induct) simp_all

section \<open>Waiting for one child\<close>

text \<open>
  \<open>wait_for\<close>: poll every 100 ms until the child exited, the budget is used up or the user
  escalates. The budget that is left decreases with every sleep.
\<close>

function wait_for_from :: "nat \<Rightarrow> nat \<Rightarrow> (nat \<Rightarrow> bool) \<Rightarrow> clock \<Rightarrow> proc \<Rightarrow> clock \<times> proc \<times> bool" where
  "wait_for_from start timeout escalated c p =
     (if elapsed start c < timeout then
        (let (p, r) = os_try_wait c p in
         if saw_exit r then (c, p, True)
         else let (c, e) = poll_flag escalated c in
              if e then (c, p, False)
              else wait_for_from start timeout escalated (os_sleep 100 c) p)
      else (c, p, False))"
  by pat_completeness auto
termination
  by (relation "measure (\<lambda>(start, timeout, escalated, c, p). start + timeout - now c)")
     (auto simp: elapsed_def poll_flag_def)

declare wait_for_from.simps [simp del]

definition wait_for :: "proc \<Rightarrow> nat \<Rightarrow> (nat \<Rightarrow> bool) \<Rightarrow> clock \<Rightarrow> clock \<times> proc \<times> bool" where
  "wait_for p timeout escalated c = wait_for_from (now c) timeout escalated c p"

section \<open>The ladder for one child\<close>

text \<open>
  \<open>terminate\<close> on Unix. The result is \<open>None\<close> when the final \<open>wait\<close> never returns.
\<close>

definition terminate_unix :: "proc \<Rightarrow> (nat \<Rightarrow> bool) \<Rightarrow> clock \<Rightarrow> (clock \<times> proc \<times> (io_error + unit)) option" where
  "terminate_unix p escalated c0 =
     (let (c1, e1) = poll_flag escalated c0;
          p1 = (if \<not> e1 then os_kill_group SIGINT (now c1) p else p);
          (c2, e2) = poll_flag escalated c1;
          (c3, p2, gone) = (if \<not> e2 then wait_for p1 3000 escalated c2 else (c2, p1, False))
      in if gone then Some (c3, p2, Inr ())
         else let p3 = os_kill_group SIGTERM (now c3) p2;
                  (c4, p4, gone) = wait_for p3 2000 escalated c3
              in if gone then Some (c4, p4, Inr ())
                 else let p5 = os_kill_group SIGKILL (now c4) p4
                      in case os_wait c4 p5 of
                           None \<Rightarrow> None
                         | Some (c5, p6, r) \<Rightarrow> Some (c5, p6, andThen r (\<lambda>_. Inr ())))"

text \<open>
  \<open>terminate\<close> on Windows: the console event only with a console, then \<open>TerminateProcess\<close>,
  which has no effect when the process cannot be opened.
\<close>

definition terminate_windows ::
  "bool \<Rightarrow> bool \<Rightarrow> proc \<Rightarrow> (nat \<Rightarrow> bool) \<Rightarrow> clock \<Rightarrow> (clock \<times> proc \<times> (io_error + unit)) option" where
  "terminate_windows has_console can_open p escalated c0 =
     (let (c1, e1) = (if has_console then poll_flag escalated c0 else (c0, False));
          p1 = (if has_console \<and> \<not> e1 then os_kill_group CTRL_BREAK (now c1) p else p);
          (c2, e2) = (if has_console then poll_flag escalated c1 else (c1, False));
          (c3, p2, gone) =
            (if has_console \<and> \<not> e2 then wait_for p1 3000 escalated c2 else (c2, p1, False))
      in if gone then Some (c3, p2, Inr ())
         else let p3 = (if can_open then os_kill_group TERMINATE (now c3) p2 else p2)
              in case os_wait c3 p3 of
                   None \<Rightarrow> None
                 | Some (c4, p4, r) \<Rightarrow> Some (c4, p4, andThen r (\<lambda>_. Inr ())))"

section \<open>The ladder for several children\<close>

text \<open>
  \<open>children.iter_mut().all(|child| try_wait is Some)\<close>: stops at the first that still runs.
\<close>

fun all_exited :: "clock \<Rightarrow> proc list \<Rightarrow> proc list \<times> bool" where
  "all_exited c [] = ([], True)"
| "all_exited c (p # ps) =
     (let (p, r) = os_try_wait c p in
      if saw_exit r then let (ps, b) = all_exited c ps in (p # ps, b)
      else (p # ps, False))"

function wait_all_from ::
  "nat \<Rightarrow> nat \<Rightarrow> (nat \<Rightarrow> bool) \<Rightarrow> clock \<Rightarrow> proc list \<Rightarrow> clock \<times> proc list \<times> bool" where
  "wait_all_from start timeout escalated c ps =
     (let (ps, done) = all_exited c ps in
      if done then (c, ps, True)
      else let (c, e) = poll_flag escalated c in
           if e \<or> timeout \<le> elapsed start c then (c, ps, False)
           else wait_all_from start timeout escalated (os_sleep 100 c) ps)"
  by pat_completeness auto
termination
  by (relation "measure (\<lambda>(start, timeout, escalated, c, ps). start + timeout - now c)")
     (auto simp: elapsed_def poll_flag_def)

declare wait_all_from.simps [simp del]

definition wait_all_for :: "proc list \<Rightarrow> nat \<Rightarrow> (nat \<Rightarrow> bool) \<Rightarrow> clock \<Rightarrow> clock \<times> proc list \<times> bool" where
  "wait_all_for ps timeout escalated c = wait_all_from (now c) timeout escalated c ps"

definition for_each_group :: "signal \<Rightarrow> nat \<Rightarrow> proc list \<Rightarrow> proc list" where
  "for_each_group sg t ps = map (os_kill_group sg t) ps"

text \<open>Windows only: the forced step is for one process id, so exited children are skipped.\<close>

definition for_each_live :: "bool \<Rightarrow> clock \<Rightarrow> proc list \<Rightarrow> proc list" where
  "for_each_live can_open c ps =
     map (\<lambda>p. let (p, r) = os_try_wait c p in
              if saw_exit r \<or> \<not> can_open then p else os_kill_group TERMINATE (now c) p) ps"

text \<open>\<open>for child in children { child.wait()?; }\<close>\<close>

fun wait_each :: "clock \<Rightarrow> proc list \<Rightarrow> (clock \<times> proc list \<times> (io_error + unit)) option" where
  "wait_each c [] = Some (c, [], Inr ())"
| "wait_each c (p # ps) =
     (case os_wait c p of
        None \<Rightarrow> None
      | Some (c, p, Inl e) \<Rightarrow> Some (c, p # ps, Inl e)
      | Some (c, p, Inr k) \<Rightarrow>
          (case wait_each c ps of
             None \<Rightarrow> None
           | Some (c, ps, r) \<Rightarrow> Some (c, p # ps, r)))"

definition terminate_all_unix ::
  "proc list \<Rightarrow> (nat \<Rightarrow> bool) \<Rightarrow> clock \<Rightarrow> (clock \<times> proc list \<times> (io_error + unit)) option" where
  "terminate_all_unix ps escalated c0 =
     (let (c1, e1) = poll_flag escalated c0;
          (c2, ps1, gone) =
            (if \<not> e1 then wait_all_for (for_each_group SIGINT (now c1) ps) 3000 escalated c1
             else (c1, ps, False))
      in if gone then Some (c2, ps1, Inr ())
         else let (c3, ps2, gone) = wait_all_for (for_each_group SIGTERM (now c2) ps1) 2000 escalated c2
              in if gone then Some (c3, ps2, Inr ())
                 else wait_each c3 (for_each_group SIGKILL (now c3) ps2))"

definition terminate_all_windows ::
  "bool \<Rightarrow> bool \<Rightarrow> proc list \<Rightarrow> (nat \<Rightarrow> bool) \<Rightarrow> clock \<Rightarrow> (clock \<times> proc list \<times> (io_error + unit)) option" where
  "terminate_all_windows has_console can_open ps escalated c0 =
     (let (c1, e1) = (if has_console then poll_flag escalated c0 else (c0, False));
          (c2, ps1, gone) =
            (if has_console \<and> \<not> e1
             then wait_all_for (for_each_group CTRL_BREAK (now c1) ps) 3000 escalated c1
             else (c1, ps, False))
      in if gone then Some (c2, ps1, Inr ())
         else wait_each c2 (for_each_live can_open c2 ps1))"

section \<open>What the waits leave and how long they take\<close>

text \<open>
  \<open>same_child p q\<close>: \<open>q\<close> is \<open>p\<close> as far as the outside world goes; only the fact that it was
  reaped may have been added.
\<close>

definition same_child :: "proc \<Rightarrow> proc \<Rightarrow> bool" where
  "same_child p q \<longleftrightarrow>
     pid q = pid p \<and> exit_at q = exit_at p \<and> wait_err q = wait_err p \<and> delivered q = delivered p \<and>
     (reaped p \<longrightarrow> reaped q)"

lemma same_child_refl [simp, intro]: "same_child p p"
  by (simp add: same_child_def)

lemma same_child_trans [trans]: "same_child p q \<Longrightarrow> same_child q r \<Longrightarrow> same_child p r"
  by (auto simp: same_child_def)

lemma same_child_try_wait [simp, intro]: "same_child p (fst (os_try_wait c p))"
  by (simp add: same_child_def reaped_try_wait)

lemma same_child_exited: "same_child p q \<Longrightarrow> exited_by t q = exited_by t p"
  by (simp add: same_child_def exited_by_def)

text \<open>A child that was seen to exit is reaped and gone.\<close>

definition gone :: "clock \<Rightarrow> proc \<Rightarrow> bool" where
  "gone c p \<longleftrightarrow> reaped p \<and> exited_by (now c) p"

lemma gone_try_wait: "saw_exit (snd (os_try_wait c p)) \<Longrightarrow> gone c (fst (os_try_wait c p))"
  unfolding gone_def using saw_exit_try_wait [of c p]
  by (simp add: reaped_try_wait exited_by_def)

lemma wait_for_from_props:
  assumes "wait_for_from start timeout escalated c p = (c', p', b)"
  shows "same_child p p' \<and> lag c' = lag c \<and> now c \<le> now c' \<and> (b \<longrightarrow> gone c' p')"
  using assms
proof (induction start timeout escalated c p rule: wait_for_from.induct)
  case (1 start timeout escalated c p)
  obtain p1 r where tw: "os_try_wait c p = (p1, r)" by (cases "os_try_wait c p")
  obtain c1 e where pf: "poll_flag escalated c = (c1, e)" by (cases "poll_flag escalated c")
  from tw have sc: "same_child p p1" by (metis fst_conv same_child_try_wait)
  from pf have c1: "now c1 = now c" "lag c1 = lag c" by (metis fst_conv poll_flag_simps(1,2))+
  consider "\<not> elapsed start c < timeout"
    | "elapsed start c < timeout" "saw_exit r"
    | "elapsed start c < timeout" "\<not> saw_exit r" e
    | "elapsed start c < timeout" "\<not> saw_exit r" "\<not> e" by blast
  then show ?case
  proof cases
    case 2
    with "1.prems" tw have "c' = c" "p' = p1" "b" by (auto simp: wait_for_from.simps [of start])
    moreover have "gone c p1" using gone_try_wait [of c p] tw 2(2) by simp
    ultimately show ?thesis using sc by simp
  next
    case 4
    with "1.prems" tw pf have "wait_for_from start timeout escalated (os_sleep 100 c1) p1 = (c', p', b)"
      by (simp add: wait_for_from.simps [of start timeout escalated c])
    with "1.IH" [OF 4(1) tw [symmetric] refl] 4 pf
    have "same_child p1 p' \<and> lag c' = lag (os_sleep 100 c1) \<and> now (os_sleep 100 c1) \<le> now c' \<and> (b \<longrightarrow> gone c' p')"
      by simp
    with sc c1 show ?thesis by (auto intro: same_child_trans)
  qed (use "1.prems" tw pf sc c1 in \<open>auto simp: wait_for_from.simps [of start timeout escalated c]\<close>)
qed

lemma wait_for_from_time:
  assumes "wait_for_from start timeout escalated c p = (c', p', b)" and "\<forall>t. lag c t \<le> J"
  shows "now c' \<le> max (now c) (start + timeout + 100 + J)"
  using assms
proof (induction start timeout escalated c p rule: wait_for_from.induct)
  case (1 start timeout escalated c p)
  obtain p1 r where tw: "os_try_wait c p = (p1, r)" by (cases "os_try_wait c p")
  obtain c1 e where pf: "poll_flag escalated c = (c1, e)" by (cases "poll_flag escalated c")
  from pf have c1: "now c1 = now c" "lag c1 = lag c" by (metis fst_conv poll_flag_simps(1,2))+
  show ?case
  proof (cases "elapsed start c < timeout \<and> \<not> saw_exit r \<and> \<not> e")
    case True
    with "1.prems" tw pf have rec: "wait_for_from start timeout escalated (os_sleep 100 c1) p1 = (c', p', b)"
      by (simp add: wait_for_from.simps [of start timeout escalated c])
    from True have *: "elapsed start c < timeout" "\<not> saw_exit r" "\<not> e" by simp_all
    from rec have le: "now c' \<le> max (now (os_sleep 100 c1)) (start + timeout + 100 + J)"
      using "1.IH" [OF *(1) tw [symmetric] refl *(2) pf [symmetric] refl *(3)] "1.prems"(2) c1 by simp
    have "now (os_sleep 100 c1) \<le> start + timeout + 100 + J"
      using *(1) c1 "1.prems"(2) [rule_format, of "now c"] by (simp add: elapsed_def)
    with le show ?thesis by simp
  next
    case False
    with "1.prems" tw pf c1 have "now c' = now c"
      by (auto simp: wait_for_from.simps [of start timeout escalated c] split: if_splits)
    then show ?thesis by simp
  qed
qed

lemma wait_for_props:
  assumes "wait_for p timeout escalated c = (c', p', b)"
  shows "same_child p p'" "lag c' = lag c" "now c \<le> now c'" "b \<Longrightarrow> gone c' p'"
  using wait_for_from_props assms unfolding wait_for_def by blast+

lemma wait_for_time:
  assumes "wait_for p timeout escalated c = (c', p', b)" and "\<forall>t. lag c t \<le> J"
  shows "now c' \<le> now c + timeout + 100 + J"
  using wait_for_from_time [of "now c" timeout escalated c p c' p' b J] assms
  unfolding wait_for_def by simp

text \<open>When the user escalates at every call, a wait takes no time at all.\<close>

lemma wait_for_escalated:
  assumes "\<And>n. escalated n" and "wait_for p timeout escalated c = (c', p', b)"
  shows "now c' = now c"
proof -
  obtain p1 r where "os_try_wait c p = (p1, r)" by (cases "os_try_wait c p")
  with assms show ?thesis
    by (auto simp: wait_for_def wait_for_from.simps [of "now c" timeout escalated c p] poll_flag_def
        split: if_splits)
qed

section \<open>Correctness of the ladder for one child\<close>

lemma wait_after_kill:
  assumes "exited_by (now c) p" "os_wait c p = Some (c', p', r)"
  shows "c' = c \<and> (wait_err p = None \<longrightarrow> gone c' p' \<and> (\<exists>k. r = Inr k)) \<and>
         delivered p' = delivered p \<and> (\<forall>e. wait_err p = Some e \<longrightarrow> r = Inl e)"
  using assms by (auto simp: os_wait_def gone_def exited_by_def split: option.splits)

text \<open>
  The two rungs after the first wait, and the whole ladder: it always returns; a child that
  can be waited for is gone and reaped; the signals are sent in the order of the ladder.
\<close>

definition forced_rungs :: "proc \<Rightarrow> (nat \<Rightarrow> bool) \<Rightarrow> clock \<Rightarrow> (clock \<times> proc \<times> (io_error + unit)) option" where
  "forced_rungs p escalated c =
     (let p3 = os_kill_group SIGTERM (now c) p;
          (c4, p4, gone) = wait_for p3 2000 escalated c
      in if gone then Some (c4, p4, Inr ())
         else let p5 = os_kill_group SIGKILL (now c4) p4
              in case os_wait c4 p5 of
                   None \<Rightarrow> None
                 | Some (c5, p6, r) \<Rightarrow> Some (c5, p6, andThen r (\<lambda>_. Inr ())))"

lemma forced_rungs_spec:
  obtains c' p' r sigs where "forced_rungs p escalated c = Some (c', p', r)"
    and "wait_err p = None \<longrightarrow> r = Inr () \<and> gone c' p'"
    and "delivered p' = delivered p @ sigs" "sigs = [SIGTERM] \<or> sigs = [SIGTERM, SIGKILL]"
    and "\<forall>J. (\<forall>t. lag c t \<le> J) \<longrightarrow> now c' \<le> now c + 2100 + J"
    and "(\<forall>n. escalated n) \<longrightarrow> now c' = now c"
proof -
  let ?p3 = "os_kill_group SIGTERM (now c) p"
  obtain c4 p4 b where w: "wait_for ?p3 2000 escalated c = (c4, p4, b)"
    by (cases "wait_for ?p3 2000 escalated c")
  note props = wait_for_props [OF w]
  have time: "now c4 \<le> now c + 2100 + J" if "\<forall>t. lag c t \<le> J" for J
    using wait_for_time [OF w that] by simp
  have esc: "(\<forall>n. escalated n) \<longrightarrow> now c4 = now c"
    using wait_for_escalated [OF _ w] by blast
  have del: "delivered p4 = delivered p @ [SIGTERM]" "wait_err p4 = wait_err p"
    using props(1) by (simp_all add: same_child_def)
  show thesis
  proof (cases b)
    case True
    then have eq: "forced_rungs p escalated c = Some (c4, p4, Inr ())" by (simp add: forced_rungs_def w)
    show thesis
      by (rule that [OF eq, of "[SIGTERM]"]) (use True props del time esc in simp_all)
  next
    case False
    let ?p5 = "os_kill_group SIGKILL (now c4) p4"
    obtain c5 p6 r where ow: "os_wait c4 ?p5 = Some (c5, p6, r)"
      using wait_after_kill_returns [OF SIGKILL_exits] by blast
    note wa = wait_after_kill [OF SIGKILL_exits ow]
    have eq: "forced_rungs p escalated c = Some (c5, p6, andThen r (\<lambda>_. Inr ()))"
      using False by (simp add: forced_rungs_def w ow)
    show thesis
      by (rule that [OF eq, of "[SIGTERM, SIGKILL]"]) (use wa del time esc in auto)
  qed
qed

lemma terminate_unix_spec:
  obtains c' p' r sigs where "terminate_unix p escalated c = Some (c', p', r)"
    and "wait_err p = None \<longrightarrow> r = Inr () \<and> gone c' p'"
    and "delivered p' = delivered p @ sigs" "subseq sigs [SIGINT, SIGTERM, SIGKILL]"
    and "\<forall>J. (\<forall>t. lag c t \<le> J) \<longrightarrow> now c' \<le> now c + 5200 + 2 * J"
    and "(\<forall>n. escalated n) \<longrightarrow> now c' = now c \<and> SIGINT \<notin> set sigs"
proof -
  obtain c1 e1 where pf1: "poll_flag escalated c = (c1, e1)" by (cases "poll_flag escalated c")
  obtain c2 e2 where pf2: "poll_flag escalated c1 = (c2, e2)" by (cases "poll_flag escalated c1")
  define p1 where "p1 = (if \<not> e1 then os_kill_group SIGINT (now c1) p else p)"
  obtain c3 p2 b where w: "(if \<not> e2 then wait_for p1 3000 escalated c2 else (c2, p1, False)) = (c3, p2, b)"
    by (cases "if \<not> e2 then wait_for p1 3000 escalated c2 else (c2, p1, False)")
  have cc: "now c2 = now c" "lag c2 = lag c"
    using pf1 pf2 by (auto simp: poll_flag_def)
  have e12: "e1 \<and> e2" if "\<forall>n. escalated n" using pf1 pf2 that by (auto simp: poll_flag_def)
  have p2: "same_child p1 p2" "lag c3 = lag c" "b \<Longrightarrow> gone c3 p2"
    using w cc wait_for_props [of p1 3000 escalated c2 c3 p2 b] by (auto split: if_splits)
  have t3: "now c3 \<le> now c + 3100 + J" if "\<forall>t. lag c t \<le> J" for J
    using w cc that wait_for_time [of p1 3000 escalated c2 c3 p2 b J] by (auto split: if_splits)
  have d1: "delivered p2 = delivered p @ (if e1 then [] else [SIGINT])" "wait_err p2 = wait_err p"
    using p2(1) by (auto simp: same_child_def p1_def)
  have eq0: "terminate_unix p escalated c = (if b then Some (c3, p2, Inr ()) else forced_rungs p2 escalated c3)"
    by (simp add: terminate_unix_def forced_rungs_def pf1 pf2 p1_def [symmetric] w)
  show thesis
  proof (cases b)
    case True
    then have eq: "terminate_unix p escalated c = Some (c3, p2, Inr ())" by (simp add: eq0)
    have ne: "\<not> (\<forall>n. escalated n)"
    proof
      assume "\<forall>n. escalated n"
      then have e2 using e12 by blast
      with w True show False by simp
    qed
    show thesis
    proof (rule that [OF eq _ d1(1)])
      show "\<forall>J. (\<forall>t. lag c t \<le> J) \<longrightarrow> now c3 \<le> now c + 5200 + 2 * J"
        using order_trans [OF t3] by simp
      show "subseq (if e1 then [] else [SIGINT]) [SIGINT, SIGTERM, SIGKILL]" by simp
    qed (use True p2(3) ne in auto)
  next
    case False
    obtain c' p' r sigs where f: "forced_rungs p2 escalated c3 = Some (c', p', r)"
      "wait_err p2 = None \<longrightarrow> r = Inr () \<and> gone c' p'"
      "delivered p' = delivered p2 @ sigs" "sigs = [SIGTERM] \<or> sigs = [SIGTERM, SIGKILL]"
      "\<forall>J. (\<forall>t. lag c3 t \<le> J) \<longrightarrow> now c' \<le> now c3 + 2100 + J"
      "(\<forall>n. escalated n) \<longrightarrow> now c' = now c3"
      by (rule forced_rungs_spec)
    from False f(1) have eq: "terminate_unix p escalated c = Some (c', p', r)" by (simp add: eq0)
    have d: "delivered p' = delivered p @ ((if e1 then [] else [SIGINT]) @ sigs)"
      using f(3) d1(1) by simp
    have tm: "\<forall>J. (\<forall>t. lag c t \<le> J) \<longrightarrow> now c' \<le> now c + 5200 + 2 * J"
    proof (intro allI impI)
      fix J assume J: "\<forall>t. lag c t \<le> J"
      with f(5) p2(2) have "now c' \<le> now c3 + 2100 + J" by simp
      with t3 [OF J] show "now c' \<le> now c + 5200 + 2 * J" by simp
    qed
    have es: "now c' = now c \<and> SIGINT \<notin> set ((if e1 then [] else [SIGINT]) @ sigs)" if a: "\<forall>n. escalated n"
    proof -
      from w e12 [OF a] cc have "now c3 = now c" by auto
      with f(6) a e12 [OF a] f(4) show ?thesis by auto
    qed
    have sub: "subseq ((if e1 then [] else [SIGINT]) @ sigs) [SIGINT, SIGTERM, SIGKILL]"
      using f(4) by auto
    show thesis
      by (rule that [OF eq _ d sub tm]) (use f(2) d1(2) es in simp_all)
  qed
qed

lemma wait_for_from_frame:
  "wait_for_from start timeout escalated c p = (c', p', b) \<Longrightarrow>
   err_chunks p' = err_chunks p \<and> pipe_eof p' = pipe_eof p"
proof (induction start timeout escalated c p rule: wait_for_from.induct)
  case (1 start timeout escalated c p)
  obtain p1 r where tw: "os_try_wait c p = (p1, r)" by (cases "os_try_wait c p")
  obtain c1 e where pf: "poll_flag escalated c = (c1, e)" by (cases "poll_flag escalated c")
  have "err_chunks p1 = err_chunks p" "pipe_eof p1 = pipe_eof p"
    using tw by (auto simp: os_try_wait_def split: option.splits if_splits)
  with "1.IH" [OF _ tw [symmetric] refl _ pf [symmetric] refl] "1.prems" tw pf show ?case
    by (auto simp: wait_for_from.simps [of start timeout escalated c p] split: if_splits)
qed

lemma wait_for_frame:
  "wait_for p timeout escalated c = (c', p', b) \<Longrightarrow>
   lag c' = lag c \<and> wait_err p' = wait_err p \<and> now c \<le> now c' \<and>
   err_chunks p' = err_chunks p \<and> pipe_eof p' = pipe_eof p"
  using wait_for_props [of p timeout escalated c c' p' b] wait_for_from_frame [of "now c" timeout escalated c p c' p' b]
  by (simp add: same_child_def wait_for_def)

lemma os_wait_keeps:
  "os_wait c p = Some (c', p', r) \<Longrightarrow> lag c' = lag c \<and> wait_err p' = wait_err p \<and> now c \<le> now c' \<and>
   err_chunks p' = err_chunks p \<and> pipe_eof p' = pipe_eof p"
  by (auto simp: os_wait_def split: option.splits)

lemma os_kill_group_chunks [simp]: "err_chunks (os_kill_group sg t p) = err_chunks p"
  by (simp add: os_kill_group_def)

lemma terminate_unix_frame:
  assumes "terminate_unix p escalated c = Some (c', p', r)"
  shows "lag c' = lag c \<and> wait_err p' = wait_err p \<and> now c \<le> now c' \<and>
         err_chunks p' = err_chunks p \<and> pipe_eof p' = pipe_eof p"
  using assms
  by (auto simp: terminate_unix_def Let_def poll_flag_def split: prod.splits if_splits option.splits
      dest!: wait_for_frame os_wait_keeps)
section \<open>Correctness of the ladder for several children\<close>

lemma all_exited_props:
  assumes "all_exited c ps = (ps', b)"
  shows "list_all2 same_child ps ps'" and "b \<Longrightarrow> \<forall>p \<in> set ps'. gone c p"
  using assms
proof (induction ps arbitrary: ps' b)
  case (Cons p ps)
  {
    case 1
    then show ?case using Cons.IH(1)
      by (auto split: prod.splits if_splits intro: list_all2_refl)
         (metis fst_conv same_child_try_wait)+
  next
    case 2
    then show ?case using Cons.IH(2) gone_try_wait [of c p]
      by (auto split: prod.splits if_splits)
  }
qed simp_all

lemma same_children_trans:
  "list_all2 same_child ps qs \<Longrightarrow> list_all2 same_child qs rs \<Longrightarrow> list_all2 same_child ps rs"
  by (rule list_all2_trans [of same_child same_child same_child]) (auto intro: same_child_trans)

lemma wait_all_from_props:
  assumes "wait_all_from start timeout escalated c ps = (c', ps', b)"
  shows "list_all2 same_child ps ps' \<and> lag c' = lag c \<and> now c \<le> now c' \<and>
         (b \<longrightarrow> (\<forall>p \<in> set ps'. gone c' p)) \<and>
         ((\<forall>t. lag c t \<le> J) \<longrightarrow> now c' \<le> max (now c) (start + timeout + 100 + J))"
  using assms
proof (induction start timeout escalated c ps rule: wait_all_from.induct)
  case (1 start timeout escalated c ps)
  obtain ps1 d where ae: "all_exited c ps = (ps1, d)" by (cases "all_exited c ps")
  obtain c1 e where pf: "poll_flag escalated c = (c1, e)" by (cases "poll_flag escalated c")
  from pf have c1: "now c1 = now c" "lag c1 = lag c" by (metis fst_conv poll_flag_simps(1,2))+
  note sc = all_exited_props [OF ae]
  show ?case
  proof (cases "d \<or> e \<or> timeout \<le> elapsed start c1")
    case True
    with "1.prems" ae pf have "ps' = ps1" "now c' = now c" "lag c' = lag c" "b \<Longrightarrow> d \<and> c' = c"
      using c1 by (auto simp: wait_all_from.simps [of start timeout escalated c] split: if_splits)
    with sc show ?thesis by auto
  next
    case False
    with "1.prems" ae pf
    have rec: "wait_all_from start timeout escalated (os_sleep 100 c1) ps1 = (c', ps', b)"
      by (simp add: wait_all_from.simps [of start timeout escalated c])
    from False have *: "\<not> d" "\<not> (e \<or> timeout \<le> elapsed start c1)" by simp_all
    note IH = "1.IH" [OF ae [symmetric] refl *(1) pf [symmetric] refl *(2) rec]
    have "now (os_sleep 100 c1) \<le> start + timeout + 100 + J" if "\<forall>t. lag c t \<le> J"
      using c1 that [rule_format, of "now c"] *(2) by (auto simp: elapsed_def)
    with IH c1 sc(1) show ?thesis by (auto intro: same_children_trans)
  qed
qed

lemma wait_all_for_props:
  assumes "wait_all_for ps timeout escalated c = (c', ps', b)"
  shows "list_all2 same_child ps ps'" "lag c' = lag c" "now c \<le> now c'"
    and "b \<Longrightarrow> \<forall>p \<in> set ps'. gone c' p"
    and "\<forall>t. lag c t \<le> J \<Longrightarrow> now c' \<le> now c + timeout + 100 + J"
  using wait_all_from_props [of "now c" timeout escalated c ps c' ps' b J] assms
  unfolding wait_all_for_def by auto

text \<open>One level of the ladder sends its signal to every group and nothing else.\<close>

definition signalled :: "signal list \<Rightarrow> proc \<Rightarrow> proc \<Rightarrow> bool" where
  "signalled sigs p q \<longleftrightarrow>
     pid q = pid p \<and> wait_err q = wait_err p \<and> delivered q = delivered p @ sigs"

lemma signalled_level:
  assumes "list_all2 (signalled sigs) ps qs" and "list_all2 same_child (for_each_group sg t qs) rs"
  shows "list_all2 (signalled (sigs @ [sg])) ps rs"
  using assms unfolding for_each_group_def list_all2_map1
  by (auto simp: list_all2_conv_all_nth signalled_def same_child_def)

lemma signalled_refl: "list_all2 (signalled []) ps ps"
  by (simp add: list_all2_refl signalled_def)

lemma wait_each_killed:
  assumes "\<forall>p \<in> set ps. exited_by (now c) p"
  obtains ps' r where "wait_each c ps = Some (c, ps', r)"
    and "list_all2 (signalled []) ps ps'"
    and "(\<forall>p \<in> set ps. wait_err p = None) \<longrightarrow> r = Inr () \<and> (\<forall>p \<in> set ps'. gone c p)"
  using assms
proof (induction ps arbitrary: thesis)
  case Nil
  show ?case by (rule Nil(1)) auto
next
  case (Cons p ps)
  have pe: "exited_by (now c) p" using Cons.prems(2) by simp
  then obtain c1 p1 k where ow: "os_wait c p = Some (c1, p1, k)"
    using wait_after_kill_returns [of c p] by blast
  note wa = wait_after_kill [OF pe ow]
  have sg: "signalled [] p p1" using ow by (auto simp: signalled_def os_wait_def split: option.splits)
  obtain ps1 r where IH: "wait_each c ps = Some (c, ps1, r)" "list_all2 (signalled []) ps ps1"
    "(\<forall>p \<in> set ps. wait_err p = None) \<longrightarrow> r = Inr () \<and> (\<forall>p \<in> set ps1. gone c p)"
    using Cons.IH Cons.prems(2) by (metis list.set_intros(2))
  show ?case
  proof (cases k)
    case (Inl e)
    with ow wa have "wait_each c (p # ps) = Some (c, p1 # ps, Inl e)" by simp
    then show ?thesis
      by (rule Cons.prems(1)) (use Inl sg wa signalled_refl in auto)
  next
    case (Inr k)
    with ow wa IH have "wait_each c (p # ps) = Some (c, p1 # ps1, r)" by simp
    then show ?thesis
      by (rule Cons.prems(1)) (use Inr sg wa IH in auto)
  qed
qed

lemma terminate_all_unix_spec:
  obtains c' ps' r sigs where "terminate_all_unix ps escalated c = Some (c', ps', r)"
    and "(\<forall>p \<in> set ps. wait_err p = None) \<longrightarrow> r = Inr () \<and> (\<forall>p \<in> set ps'. gone c' p)"
    and "list_all2 (signalled sigs) ps ps'" "subseq sigs [SIGINT, SIGTERM, SIGKILL]"
    and "\<forall>J. (\<forall>t. lag c t \<le> J) \<longrightarrow> now c' \<le> now c + 5200 + 2 * J"
    and "lag c' = lag c \<and> now c \<le> now c'"
proof -
  obtain c1 e1 where pf1: "poll_flag escalated c = (c1, e1)" by (cases "poll_flag escalated c")
  from pf1 have c1: "now c1 = now c" "lag c1 = lag c" by (metis fst_conv poll_flag_simps(1,2))+
  let ?w = "if \<not> e1 then wait_all_for (for_each_group SIGINT (now c1) ps) 3000 escalated c1 else (c1, ps, False)"
  define s1 where "s1 = (if e1 then [] else [SIGINT])"
  obtain c2 ps1 b1 where w1: "?w = (c2, ps1, b1)" by (cases ?w)
  have l1: "lag c2 = lag c" "now c \<le> now c2" "b1 \<Longrightarrow> \<forall>p \<in> set ps1. gone c2 p"
    using w1 c1 wait_all_for_props(2,3,4) [of _ 3000 escalated c1 c2 ps1 b1] by (auto split: if_splits)
  have g1: "list_all2 (signalled s1) ps ps1"
    using w1 signalled_level [OF signalled_refl wait_all_for_props(1), of SIGINT "now c1" ps 3000 escalated c1 c2 ps1 b1]
    by (auto simp: s1_def signalled_refl split: if_splits)
  have t1: "now c2 \<le> now c + 3100 + J" if "\<forall>t. lag c t \<le> J" for J
    using w1 c1 that wait_all_for_props(5) [of "for_each_group SIGINT (now c1) ps" 3000 escalated c1 c2 ps1 b1 J]
    by (auto split: if_splits)
  obtain c3 ps2 b2 where w2: "wait_all_for (for_each_group SIGTERM (now c2) ps1) 2000 escalated c2 = (c3, ps2, b2)"
    by (cases "wait_all_for (for_each_group SIGTERM (now c2) ps1) 2000 escalated c2")
  note wp2 = wait_all_for_props [OF w2]
  have g2: "list_all2 (signalled (s1 @ [SIGTERM])) ps ps2" by (rule signalled_level [OF g1 wp2(1)])
  have t2: "now c3 \<le> now c + 5200 + 2 * J" if "\<forall>t. lag c t \<le> J" for J
    using t1 [OF that] wp2(5) [of J] that l1(1) by simp
  have l3: "lag c3 = lag c" "now c \<le> now c3" using l1 wp2(2,3) by simp_all
  let ?k = "for_each_group SIGKILL (now c3) ps2"
  have "\<forall>p \<in> set ?k. exited_by (now c3) p" by (auto simp: for_each_group_def SIGKILL_exits)
  then obtain ps3 r where w3: "wait_each c3 ?k = Some (c3, ps3, r)" "list_all2 (signalled []) ?k ps3"
    "(\<forall>p \<in> set ?k. wait_err p = None) \<longrightarrow> r = Inr () \<and> (\<forall>p \<in> set ps3. gone c3 p)"
    by (rule wait_each_killed)
  have g3: "list_all2 (signalled (s1 @ [SIGTERM, SIGKILL])) ps ps3"
    using g2 w3(2) by (auto simp: for_each_group_def list_all2_conv_all_nth signalled_def)
  have we: "\<forall>p \<in> set ?k. wait_err p = None" if "\<forall>p \<in> set ps. wait_err p = None"
    using g2 that by (auto simp: for_each_group_def list_all2_conv_all_nth signalled_def set_conv_nth)
  have t3: "now c2 \<le> now c + 5200 + 2 * J" if "\<forall>t. lag c t \<le> J" for J
    using t1 [OF that] by simp
  have eq: "terminate_all_unix ps escalated c =
      (if b1 then Some (c2, ps1, Inr ()) else if b2 then Some (c3, ps2, Inr ()) else Some (c3, ps3, r))"
    by (simp add: terminate_all_unix_def pf1 w1 w2 w3(1))
  consider b1 | "\<not> b1" b2 | "\<not> b1" "\<not> b2" by blast
  then show thesis
  proof cases
    case 1
    show thesis by (rule that [of c2 ps1 "Inr ()" s1]) (use 1 eq l1 g1 t3 in \<open>auto simp: s1_def\<close>)
  next
    case 2
    show thesis
      by (rule that [of c3 ps2 "Inr ()" "s1 @ [SIGTERM]"]) (use 2 eq wp2 g2 t2 l3 in \<open>auto simp: s1_def\<close>)
  next
    case 3
    show thesis
      by (rule that [of c3 ps3 r "s1 @ [SIGTERM, SIGKILL]"]) (use 3 eq w3(3) we g3 t2 l3 in \<open>auto simp: s1_def\<close>)
  qed
qed

section \<open>Properties\<close>

text \<open>
  C18. \<open>terminate\<close> on Unix always returns, and a child that the system lets us wait for is
  then dead and reaped, whatever it does with the gentle signals and whatever the escalation
  closure answers. The signals its group got are rungs of the ladder, in order.
\<close>

theorem terminate_unix_leaves_no_orphan:
  assumes "wait_err p = None"
  shows "\<exists>c' p' sigs. terminate_unix p escalated c = Some (c', p', Inr ()) \<and>
           reaped p' \<and> exited_by (now c') p' \<and>
           delivered p' = delivered p @ sigs \<and> subseq sigs [SIGINT, SIGTERM, SIGKILL]"
  using assms by (rule_tac terminate_unix_spec [of p escalated c]) (auto simp: gone_def)

definition stubborn :: proc where
  "stubborn = \<lparr>pid = 7, exit_at = None, on_int = None, on_term = None, wait_err = None,
     kill_err = None, reaped = False, delivered = [], out_chunks = [], err_chunks = [],
     pipe_eof = Some 0, in_err = None, in_data = []\<rparr>"

definition clock0 :: clock where
  "clock0 = \<lparr>now = 0, lag = (\<lambda>_. 0), polls = 0\<rparr>"

theorem terminate_unix_leaves_no_orphan_witness:
  "\<exists>c' p' sigs. terminate_unix stubborn (\<lambda>_. False) clock0 = Some (c', p', Inr ()) \<and>
     reaped p' \<and> exited_by (now c') p' \<and>
     delivered p' = delivered stubborn @ sigs \<and> subseq sigs [SIGINT, SIGTERM, SIGKILL]"
  by (rule terminate_unix_leaves_no_orphan) (simp add: stubborn_def)

text \<open>
  C17. The parallel ladder: every child ends dead and reaped, all groups got the same signals
  (a dead leader's group included), and the wall clock spent is at most the two waits plus one
  poll and the scheduling delay \<open>J\<close> of each, however many children there are; with delays of
  at most 900 ms it fits the 7 s budget the sessions plan for.
\<close>

theorem terminate_all_unix_shares_one_budget:
  assumes "\<forall>p \<in> set ps. wait_err p = None" and "\<forall>t. lag c t \<le> J"
  shows "\<exists>c' ps' sigs. terminate_all_unix ps escalated c = Some (c', ps', Inr ()) \<and>
           (\<forall>p \<in> set ps'. reaped p \<and> exited_by (now c') p) \<and>
           map delivered ps' = map (\<lambda>p. delivered p @ sigs) ps \<and>
           subseq sigs [SIGINT, SIGTERM, SIGKILL] \<and>
           now c' \<le> now c + 5200 + 2 * J \<and> (J \<le> 900 \<longrightarrow> now c' \<le> now c + 7000)"
proof -
  obtain c' ps' r sigs where s: "terminate_all_unix ps escalated c = Some (c', ps', r)"
    "(\<forall>p \<in> set ps. wait_err p = None) \<longrightarrow> r = Inr () \<and> (\<forall>p \<in> set ps'. gone c' p)"
    "list_all2 (signalled sigs) ps ps'" "subseq sigs [SIGINT, SIGTERM, SIGKILL]"
    "\<forall>J. (\<forall>t. lag c t \<le> J) \<longrightarrow> now c' \<le> now c + 5200 + 2 * J"
    "lag c' = lag c \<and> now c \<le> now c'"
    by (rule terminate_all_unix_spec)
  have "map delivered ps' = map (\<lambda>p. delivered p @ sigs) ps"
    using s(3) by (auto simp: list_all2_conv_all_nth signalled_def intro!: nth_equalityI)
  moreover have "now c' \<le> now c + 5200 + 2 * J" using s(5) assms(2) by blast
  moreover have "J \<le> 900 \<longrightarrow> now c' \<le> now c + 7000" using calculation(2) by simp
  ultimately show ?thesis using s assms(1) by (auto simp: gone_def)
qed

theorem terminate_all_unix_shares_one_budget_witness:
  "\<exists>c' ps' sigs. terminate_all_unix [stubborn, stubborn] (\<lambda>_. False) clock0 = Some (c', ps', Inr ()) \<and>
     (\<forall>p \<in> set ps'. reaped p \<and> exited_by (now c') p) \<and>
     map delivered ps' = map (\<lambda>p. delivered p @ sigs) [stubborn, stubborn] \<and>
     subseq sigs [SIGINT, SIGTERM, SIGKILL] \<and>
     now c' \<le> now clock0 + 5200 + 2 * 0 \<and> (0 \<le> (900::nat) \<longrightarrow> now c' \<le> now clock0 + 7000)"
  by (rule terminate_all_unix_shares_one_budget) (simp_all add: stubborn_def clock0_def)

text \<open>
  A user who keeps pressing interrupt waits for nothing: when every evaluation of the
  escalation closure says so, the ladder sends no \<open>SIGINT\<close>, does not sleep, and still ends
  with the child dead and reaped.
\<close>

theorem escalation_skips_gentle_rungs:
  assumes "wait_err p = None" and "\<forall>n. escalated n"
  shows "\<exists>c' p' sigs. terminate_unix p escalated c = Some (c', p', Inr ()) \<and>
           now c' = now c \<and> reaped p' \<and> exited_by (now c') p' \<and>
           delivered p' = delivered p @ sigs \<and> SIGINT \<notin> set sigs"
  using assms by (rule_tac terminate_unix_spec [of p escalated c]) (auto simp: gone_def)

theorem escalation_skips_gentle_rungs_witness:
  "\<exists>c' p' sigs. terminate_unix stubborn (\<lambda>_. True) clock0 = Some (c', p', Inr ()) \<and>
     now c' = now clock0 \<and> reaped p' \<and> exited_by (now c') p' \<and>
     delivered p' = delivered stubborn @ sigs \<and> SIGINT \<notin> set sigs"
  by (rule escalation_skips_gentle_rungs) (simp_all add: stubborn_def)

text \<open>
  What is kept of a child's \<open>stderr\<close> is exactly its last \<open>n\<close> bytes, up to the first read
  error or the end, for a buffer of any positive size \<open>n\<close>, however the bytes were chunked.
\<close>

theorem drain_stderr_keeps_tail:
  assumes "0 < n"
  shows "rb_bytes (drain_stderr rs (ring_new n)) = last_n n (concat (chunks_before_stop rs))"
  unfolding drain_stderr_pushes
  using ring.pushes_contents [OF ring_new_wf [OF assms], of "chunks_before_stop rs"]
  by (simp add: ring_new_def)

theorem drain_stderr_keeps_tail_witness:
  "rb_bytes (drain_stderr [Inr ''abc'', Inr ''de''] (ring_new 3)) =
     last_n 3 (concat (chunks_before_stop [Inr ''abc'', Inr ''de'']))"
  by (rule drain_stderr_keeps_tail) simp

text \<open>
  The bound fails at one size: a buffer made with limit 0 drops nothing and grows with
  every byte, because eviction is guarded by the length being equal to the limit.
\<close>

theorem ring_limit_zero_is_unbounded:
  "length (rb_bytes (ring_push (ring_new 0) d)) = length d"
proof -
  have "length (rb_bytes (foldl ring_push1 r d)) = length (rb_bytes r) + length d"
    if "rb_limit r = 0" for r
    using that
  proof (induction d arbitrary: r)
    case (Cons b d)
    have "length (rb_bytes (ring_push1 r b)) = Suc (length (rb_bytes r))"
      using Cons.prems by (simp add: ring_push1_def Let_def)
    with Cons show ?case by simp
  qed simp
  then show ?thesis by (simp add: ring_push_def ring_new_def)
qed

text \<open>
  On Windows \<open>terminate\<close> ends with the child dead and reaped whenever the system lets us
  open and wait for the process, with or without a console.
\<close>

theorem terminate_windows_leaves_no_child:
  assumes "wait_err p = None"
  shows "\<exists>c' p'. terminate_windows has_console True p escalated c = Some (c', p', Inr ()) \<and>
           reaped p' \<and> exited_by (now c') p'"
proof -
  let ?f1 = "if has_console then poll_flag escalated c else (c, False)"
  obtain c1 e1 where pf1: "?f1 = (c1, e1)" by (cases ?f1)
  let ?f2 = "if has_console then poll_flag escalated c1 else (c1, False)"
  obtain c2 e2 where pf2: "?f2 = (c2, e2)" by (cases ?f2)
  define p1 where "p1 = (if has_console \<and> \<not> e1 then os_kill_group CTRL_BREAK (now c1) p else p)"
  let ?w = "if has_console \<and> \<not> e2 then wait_for p1 3000 escalated c2 else (c2, p1, False)"
  obtain c3 p2 b where w: "?w = (c3, p2, b)" by (cases ?w)
  have p2: "wait_err p2 = None" "b \<Longrightarrow> gone c3 p2"
    using w assms wait_for_props(1,4) [of p1 3000 escalated c2 c3 p2 b]
    by (auto simp: p1_def same_child_def split: if_splits)
  obtain k where k: "os_wait c3 (os_kill_group TERMINATE (now c3) p2) =
      Some (c3, (os_kill_group TERMINATE (now c3) p2)\<lparr>reaped := True\<rparr>, Inr k)"
    using os_wait_exited [OF TERMINATE_exits, of c3 p2] p2(1) by auto
  have "terminate_windows has_console True p escalated c =
      (if b then Some (c3, p2, Inr ())
       else Some (c3, (os_kill_group TERMINATE (now c3) p2)\<lparr>reaped := True\<rparr>, Inr ()))"
    by (simp only: terminate_windows_def Let_def pf1 prod.case p1_def [symmetric] pf2 w) (simp add: k)
  then show ?thesis
    using p2(2) TERMINATE_exits [of "now c3" p2] by (auto simp: gone_def exited_by_def)
qed

theorem terminate_windows_leaves_no_child_witness:
  "\<exists>c' p'. terminate_windows True True stubborn (\<lambda>_. False) clock0 = Some (c', p', Inr ()) \<and>
     reaped p' \<and> exited_by (now c') p'"
  by (rule terminate_windows_leaves_no_child) (simp add: stubborn_def)

end
