(* ===== verification/AdbProbe.thy ===== *)
theory AdbProbe
  imports ProcessLadder
begin

text \<open>
  The crate \<open>adb-probe\<close>: the three read-only \<open>adb\<close> commands, their bounded execution
  (\<open>SystemRunner\<close>), the parsers of their output, the probe that combines them and the JSON
  report. \<open>adb\<close> itself is whatever the \<^typ>\<open>host\<close> launches.
\<close>

section \<open>Commands\<close>

definition OUTPUT_LIMIT :: nat where "OUTPUT_LIMIT = 64 * 1024"
definition COMMAND_TIMEOUT :: nat where "COMMAND_TIMEOUT = 5000"

datatype AdbCommand = Version | DevicesLong | MdnsServices

fun command_args :: "AdbCommand \<Rightarrow> string list" where
  "command_args Version = [''version'']"
| "command_args DevicesLong = [''devices'', ''-l'']"
| "command_args MdnsServices = [''mdns'', ''services'']"

fun command_debug :: "AdbCommand \<Rightarrow> string" where
  "command_debug Version = ''Version''"
| "command_debug DevicesLong = ''DevicesLong''"
| "command_debug MdnsServices = ''MdnsServices''"

record CommandOutput =
  co_status :: int
  co_stdout :: string
  co_stderr :: string

datatype ExecutionError = AdbNotFound | TimedOut AdbCommand | Io string | OutputTooLarge AdbCommand

fun execution_error_text :: "ExecutionError \<Rightarrow> string" where
  "execution_error_text AdbNotFound = ''adb executable was not found''"
| "execution_error_text (TimedOut command) = ''adb '' @ command_debug command @ '' timed out''"
| "execution_error_text (Io error) = ''adb process error: '' @ error"
| "execution_error_text (OutputTooLarge command) =
     ''adb '' @ command_debug command @ '' exceeded the '' @ show_nat OUTPUT_LIMIT @ ''-byte output limit''"

section \<open>Bounded execution\<close>

record SystemRunner =
  adb_path :: string
  sr_timeout :: nat
  output_limit :: nat

definition system_runner_new :: "string \<Rightarrow> SystemRunner" where
  "system_runner_new path = \<lparr>adb_path = path, sr_timeout = COMMAND_TIMEOUT, output_limit = OUTPUT_LIMIT\<rparr>"

definition system_runner_with_limits :: "string \<Rightarrow> nat \<Rightarrow> nat \<Rightarrow> SystemRunner" where
  "system_runner_with_limits path timeout limit = \<lparr>adb_path = path, sr_timeout = timeout, output_limit = limit\<rparr>"

definition read_limited :: "(io_error + string) list \<Rightarrow> nat \<Rightarrow> io_error + (string \<times> bool)" where
  "read_limited reader limit = capture_loop limit [] False reader"

definition join_capture :: "io_error + (string \<times> bool) \<Rightarrow> string \<Rightarrow> ExecutionError + (string \<times> bool)" where
  "join_capture handle stream =
     mapErr (\<lambda>error. Io (''failed to read '' @ stream @ '': '' @ io_text error)) handle"

text \<open>
  Joining the reader thread of one pipe: a reader that met an error has ended, any other ends
  at the end of file of the pipe. Readers do not panic.
\<close>

definition join_pipe :: "(io_error + string) list \<Rightarrow> clock \<Rightarrow> proc \<Rightarrow> clock option" where
  "join_pipe chunks c p = (if isOk (pipe_bytes chunks) then os_join_reader c p else Some c)"

text \<open>
  The polling loop of \<open>run\<close>. The value is \<open>None\<close> when a \<open>wait\<close> or the join of a reader
  thread never returns. \<open>give_up\<close> is the clean-up both error exits share.
\<close>

definition give_up :: "clock \<Rightarrow> proc \<Rightarrow> (clock \<times> proc) option" where
  "give_up c p =
     (let (p, _) = os_kill (now c) p in
      case os_wait c p of
        None \<Rightarrow> None
      | Some (c, p, _) \<Rightarrow> (case join_pipe (out_chunks p) c p of
             None \<Rightarrow> None
           | Some c \<Rightarrow> map_option (\<lambda>c. (c, p)) (join_pipe (err_chunks p) c p)))"

function run_loop :: "nat \<Rightarrow> nat \<Rightarrow> AdbCommand \<Rightarrow> clock \<Rightarrow> proc \<Rightarrow>
    (clock \<times> proc \<times> (ExecutionError + int option)) option" where
  "run_loop started timeout command c p =
     (case os_try_wait c p of
        (p, Inr (Some status)) \<Rightarrow> Some (c, p, Inr status)
      | (p, Inr None) \<Rightarrow>
          (if timeout \<le> elapsed started c
           then (case give_up c p of None \<Rightarrow> None | Some (c, p) \<Rightarrow> Some (c, p, Inl (TimedOut command)))
           else run_loop started timeout command (os_sleep 10 c) p)
      | (p, Inl error) \<Rightarrow>
          (case give_up c p of None \<Rightarrow> None | Some (c, p) \<Rightarrow> Some (c, p, Inl (Io (io_text error)))))"
  by pat_completeness auto
termination
  by (relation "measure (\<lambda>(started, timeout, command, c, p). started + timeout - now c)")
     (auto simp: elapsed_def)

declare run_loop.simps [simp del]

definition system_run :: "SystemRunner \<Rightarrow> host \<Rightarrow> AdbCommand \<Rightarrow> (host \<times> (ExecutionError + CommandOutput)) option" where
  "system_run r h command =
     (let (h, child) = os_spawn (adb_path r) (command_args command) h in
      case child of
        Inl error \<Rightarrow> Some (h, Inl (if io_kind error = KNotFound then AdbNotFound else Io (io_text error)))
      | Inr p \<Rightarrow>
          (case run_loop (now (clk h)) (sr_timeout r) command (clk h) p of
             None \<Rightarrow> None
           | Some (c, p, Inl e) \<Rightarrow> Some (h\<lparr>clk := c\<rparr>, Inl e)
           | Some (c, p, Inr status) \<Rightarrow>
          (case join_pipe (out_chunks p) c p of
             None \<Rightarrow> None
           | Some c \<Rightarrow>
          (case join_capture (read_limited (out_chunks p) (output_limit r)) ''stdout'' of
             Inl e \<Rightarrow> Some (h\<lparr>clk := c\<rparr>, Inl e)
           | Inr (out, out_truncated) \<Rightarrow>
          (case join_pipe (err_chunks p) c p of
             None \<Rightarrow> None
           | Some c \<Rightarrow>
          (case join_capture (read_limited (err_chunks p) (output_limit r)) ''stderr'' of
             Inl e \<Rightarrow> Some (h\<lparr>clk := c\<rparr>, Inl e)
           | Inr (err, err_truncated) \<Rightarrow>
               Some (h\<lparr>clk := c\<rparr>,
                 if out_truncated \<or> err_truncated then Inl (OutputTooLarge command)
                 else Inr \<lparr>co_status = code_or 1 status, co_stdout = from_utf8_lossy out,
                           co_stderr = from_utf8_lossy err\<rparr>)))))))"

section \<open>Reports\<close>

datatype DeviceState = Device | Offline | Unauthorized | Other string
datatype Transport = Usb | Tcp | Emulator | TransportUnknown

record Device =
  dev_serial :: string
  dev_model :: "string option"
  dev_state :: DeviceState
  dev_transport :: Transport

datatype PairingObservation = PairingUnknown
datatype MdnsAvailability = Available | Unsupported

record MdnsReport =
  availability :: MdnsAvailability
  pairing_service_advertised :: bool
  connect_service_advertised :: bool
  malformed_lines :: nat

record ProbeReport =
  pr_adb_version :: string
  pr_devices :: "Device list"
  pr_mdns :: MdnsReport
  wireless_connected :: bool
  paired_with_this_host :: PairingObservation

datatype ProbeError =
    Execution ExecutionError
  | CommandFailed AdbCommand int string
  | InvalidOutput AdbCommand string

definition show_int :: "int \<Rightarrow> string" where
  "show_int i = (if i < 0 then ''-'' @ show_nat (nat (- i)) else show_nat (nat i))"

fun probe_error_text :: "ProbeError \<Rightarrow> string" where
  "probe_error_text (Execution error) = execution_error_text error"
| "probe_error_text (CommandFailed command status stderr) =
     ''adb '' @ command_debug command @ '' failed with exit '' @ show_int status @ '': '' @ str_trim stderr"
| "probe_error_text (InvalidOutput command reason) =
     ''adb '' @ command_debug command @ '' returned invalid output: '' @ reason"

section \<open>Parsers\<close>

definition parse_version :: "string \<Rightarrow> ProbeError + string" where
  "parse_version stdout =
     okOr (InvalidOutput Version ''version line is missing'')
       (findMap (\<lambda>line. case strip_prefix ''Android Debug Bridge version '' line of
                    None \<Rightarrow> None
                  | Some rest \<Rightarrow> if str_trim rest \<noteq> [] then Some (str_trim rest) else None)
          (str_lines stdout))"

definition is_network_serial :: "string \<Rightarrow> bool" where
  "is_network_serial s \<longleftrightarrow>
     str_contains ''_adb-tls-connect._tcp'' s \<or>
     (case rsplit_once CHR '':'' s of
        None \<Rightarrow> False
      | Some (host, port) \<Rightarrow> host \<noteq> [] \<and> parse_uint u16_max port \<noteq> None)"

definition state_of :: "string \<Rightarrow> DeviceState" where
  "state_of s =
     (if s = ''device'' then Device
      else if s = ''offline'' then Offline
      else if s = ''unauthorized'' then Unauthorized
      else Other s)"

definition parse_device_line :: "string \<Rightarrow> Device option" where
  "parse_device_line line =
     (case str_split_ws line of
        ser # st # rest \<Rightarrow>
          (let model = findMap (\<lambda>field. case strip_prefix ''model:'' field of
                           None \<Rightarrow> None
                         | Some m \<Rightarrow> if m \<noteq> [] then Some (str_replace ''_'' '' '' m) else None)
                         (ser # st # rest);
               transport = (if starts_with ''emulator-'' ser then Emulator
                            else if is_network_serial ser then Tcp
                            else if \<exists>field \<in> set rest. starts_with ''usb:'' field then Usb
                            else TransportUnknown)
           in Some \<lparr>dev_serial = ser, dev_model = model, dev_state = state_of st, dev_transport = transport\<rparr>)
      | _ \<Rightarrow> None)"

definition device_header :: string where "device_header = ''List of devices attached''"

definition parse_devices :: "string \<Rightarrow> ProbeError + Device list" where
  "parse_devices stdout =
     (case dropWhile (\<lambda>line. str_trim line \<noteq> device_header) (str_lines stdout) of
        [] \<Rightarrow> Inl (InvalidOutput DevicesLong ''device-list header is missing'')
      | _ # rest \<Rightarrow> Inr (List.map_filter parse_device_line rest))"

text \<open>One line of \<open>parse_mdns\<close>'s loop over (pairing, connect, malformed).\<close>

definition mdns_line :: "string \<Rightarrow> bool \<times> bool \<times> nat \<Rightarrow> bool \<times> bool \<times> nat" where
  "mdns_line line acc =
     (case acc of (pairing, connect, malformed) \<Rightarrow>
        if line = ''List of discovered mdns services'' then (pairing, connect, malformed)
        else case str_split_ws line of
          _ # service # _ # _ \<Rightarrow>
            (let s = trim_end_matches CHR ''.'' service in
             if s = ''_adb-tls-pairing._tcp'' then (True, connect, malformed)
             else if s = ''_adb-tls-connect._tcp'' then (pairing, True, malformed)
             else (pairing, connect, Suc malformed))
        | _ \<Rightarrow> (pairing, connect, Suc malformed))"

definition parse_mdns :: "string \<Rightarrow> MdnsReport" where
  "parse_mdns stdout =
     (let (pairing, connect, malformed) =
        fold mdns_line (filter (\<lambda>l. l \<noteq> []) (map str_trim (str_lines stdout))) (False, False, 0)
      in \<lparr>availability = Available, pairing_service_advertised = pairing,
          connect_service_advertised = connect, malformed_lines = malformed\<rparr>)"

section \<open>The probe\<close>

definition command_failure :: "AdbCommand \<Rightarrow> CommandOutput \<Rightarrow> ProbeError" where
  "command_failure command out = CommandFailed command (co_status out) (co_stderr out)"

definition mdns_is_unsupported :: "CommandOutput \<Rightarrow> bool" where
  "mdns_is_unsupported out =
     (let message = to_ascii_lowercase (co_stdout out @ [CHR 0x0A] @ co_stderr out)
      in str_contains ''unknown command'' message \<or> str_contains ''not supported'' message)"

text \<open>
  \<open>runner.run(command)\<close> followed by the status check and the parser of its output. The runner
  is an argument, as it is a trait object in the source.
\<close>

type_synonym 'w runner = "'w \<Rightarrow> AdbCommand \<Rightarrow> ('w \<times> (ExecutionError + CommandOutput)) option"

definition run_mdns :: "CommandOutput \<Rightarrow> ProbeError + MdnsReport" where
  "run_mdns out =
     (if co_status out = 0 then Inr (parse_mdns (co_stdout out))
      else if mdns_is_unsupported out
      then Inr \<lparr>availability = Unsupported, pairing_service_advertised = False,
                connect_service_advertised = False, malformed_lines = 0\<rparr>
      else Inl (command_failure MdnsServices out))"

definition run_checked :: "AdbCommand \<Rightarrow> (string \<Rightarrow> ProbeError + 'a) \<Rightarrow> CommandOutput \<Rightarrow> ProbeError + 'a" where
  "run_checked command parse out =
     (if co_status out \<noteq> 0 then Inl (command_failure command out) else parse (co_stdout out))"

definition probe_step :: "'w runner \<Rightarrow> AdbCommand \<Rightarrow> (CommandOutput \<Rightarrow> ProbeError + 'a) \<Rightarrow> 'w \<Rightarrow>
    ('w \<times> (ProbeError + 'a)) option" where
  "probe_step run command use w =
     (case run w command of
        None \<Rightarrow> None
      | Some (w, Inl e) \<Rightarrow> Some (w, Inl (Execution e))
      | Some (w, Inr out) \<Rightarrow> Some (w, use out))"

definition run_probe :: "'w runner \<Rightarrow> 'w \<Rightarrow> ('w \<times> (ProbeError + ProbeReport)) option" where
  "run_probe run w =
     (case probe_step run Version (run_checked Version parse_version) w of
        None \<Rightarrow> None
      | Some (w, Inl e) \<Rightarrow> Some (w, Inl e)
      | Some (w, Inr version) \<Rightarrow>
     (case probe_step run DevicesLong (run_checked DevicesLong parse_devices) w of
        None \<Rightarrow> None
      | Some (w, Inl e) \<Rightarrow> Some (w, Inl e)
      | Some (w, Inr ds) \<Rightarrow>
     (case probe_step run MdnsServices run_mdns w of
        None \<Rightarrow> None
      | Some (w, Inl e) \<Rightarrow> Some (w, Inl e)
      | Some (w, Inr m) \<Rightarrow>
          Some (w, Inr \<lparr>pr_adb_version = version, pr_devices = ds, pr_mdns = m,
            wireless_connected = (\<exists>d \<in> set ds. dev_transport d = Tcp \<and> dev_state d = Device),
            paired_with_this_host = PairingUnknown\<rparr>))))"

section \<open>JSON report and command line\<close>

definition hex_digit :: "nat \<Rightarrow> char" where
  "hex_digit n = (if n < 10 then char_of (48 + n) else char_of (87 + n))"

text \<open>
  Characters above the control range are copied byte by byte, which copies them whole.
\<close>

definition escape_char :: "char \<Rightarrow> string" where
  "escape_char c =
     (if c = CHR 0x22 then [CHR 0x5C, CHR 0x22]
      else if c = CHR 0x5C then [CHR 0x5C, CHR 0x5C]
      else if c = CHR 0x0A then [CHR 0x5C, CHR ''n'']
      else if c = CHR 0x0D then [CHR 0x5C, CHR ''r'']
      else if c = CHR 0x09 then [CHR 0x5C, CHR ''t'']
      else if c = CHR 0x08 then [CHR 0x5C, CHR ''b'']
      else if c = CHR 0x0C then [CHR 0x5C, CHR ''f'']
      else if code c \<le> 0x1F
      then [CHR 0x5C, CHR ''u'', CHR ''0'', CHR ''0'', hex_digit (code c div 16), hex_digit (code c mod 16)]
      else [c])"

definition json_escape :: "string \<Rightarrow> string" where
  "json_escape value = concat (map escape_char value)"

fun device_state_text :: "DeviceState \<Rightarrow> string" where
  "device_state_text Device = ''device''"
| "device_state_text Offline = ''offline''"
| "device_state_text Unauthorized = ''unauthorized''"
| "device_state_text (Other v) = v"

fun transport_text :: "Transport \<Rightarrow> string" where
  "transport_text Usb = ''usb''"
| "transport_text Tcp = ''tcp''"
| "transport_text Emulator = ''emulator''"
| "transport_text TransportUnknown = ''unknown''"

definition show_bool :: "bool \<Rightarrow> string" where
  "show_bool b = (if b then ''true'' else ''false'')"

definition report_json :: "ProbeReport \<Rightarrow> string" where
  "report_json r =
     (let q = [CHR 0x22];
          ds = str_join '','' (map (\<lambda>d.
             ''{'' @ q @ ''serial'' @ q @ '':'' @ q @ json_escape (dev_serial d) @ q @ '','' @
             q @ ''state'' @ q @ '':'' @ q @ json_escape (device_state_text (dev_state d)) @ q @ '','' @
             q @ ''transport'' @ q @ '':'' @ q @ transport_text (dev_transport d) @ q @ ''}'') (pr_devices r));
          av = (case availability (pr_mdns r) of Available \<Rightarrow> ''available'' | Unsupported \<Rightarrow> ''unsupported'')
      in ''{'' @ q @ ''adb_version'' @ q @ '':'' @ q @ json_escape (pr_adb_version r) @ q @ '','' @
         q @ ''devices'' @ q @ '':['' @ ds @ ''],'' @
         q @ ''mdns'' @ q @ '':{'' @ q @ ''availability'' @ q @ '':'' @ q @ av @ q @ '','' @
         q @ ''pairing_service_advertised'' @ q @ '':'' @ show_bool (pairing_service_advertised (pr_mdns r)) @ '','' @
         q @ ''connect_service_advertised'' @ q @ '':'' @ show_bool (connect_service_advertised (pr_mdns r)) @ '','' @
         q @ ''malformed_lines'' @ q @ '':'' @ show_nat (malformed_lines (pr_mdns r)) @ ''},'' @
         q @ ''wireless_connected'' @ q @ '':'' @ show_bool (wireless_connected r) @ '','' @
         q @ ''paired_with_this_host'' @ q @ '':'' @ q @ ''unknown'' @ q @ ''}'')"

definition exit_code_for :: "ProbeError + ProbeReport \<Rightarrow> int" where
  "exit_code_for result = (if isOk result then 0 else 1)"

definition cli_args_are_valid :: "string list \<Rightarrow> bool" where
  "cli_args_are_valid xs =
     (case xs of [] \<Rightarrow> True | [flag, v] \<Rightarrow> flag = ''--format'' \<and> v = ''json'' | _ \<Rightarrow> False)"

text \<open>\<open>main\<close>: the exit code and what goes to standard output and standard error.\<close>

definition probe_main :: "string list \<Rightarrow> host \<Rightarrow> (host \<times> int \<times> string \<times> string) option" where
  "probe_main argv h =
     (if \<not> cli_args_are_valid argv
      then Some (h, 64, [], ''usage: quadcontrol-adb-probe [--format json]'' @ [CHR 0x0A])
      else case run_probe (system_run (system_runner_new ''adb'')) h of
        None \<Rightarrow> None
      | Some (h, result) \<Rightarrow>
          Some (h, exit_code_for result,
            (case result of Inr report \<Rightarrow> report_json report @ [CHR 0x0A] | Inl _ \<Rightarrow> []),
            (case result of Inr _ \<Rightarrow> [] | Inl e \<Rightarrow> ''adb probe failed: '' @ probe_error_text e @ [CHR 0x0A])))"

section \<open>The runner interface\<close>

text \<open>
  What the probe relies on: a runner that returns has run exactly the command it was given.
  The probe, whatever the runner answers, then runs the three read-only commands in order and
  stops at the first failure.
\<close>

locale command_runner =
  fixes run :: "'w runner"
    and calls :: "'w \<Rightarrow> string list list"
  assumes run_calls: "run w command = Some (w', r) \<Longrightarrow> calls w' = calls w @ [command_args command]"
begin

lemma probe_step_calls:
  "probe_step run command use w = Some (w', r) \<Longrightarrow> calls w' = calls w @ [command_args command]"
  by (auto simp: probe_step_def dest: run_calls split: option.splits prod.splits sum.splits)

lemma run_probe_calls:
  assumes "run_probe run w = Some (w', r)"
  shows "\<exists>n. calls w' = calls w @ take n [command_args Version, command_args DevicesLong, command_args MdnsServices] \<and>
             1 \<le> n \<and> n \<le> 3 \<and> (isOk r \<longrightarrow> n = 3)"
proof -
  let ?cmds = "[command_args Version, command_args DevicesLong, command_args MdnsServices]"
  obtain w1 r1 where s1: "probe_step run Version (run_checked Version parse_version) w = Some (w1, r1)"
    using assms by (auto simp: run_probe_def split: option.splits)
  note c1 = probe_step_calls [OF s1]
  show ?thesis
  proof (cases r1)
    case (Inl e)
    with assms s1 c1 have "calls w' = calls w @ take 1 ?cmds \<and> \<not> isOk r" by (auto simp: run_probe_def)
    then show ?thesis by (intro exI [of _ 1]) auto
  next
    case (Inr v)
    obtain w2 r2 where s2: "probe_step run DevicesLong (run_checked DevicesLong parse_devices) w1 = Some (w2, r2)"
      using assms s1 Inr by (auto simp: run_probe_def split: option.splits)
    note c2 = probe_step_calls [OF s2]
    show ?thesis
    proof (cases r2)
      case (Inl e)
      with assms s1 s2 c1 c2 Inr have "calls w' = calls w @ take 2 ?cmds \<and> \<not> isOk r"
        by (auto simp: run_probe_def)
      then show ?thesis by (intro exI [of _ 2]) auto
    next
      case (Inr ds)
      obtain r3 where s3: "probe_step run MdnsServices run_mdns w2 = Some (w', r3)"
        using assms s1 s2 Inr \<open>r1 = Inr v\<close> by (auto simp: run_probe_def split: option.splits sum.splits)
      from probe_step_calls [OF s3] c1 c2 have "calls w' = calls w @ take 3 ?cmds" by simp
      then show ?thesis by (intro exI [of _ 3]) auto
    qed
  qed
qed

end

lemma system_run_calls:
  "system_run r h command = Some (h', res) \<Longrightarrow> issued h' = issued h @ [(adb_path r, [], command_args command)]"
  by (auto simp: system_run_def Let_def dest!: os_spawn_eq split: prod.splits sum.splits option.splits)

interpretation system_runner: command_runner "system_run r" "\<lambda>h. map (snd \<circ> snd) (issued h)" for r
  by unfold_locales (auto simp: system_run_calls)

section \<open>The polling loop returns\<close>

lemma join_pipe_exited:
  "exit_at p = Some (e, k) \<Longrightarrow> e \<le> now c \<Longrightarrow> pipe_eof p = Some d \<Longrightarrow> now c \<le> T \<Longrightarrow> e + d \<le> T \<Longrightarrow>
   \<exists>c'. join_pipe chunks c p = Some c' \<and> lag c' = lag c \<and> now c \<le> now c' \<and> now c' \<le> T"
  by (auto simp: join_pipe_def os_join_reader_def)

lemma join_pipes_exited:
  assumes "exited_by (now c) p" "pipe_eof p = Some d"
  obtains c1 c2 where "join_pipe ch1 c p = Some c1" "join_pipe ch2 c1 p = Some c2"
    "lag c2 = lag c" "now c \<le> now c1" "now c1 \<le> now c + d" "now c \<le> now c2" "now c2 \<le> now c + d"
proof -
  from assms(1) obtain e k where e: "exit_at p = Some (e, k)" "e \<le> now c"
    by (auto simp: exited_by_def split: option.splits)
  from join_pipe_exited [OF e assms(2), of "now c + d" ch1] e(2) obtain c1 where
    c1: "join_pipe ch1 c p = Some c1" "lag c1 = lag c" "now c \<le> now c1" "now c1 \<le> now c + d" by auto
  from join_pipe_exited [OF e(1) _ assms(2), of c1 "now c + d" ch2] e(2) c1 obtain c2 where
    "join_pipe ch2 c1 p = Some c2" "lag c2 = lag c1" "now c1 \<le> now c2" "now c2 \<le> now c + d" by auto
  with c1 show thesis by (intro that [of c1 c2]) auto
qed

lemma give_up_returns:
  assumes "kill_err p = None" "pipe_eof p = Some d"
  obtains c' p' where "give_up c p = Some (c', p')" "lag c' = lag c" "now c \<le> now c'" "now c' \<le> now c + d"
proof -
  let ?p = "os_kill_group SIGKILL (now c) p"
  obtain c1 p1 r where w: "os_wait c ?p = Some (c1, p1, r)"
    using wait_after_kill_returns [OF SIGKILL_exits, of c p] by blast
  from wait_after_kill [OF SIGKILL_exits w] have "c1 = c" by simp
  have "exit_at p1 = exit_at ?p" "pipe_eof p1 = Some d"
    using w assms(2) by (auto simp: os_wait_def split: option.splits)
  then have "exited_by (now c) p1" "pipe_eof p1 = Some d"
    using SIGKILL_exits [of "now c" p] by (simp_all add: exited_by_def)
  then obtain c2 c3 where "join_pipe (out_chunks p1) c p1 = Some c2" "join_pipe (err_chunks p1) c2 p1 = Some c3"
    "lag c3 = lag c" "now c \<le> now c3" "now c3 \<le> now c + d"
    using join_pipes_exited [of c p1 d] by metis
  then show thesis using that w assms(1) \<open>c1 = c\<close> by (simp add: give_up_def os_kill_def)
qed

lemma run_loop_returns:
  assumes "kill_err p = None" "pipe_eof p = Some d" "\<forall>t. lag c t \<le> J"
  shows "\<exists>c' p' r. run_loop started timeout command c p = Some (c', p', r) \<and> lag c' = lag c \<and>
           now c' \<le> max (now c) (started + timeout + 10 + J) + d \<and>
           (isOk r \<longrightarrow> exited_by (now c') p' \<and> pipe_eof p' = Some d \<and>
              now c' \<le> max (now c) (started + timeout + 10 + J))"
  using assms
proof (induction started timeout command c p rule: run_loop.induct)
  case (1 started timeout command c p)
  obtain p1 r where tw: "os_try_wait c p = (p1, r)" by (cases "os_try_wait c p")
  have p1: "kill_err p1 = None" "pipe_eof p1 = Some d" "exit_at p1 = exit_at p"
    using tw "1.prems" by (metis fst_conv os_try_wait_frame(2,7,8))+
  obtain cg pg where g: "give_up c p1 = Some (cg, pg)" "lag cg = lag c" "now c \<le> now cg" "now cg \<le> now c + d"
    by (rule give_up_returns [OF p1(1,2)])
  consider (exit) k where "r = Inr (Some k)" | (err) e where "r = Inl e"
    | (late) "r = Inr None" "timeout \<le> elapsed started c"
    | (again) "r = Inr None" "\<not> timeout \<le> elapsed started c"
    by (cases r rule: wait_result_cases; cases "timeout \<le> elapsed started c")
  then show ?case
  proof cases
    case exit
    then have "exited_by (now c) p" using saw_exit_try_wait [of c p] tw by (simp add: saw_exit_def)
    with exit tw p1 show ?thesis by (simp add: run_loop.simps [of started timeout command c p] exited_by_def)
  next
    case again
    have "run_loop started timeout command c p = run_loop started timeout command (os_sleep 10 c) p1"
      using again tw by (simp add: run_loop.simps [of started timeout command c p])
    moreover have "now (os_sleep 10 c) \<le> started + timeout + 10 + J"
      using again(2) "1.prems"(3) [rule_format, of "now c"] by (simp add: elapsed_def)
    ultimately show ?thesis
      using "1.IH" [OF tw [symmetric] again(1) refl again(2)] p1 "1.prems"(3) by fastforce
  qed (use tw g in \<open>auto simp: run_loop.simps [of started timeout command c p]\<close>)
qed

lemma run_loop_chunks:
  "run_loop started timeout command c p = Some (c', p', Inr status) \<Longrightarrow>
   out_chunks p' = out_chunks p \<and> err_chunks p' = err_chunks p"
proof (induction started timeout command c p rule: run_loop.induct)
  case (1 started timeout command c p)
  obtain p1 r1 where tw: "os_try_wait c p = (p1, r1)" by (cases "os_try_wait c p")
  have p1: "out_chunks p1 = out_chunks p" "err_chunks p1 = err_chunks p"
    using tw by (auto simp: os_try_wait_def split: option.splits if_splits)
  show ?case
  proof (cases "r1 = Inr None \<and> \<not> timeout \<le> elapsed started c")
    case True
    then have "run_loop started timeout command (os_sleep 10 c) p1 = Some (c', p', Inr status)"
      using tw "1.prems" by (simp add: run_loop.simps [of started timeout command c p])
    with "1.IH" [OF tw [symmetric]] True p1 show ?thesis by auto
  next
    case False
    with tw p1 "1.prems" show ?thesis
      by (auto simp: run_loop.simps [of started timeout command c p] split: sum.splits option.splits if_splits)
  qed
qed

lemma os_wait_frame:
  "os_wait c p = Some (c', p', r) \<Longrightarrow> pipe_eof p' = pipe_eof p \<and> out_chunks p' = out_chunks p"
  by (auto simp: os_wait_def split: option.splits)

lemma join_pipe_stuck: "pipe_eof p = None \<Longrightarrow> isOk (pipe_bytes chunks) \<Longrightarrow> join_pipe chunks c p = None"
  by (simp add: join_pipe_def os_join_reader_def split: option.split)

lemma give_up_stuck:
  assumes "pipe_eof p = None" "isOk (pipe_bytes (out_chunks p))"
  shows "give_up c p = None"
proof -
  obtain q k where q: "os_kill (now c) p = (q, k)" by (cases "os_kill (now c) p")
  then have "pipe_eof q = None" "isOk (pipe_bytes (out_chunks q))"
    using assms by (auto simp: os_kill_def os_kill_group_def split: option.splits)
  then have "join_pipe (out_chunks q') c' q' = None" if "os_wait c q = Some (c', q', r)" for c' q' r
    using os_wait_frame [OF that] by (simp add: join_pipe_stuck)
  with q show ?thesis by (auto simp: give_up_def split: option.split)
qed

lemma run_loop_never_gives_up:
  "pipe_eof p = None \<Longrightarrow> isOk (pipe_bytes (out_chunks p)) \<Longrightarrow>
   run_loop started timeout command c p = Some (c', p', r) \<Longrightarrow> isOk r \<and> pipe_eof p' = None"
proof (induction started timeout command c p rule: run_loop.induct)
  case (1 started timeout command c p)
  obtain p1 r1 where tw: "os_try_wait c p = (p1, r1)" by (cases "os_try_wait c p")
  have p1: "pipe_eof p1 = None" "isOk (pipe_bytes (out_chunks p1))"
    using tw "1.prems"(1,2) by (auto simp: os_try_wait_def split: option.splits if_splits)
  note g = give_up_stuck [OF p1, of c]
  show ?case
  proof (cases "r1 = Inr None \<and> \<not> timeout \<le> elapsed started c")
    case True
    then have "run_loop started timeout command (os_sleep 10 c) p1 = Some (c', p', r)"
      using tw "1.prems"(3) by (simp add: run_loop.simps [of started timeout command c p])
    with "1.IH" [OF tw [symmetric]] True p1 show ?thesis by auto
  next
    case False
    with tw g p1 "1.prems"(3) show ?thesis
      by (auto simp: run_loop.simps [of started timeout command c p] split: sum.splits option.splits if_splits)
  qed
qed

section \<open>Properties of the bounded execution\<close>

text \<open>A host for the concrete instances: every launch gives the same child.\<close>

definition host0 :: "proc \<Rightarrow> host" where
  "host0 p = \<lparr>clk = \<lparr>now = 0, lag = (\<lambda>_. 0), polls = 0\<rparr>, issued = [], launch = (\<lambda>_ _ _ _. Inr p)\<rparr>"

definition quiet_child :: "string \<Rightarrow> proc" where
  "quiet_child s = stubborn\<lparr>exit_at := Some (0, Some 0), pipe_eof := Some 0, out_chunks := [Inr s]\<rparr>"

text \<open>
  C20. \<open>SystemRunner::run\<close> returns, within its time limit plus one poll and the time the pipes
  stay open after the exit, whatever \<open>adb\<close> does: exit, hang, flood its pipes, or not start.
  It relies on \<open>kill\<close> not failing, and on the pipes reaching end of file some bounded time
  \<open>d\<close> after the exit.
\<close>

theorem system_run_returns:
  assumes "\<forall>n path env argv q. launch h n path env argv = Inr q \<longrightarrow> kill_err q = None \<and> pipe_eof q = Some d"
    and "\<forall>t. lag (clk h) t \<le> J"
  shows "\<exists>h' res. system_run r h command = Some (h', res) \<and>
           now (clk h') \<le> now (clk h) + sr_timeout r + 10 + J + d"
proof -
  obtain h1 child where sp: "os_spawn (adb_path r) (command_args command) h = (h1, child)"
    by (cases "os_spawn (adb_path r) (command_args command) h")
  from os_spawn_eq [OF sp] have h1: "clk h1 = clk h" by simp
  show ?thesis
  proof (cases child)
    case (Inl e)
    with sp h1 show ?thesis by (simp add: system_run_def)
  next
    case (Inr p)
    with sp assms(1) have p: "kill_err p = None" "pipe_eof p = Some d"
      by (auto dest!: os_spawn_child)
    from run_loop_returns [OF p assms(2), of "now (clk h)" "sr_timeout r" command] obtain c' p' res where
      l: "run_loop (now (clk h)) (sr_timeout r) command (clk h) p = Some (c', p', res)"
        "now c' \<le> now (clk h) + sr_timeout r + 10 + J + d"
        "isOk res \<longrightarrow> exited_by (now c') p' \<and> pipe_eof p' = Some d \<and> now c' \<le> now (clk h) + sr_timeout r + 10 + J"
      by (auto simp: max_def)
    show ?thesis
    proof (cases res)
      case (Inl e)
      with sp h1 \<open>child = Inr p\<close> l show ?thesis by (simp add: system_run_def)
    next
      case (Inr st)
      with l obtain c2 c3 where j: "join_pipe (out_chunks p') c' p' = Some c2" "join_pipe (err_chunks p') c2 p' = Some c3"
        "now c2 \<le> now c' + d" "now c3 \<le> now c' + d"
        using join_pipes_exited [of c' p' d] by (metis isOk.simps(2))
      with l Inr have b: "now c2 \<le> now (clk h) + sr_timeout r + 10 + J + d" "now c3 \<le> now (clk h) + sr_timeout r + 10 + J + d"
        by auto
      from sp h1 \<open>child = Inr p\<close> l Inr j b show ?thesis
        by (cases "join_capture (read_limited (out_chunks p') (output_limit r)) ''stdout''";
            cases "join_capture (read_limited (err_chunks p') (output_limit r)) ''stderr''")
           (auto simp: system_run_def)
    qed
  qed
qed

theorem system_run_returns_witness:
  "\<exists>h' res. system_run (system_runner_new ''adb'') (host0 (stubborn\<lparr>pipe_eof := Some 3\<rparr>)) Version = Some (h', res) \<and>
     now (clk h') \<le> now (clk (host0 (stubborn\<lparr>pipe_eof := Some 3\<rparr>))) + sr_timeout (system_runner_new ''adb'') + 10 + 0 + 3"
  by (rule system_run_returns) (auto simp: host0_def stubborn_def)

text \<open>
  The time limit does not cover the reader threads: when the child leaves its pipes open
  behind it (a daemon it started inherited them), \<open>run\<close> never returns, whatever the limit,
  whether the child exits in time or is killed.
\<close>

theorem system_run_waits_for_pipes:
  assumes "launch h (length (issued h)) (adb_path r) [] (command_args command) = Inr q" and "pipe_eof q = None"
    and "isOk (pipe_bytes (out_chunks q))"
  shows "system_run r h command = None"
proof -
  obtain h1 p where sp: "os_spawn (adb_path r) (command_args command) h = (h1, Inr p)"
    and p: "pipe_eof p = None" "isOk (pipe_bytes (out_chunks p))"
    using assms by (simp add: os_spawn_env_def)
  show ?thesis
  proof (cases "run_loop (now (clk h1)) (sr_timeout r) command (clk h1) p")
    case None
    with sp show ?thesis by (simp add: system_run_def)
  next
    case (Some x)
    obtain c' p' res where x: "x = (c', p', res)" by (cases x)
    from run_loop_never_gives_up [OF p Some [unfolded x]] obtain st where "res = Inr st" "pipe_eof p' = None"
      by (cases res) auto
    with sp Some x p(2) run_loop_chunks [OF Some [unfolded x \<open>res = Inr st\<close>]] show ?thesis
      by (simp add: system_run_def join_pipe_def os_join_reader_def split: option.split)
  qed
qed

theorem system_run_waits_for_pipes_witness:
  "system_run (system_runner_new ''adb'') (host0 (stubborn\<lparr>exit_at := Some (5, Some 0), pipe_eof := None\<rparr>)) Version = None"
  by (rule system_run_waits_for_pipes [where q = "stubborn\<lparr>exit_at := Some (5, Some 0), pipe_eof := None\<rparr>"])
     (auto simp: host0_def stubborn_def)

text \<open>
  A successful result carries everything the child wrote: both streams fit in the limit
  and nothing of them was dropped. Output over the limit is an error, never a cut text.
\<close>

theorem system_run_output_is_whole:
  assumes "system_run r h command = Some (h', Inr out)"
  shows "\<exists>q sout serr. launch h (length (issued h)) (adb_path r) [] (command_args command) = Inr q \<and>
           pipe_bytes (out_chunks q) = Inr sout \<and> pipe_bytes (err_chunks q) = Inr serr \<and>
           length sout \<le> output_limit r \<and> length serr \<le> output_limit r \<and>
           co_stdout out = from_utf8_lossy sout \<and> co_stderr out = from_utf8_lossy serr"
proof -
  obtain h1 p c1 p1 status b1 b2 where sp: "os_spawn (adb_path r) (command_args command) h = (h1, Inr p)"
    and l: "run_loop (now (clk h1)) (sr_timeout r) command (clk h1) p = Some (c1, p1, Inr status)"
    and o: "read_limited (out_chunks p1) (output_limit r) = Inr (b1, False)"
      "read_limited (err_chunks p1) (output_limit r) = Inr (b2, False)"
      "co_stdout out = from_utf8_lossy b1" "co_stderr out = from_utf8_lossy b2"
    using assms
    by (auto simp: system_run_def join_capture_def split: prod.splits sum.splits option.splits if_splits)
  from os_spawn_child [OF sp] obtain q where
    q: "launch h (length (issued h)) (adb_path r) [] (command_args command) = Inr q"
      "out_chunks p = out_chunks q" "err_chunks p = err_chunks q" by auto
  have whole: "\<exists>s. pipe_bytes rs = Inr s \<and> length s \<le> lim \<and> b = s"
    if "read_limited rs lim = Inr (b, False)" for rs lim b
    using that capture_loop_ok [of "[]" lim rs _ False] capture_loop_err [of rs _ lim "[]" False]
    by (cases "pipe_bytes rs") (auto simp: read_limited_def)
  with o whole q run_loop_chunks [OF l] show ?thesis by metis
qed

theorem system_run_output_is_whole_witness:
  "\<exists>q sout serr. launch (host0 (quiet_child ''ok'')) (length (issued (host0 (quiet_child ''ok''))))
       (adb_path (system_runner_new ''adb'')) [] (command_args Version) = Inr q \<and>
     pipe_bytes (out_chunks q) = Inr sout \<and> pipe_bytes (err_chunks q) = Inr serr \<and>
     length sout \<le> output_limit (system_runner_new ''adb'') \<and> length serr \<le> output_limit (system_runner_new ''adb'') \<and>
     co_stdout \<lparr>co_status = 0, co_stdout = ''ok'', co_stderr = ''''\<rparr> = from_utf8_lossy sout \<and>
     co_stderr \<lparr>co_status = 0, co_stdout = ''ok'', co_stderr = ''''\<rparr> = from_utf8_lossy serr"
proof (rule system_run_output_is_whole)
  show "system_run (system_runner_new ''adb'') (host0 (quiet_child ''ok'')) Version =
    Some ((host0 (quiet_child ''ok''))\<lparr>issued := [(''adb'', [], [''version''])]\<rparr>,
      Inr \<lparr>co_status = 0, co_stdout = ''ok'', co_stderr = ''''\<rparr>)"
    by (simp add: system_run_def os_spawn_env_def host0_def quiet_child_def stubborn_def system_runner_new_def
        run_loop.simps os_try_wait_def join_pipe_def os_join_reader_def join_capture_def read_limited_def
        OUTPUT_LIMIT_def code_or_def from_utf8_lossy_ascii ascii_def del: from_utf8_lossy.simps)
qed

section \<open>Properties of the probe and its formats\<close>

text \<open>
  C36. Run on the system, the probe launches nothing but the three fixed, read-only \<open>adb\<close>
  command lines, in order, each at most once, and reports success only after all three.
\<close>

theorem run_probe_is_read_only:
  assumes "run_probe (system_run r) h = Some (h', res)"
  shows "\<exists>n. map (snd \<circ> snd) (issued h') = map (snd \<circ> snd) (issued h) @
               take n [[''version''], [''devices'', ''-l''], [''mdns'', ''services'']] \<and>
             1 \<le> n \<and> n \<le> 3 \<and> (isOk res \<longrightarrow> n = 3)"
  using system_runner.run_probe_calls [OF assms] by simp

theorem run_probe_is_read_only_witness:
  "\<exists>n. map (snd \<circ> snd) (issued ((host0 (quiet_child ''ok''))\<lparr>issued := [(''adb'', [], [''version''])]\<rparr>)) =
         map (snd \<circ> snd) (issued (host0 (quiet_child ''ok''))) @ take n [[''version''], [''devices'', ''-l''], [''mdns'', ''services'']] \<and>
       1 \<le> n \<and> n \<le> 3 \<and> (isOk (Inl (InvalidOutput Version ''version line is missing'') :: ProbeError + ProbeReport) \<longrightarrow> n = 3)"
proof (rule run_probe_is_read_only)
  show "run_probe (system_run (system_runner_new ''adb'')) (host0 (quiet_child ''ok'')) =
    Some ((host0 (quiet_child ''ok''))\<lparr>issued := [(''adb'', [], [''version''])]\<rparr>,
      Inl (InvalidOutput Version ''version line is missing''))"
    by (simp add: run_probe_def probe_step_def run_checked_def parse_version_def str_lines_def strip_prefix_def
        system_run_def os_spawn_env_def host0_def quiet_child_def stubborn_def system_runner_new_def
        run_loop.simps os_try_wait_def join_pipe_def os_join_reader_def join_capture_def read_limited_def
        OUTPUT_LIMIT_def code_or_def from_utf8_lossy_ascii ascii_def del: from_utf8_lossy.simps)
qed

text \<open>
  A reader of JSON string literals (RFC 8259): the text after the opening quote gives the
  value and what follows the closing quote. Raw control characters are refused.
\<close>

definition hex_val :: "char \<Rightarrow> nat option" where
  "hex_val c =
     (if 48 \<le> code c \<and> code c \<le> 57 then Some (code c - 48)
      else if 97 \<le> code c \<and> code c \<le> 102 then Some (code c - 87) else None)"

definition short_escape :: "char \<Rightarrow> char option" where
  "short_escape e =
     map_of [(CHR 0x22, CHR 0x22), (CHR 0x5C, CHR 0x5C), (CHR ''/'', CHR ''/''), (CHR ''n'', CHR 0x0A),
       (CHR ''r'', CHR 0x0D), (CHR ''t'', CHR 0x09), (CHR ''b'', CHR 0x08), (CHR ''f'', CHR 0x0C)] e"

fun read_char :: "string \<Rightarrow> (char \<times> string) option" where
  "read_char [] = None"
| "read_char (c # s) =
     (if code c \<le> 0x1F then None
      else if c \<noteq> CHR 0x5C then Some (c, s)
      else case s of
          e # a # b # x # y # s' \<Rightarrow>
            (if e = CHR ''u''
             then (case (hex_val a, hex_val b, hex_val x, hex_val y) of
                     (Some 0, Some 0, Some h, Some l) \<Rightarrow>
                       if 16 * h + l < 128 then Some (char_of (16 * h + l), s') else None
                   | _ \<Rightarrow> None)
             else map_option (\<lambda>v. (v, a # b # x # y # s')) (short_escape e))
        | e # s' \<Rightarrow> map_option (\<lambda>v. (v, s')) (short_escape e)
        | [] \<Rightarrow> None)"

function read_json_string :: "string \<Rightarrow> (string \<times> string) option" where
  "read_json_string s =
     (if s \<noteq> [] \<and> hd s = CHR 0x22 then Some ([], tl s)
      else case read_char s of
          Some (c, s') \<Rightarrow>
            if length s' < length s
            then map_option (\<lambda>(v, rest). (c # v, rest)) (read_json_string s') else None
        | None \<Rightarrow> None)"
  by pat_completeness auto
termination by (relation "measure length") auto

declare read_json_string.simps [simp del]

lemma hex_val_digit: "n < 16 \<Longrightarrow> hex_val (hex_digit n) = Some n"
  by (simp add: hex_val_def hex_digit_def code_def)

lemma code_inj: "code c = code d \<longleftrightarrow> c = d"
  by (simp add: code_def)

lemma char_of_code: "char_of (code c) = c"
  by (simp add: code_def)

lemma read_escaped: "read_char (escape_char c @ s) = Some (c, s)" and escape_not_quote: "hd (escape_char c) \<noteq> CHR 0x22"
  and escape_ne: "escape_char c \<noteq> []"
proof -
  show "hd (escape_char c) \<noteq> CHR 0x22" "escape_char c \<noteq> []" by (simp_all add: escape_char_def)
  show "read_char (escape_char c @ s) = Some (c, s)"
  proof (cases "c \<in> {CHR 0x22, CHR 0x5C, CHR 0x0A, CHR 0x0D, CHR 0x09, CHR 0x08, CHR 0x0C}")
    case True
    then show ?thesis
      by (auto simp: escape_char_def short_escape_def code_def split: list.split)
  next
    case False
    show ?thesis
    proof (cases "code c \<le> 0x1F")
      case True
      then have "hex_val (hex_digit (code c div 16)) = Some (code c div 16)"
        "hex_val (hex_digit (code c mod 16)) = Some (code c mod 16)" "code c < 128"
        by (simp_all add: hex_val_digit)
      moreover have "hex_val CHR ''0'' = Some 0" "\<not> code CHR 0x5C \<le> 0x1F" by (simp_all add: hex_val_def code_def)
      moreover have "escape_char c = [CHR 0x5C, CHR ''u'', CHR ''0'', CHR ''0'', hex_digit (code c div 16), hex_digit (code c mod 16)]"
        using True False by (simp add: escape_char_def)
      ultimately show ?thesis by (simp add: char_of_code)
    next
      case high: False
      with False show ?thesis by (simp add: escape_char_def)
    qed
  qed
qed

text \<open>
  Every string survives the JSON report: what \<open>json_escape\<close> writes between quotes is one
  well-formed JSON string literal, read back as the same string, and the rest of the report is
  read from right after its closing quote (no value can break out of its literal).
\<close>

theorem json_escape_reads_back:
  "read_json_string (json_escape s @ CHR 0x22 # rest) = Some (s, rest)"
proof (induction s)
  case Nil
  show ?case by (simp add: json_escape_def read_json_string.simps)
next
  case (Cons c s)
  have eq: "json_escape (c # s) @ CHR 0x22 # rest = escape_char c @ json_escape s @ CHR 0x22 # rest"
    by (simp add: json_escape_def)
  have "hd (escape_char c @ json_escape s @ CHR 0x22 # rest) \<noteq> CHR 0x22"
    using escape_not_quote [of c] escape_ne [of c] by simp
  moreover have "0 < length (escape_char c)" using escape_ne by simp
  ultimately show ?case unfolding eq
    using Cons.IH by (subst read_json_string.simps) (simp add: read_escaped)
qed

text \<open>The lines \<open>adb devices -l\<close> prints, for a serial, a state and the \<open>model:\<close> field.\<close>

definition row_text :: "string \<times> string \<times> string \<Rightarrow> string" where
  "row_text row = (case row of (s, st, m) \<Rightarrow> str_join '' '' [s, st, ''model:'' @ m])"

definition device_line :: "string \<times> string \<times> string \<Rightarrow> string" where
  "device_line row = row_text row @ [CHR 0x0A]"

definition device_listing :: "(string \<times> string \<times> string) list \<Rightarrow> string" where
  "device_listing rows = device_header @ [CHR 0x0A] @ concat (map device_line rows) @ [CHR 0x0A]"

definition plain_row :: "string \<times> string \<times> string \<Rightarrow> bool" where
  "plain_row row = (case row of (s, st, m) \<Rightarrow>
     plain s \<and> plain st \<and> plain m \<and> \<not> starts_with ''model:'' s \<and> \<not> starts_with ''model:'' st)"

lemma device_state_text_of: "device_state_text (state_of s) = s"
  by (simp add: state_of_def)

lemma str_split_ws_Nil: "str_split_ws [] = []"
  by (simp add: str_split_ws_def)

lemma plain_lf: "plain s \<Longrightarrow> CHR 0x0A \<notin> set s" and plain_cr: "plain s \<Longrightarrow> last s \<noteq> CHR 0x0D"
  by (metis is_ws_lf plain_def) (metis is_ws_cr last_in_set plain_def)

lemma plain_model: "plain m \<Longrightarrow> plain (''model:'' @ m)"
  by (auto simp: plain_def ascii_def is_ws_def ws_ascii_def)

lemma parse_device_listing:
  assumes "plain_row (s, st, m)"
  shows "\<exists>d. parse_device_line (row_text (s, st, m)) = Some d \<and>
    dev_serial d = s \<and> device_state_text (dev_state d) = st \<and> dev_model d = Some (str_replace ''_'' '' '' m)"
proof -
  have "str_split_ws (row_text (s, st, m)) = [s, st, ''model:'' @ m]"
    using assms plain_model unfolding row_text_def prod.case
    by (intro str_split_ws_join) (auto simp: plain_row_def)
  moreover have "strip_prefix ''model:'' s = None" "strip_prefix ''model:'' st = None" "m \<noteq> []"
    using assms by (auto simp: plain_row_def strip_prefix_def plain_def)
  moreover have "strip_prefix ''model:'' (''model:'' @ m) = Some m" by (simp only: strip_prefix_Some)
  ultimately show ?thesis
    by (simp add: parse_device_line_def Let_def device_state_text_of del: str_join.simps append.simps strip_prefix_Some)
qed

lemma row_text_line:
  assumes "plain_row row"
  shows "CHR 0x0A \<notin> set (row_text row)" and "last (row_text row) \<noteq> CHR 0x0D"
proof -
  obtain s st m where row: "row = (s, st, m)" by (cases row)
  from assms row have p: "plain s" "plain st" "plain m" by (auto simp: plain_row_def)
  then have "m \<noteq> []" by (simp add: plain_def)
  then have "last (row_text row) = last m" by (simp add: row row_text_def)
  with p show "last (row_text row) \<noteq> CHR 0x0D" using plain_cr by simp
  show "CHR 0x0A \<notin> set (row_text row)" using p plain_lf by (simp add: row row_text_def)
qed

lemma listing_lines:
  "\<forall>row \<in> set rows. plain_row row \<Longrightarrow>
   str_lines (concat (map device_line rows) @ [CHR 0x0A]) = map row_text rows @ [[]]"
proof (induction rows)
  case Nil
  show ?case using str_lines_cons [of "[]" "[]"] by simp
next
  case (Cons row rows)
  then show ?case
    using str_lines_cons [of "row_text row" "concat (map device_line rows) @ [CHR 0x0A]"] row_text_line [of row]
    by (simp add: device_line_def [of row])
qed



text \<open>The service field of a line of \<open>adb mdns services\<close>, without its final dots.\<close>

definition service_of :: "string \<Rightarrow> string option" where
  "service_of line = (case str_split_ws line of _ # service # _ # _ \<Rightarrow> Some (trim_end_matches CHR ''.'' service) | _ \<Rightarrow> None)"

definition mdns_body :: "string \<Rightarrow> string list" where
  "mdns_body s = filter (\<lambda>l. l \<noteq> [] \<and> l \<noteq> ''List of discovered mdns services'') (map str_trim (str_lines s))"

lemma fold_flags:
  assumes "\<And>l p c n. f l (p, c, n) = (if H l then (p, c, n) else if P l then (True, c, n)
             else if Q l then (p, True, n) else (p, c, Suc n))"
    and "\<And>l. \<not> (P l \<and> Q l)"
  shows "fold f ls (p, c, n) =
    (p \<or> (\<exists>l \<in> set (filter (\<lambda>l. \<not> H l) ls). P l), c \<or> (\<exists>l \<in> set (filter (\<lambda>l. \<not> H l) ls). Q l),
     n + length (filter (\<lambda>l. \<not> P l \<and> \<not> Q l) (filter (\<lambda>l. \<not> H l) ls)))"
proof (induction ls arbitrary: p c n)
  case (Cons l ls)
  from assms(2) [of l] show ?case by (simp add: assms(1) Cons.IH)
qed simp

lemma mdns_line_cases:
  "mdns_line l (p, c, n) =
    (if l = ''List of discovered mdns services'' then (p, c, n)
     else if service_of l = Some ''_adb-tls-pairing._tcp'' then (True, c, n)
     else if service_of l = Some ''_adb-tls-connect._tcp'' then (p, True, n) else (p, c, Suc n))"
  by (simp add: mdns_line_def service_of_def Let_def split: list.split)

lemma mdns_filter:
  "filter (\<lambda>l. l \<noteq> ''List of discovered mdns services'') (filter (\<lambda>l. l \<noteq> []) (map str_trim (str_lines s))) = mdns_body s"
  by (simp add: mdns_body_def conj_commute)

text \<open>
  \<open>parse_mdns\<close> reports a service as advertised exactly when some line names it, and counts
  every other line that is neither blank nor the header as malformed; it never fails.
\<close>

theorem parse_mdns_meaning:
  "(pairing_service_advertised (parse_mdns s) \<longleftrightarrow> Some ''_adb-tls-pairing._tcp'' \<in> service_of ` set (mdns_body s)) \<and>
   (connect_service_advertised (parse_mdns s) \<longleftrightarrow> Some ''_adb-tls-connect._tcp'' \<in> service_of ` set (mdns_body s)) \<and>
   malformed_lines (parse_mdns s) =
     length (filter (\<lambda>l. service_of l \<notin> {Some ''_adb-tls-pairing._tcp'', Some ''_adb-tls-connect._tcp''}) (mdns_body s)) \<and>
   availability (parse_mdns s) = Available"
proof -
  have f: "fold mdns_line (filter (\<lambda>l. l \<noteq> []) (map str_trim (str_lines s))) (False, False, 0) =
    (\<exists>l \<in> set (mdns_body s). service_of l = Some ''_adb-tls-pairing._tcp'',
     \<exists>l \<in> set (mdns_body s). service_of l = Some ''_adb-tls-connect._tcp'',
     length (filter (\<lambda>l. service_of l \<noteq> Some ''_adb-tls-pairing._tcp'' \<and>
       service_of l \<noteq> Some ''_adb-tls-connect._tcp'') (mdns_body s)))"
    by (subst fold_flags [OF mdns_line_cases]) (simp_all only: mdns_filter, auto)
  have "pairing_service_advertised (parse_mdns s) \<longleftrightarrow> Some ''_adb-tls-pairing._tcp'' \<in> service_of ` set (mdns_body s)"
    "connect_service_advertised (parse_mdns s) \<longleftrightarrow> Some ''_adb-tls-connect._tcp'' \<in> service_of ` set (mdns_body s)"
    "availability (parse_mdns s) = Available"
    by (simp_all only: parse_mdns_def f image_iff prod.case Let_def MdnsReport.select_convs) metis+
  moreover have "malformed_lines (parse_mdns s) =
     length (filter (\<lambda>l. service_of l \<notin> {Some ''_adb-tls-pairing._tcp'', Some ''_adb-tls-connect._tcp''}) (mdns_body s))"
    by (simp only: parse_mdns_def f prod.case Let_def MdnsReport.select_convs insert_iff empty_iff de_Morgan_disj simp_thms)
  ultimately show ?thesis by (intro conjI)
qed

end
