(* ===== verification/Supervision.thy ===== *)
theory Supervision
  imports ProcessLadder
begin

text \<open>
  What the Android and the iOS sessions share: the handle of a supervised session as the rest
  of the program sees it (a stop channel, a channel on which the supervising thread announces
  its end, a status snapshot), the reader thread that keeps the tail of the child's
  \<open>stderr\<close>, and the interface of the batch shutdown both crates implement.
\<close>

section \<open>Handles\<close>

text \<open>
  \<open>h_stop\<close> is the moment of the first stop request. \<open>h_done\<close> says when, given that moment,
  the supervising thread ends, and whether it then sends its message or drops the channel
  without (a panic); \<open>None\<close> when it never ends. The message is received once: \<open>h_taken\<close>.
\<close>

record 's handle =
  h_id :: nat
  h_status :: 's
  h_stop :: "nat option"
  h_done :: "nat option \<Rightarrow> (nat \<times> bool) option"
  h_taken :: bool

text \<open>\<open>stop_tx.send(Stop)\<close>, whose result is ignored.\<close>

definition send_stop :: "clock \<Rightarrow> 's handle \<Rightarrow> 's handle" where
  "send_stop c h = h\<lparr>h_stop := (case h_stop h of None \<Rightarrow> Some (now c) | Some t \<Rightarrow> Some t)\<rparr>"

text \<open>
  \<open>done_rx.recv_timeout(d).is_ok()\<close>: the message, or an error at once when the channel is
  closed and empty, or an error after \<open>d\<close>. Waking up may be late.
\<close>

definition recv_done :: "nat \<Rightarrow> clock \<Rightarrow> 's handle \<Rightarrow> clock \<times> 's handle \<times> bool" where
  "recv_done d c h =
     (if h_taken h then (c, h, False)
      else case h_done h (h_stop h) of
          None \<Rightarrow> (os_sleep d c, h, False)
        | Some (t, sent) \<Rightarrow>
            if t \<le> now c then (c, h\<lparr>h_taken := sent\<rparr>, sent)
            else if t \<le> now c + d
            then (c\<lparr>now := t + lag c (now c)\<rparr>, h\<lparr>h_taken := sent\<rparr>, sent)
            else (os_sleep d c, h, False))"

lemma recv_done_time:
  assumes "recv_done d c h = (c', h', b)" and "\<forall>t. lag c t \<le> J"
  shows "now c \<le> now c' \<and> now c' \<le> now c + d + J \<and> lag c' = lag c \<and> h_id h' = h_id h"
  using assms by (auto simp: recv_done_def add_mono split: if_splits option.splits)

lemma recv_done_ok:
  assumes "recv_done d c h = (c', h', b)" and "\<not> h_taken h" and "h_done h (h_stop h) = Some (t, True)" "t \<le> now c + d"
  shows "b"
  using assms by (auto simp: recv_done_def split: if_splits)

section \<open>Shutting down several sessions\<close>

text \<open>
  The contract of \<open>shutdown_all\<close>: every session is asked to stop before any is waited for, and
  the waits share one deadline. \<open>step\<close> is one wait; the laws are the loop of the code.
\<close>

locale batch_shutdown =
  fixes shutdown :: "'s handle list \<Rightarrow> nat \<Rightarrow> clock \<Rightarrow> clock \<times> 's handle list \<times> nat list"
    and await :: "nat \<Rightarrow> clock \<Rightarrow> 's handle list \<Rightarrow> clock \<times> 's handle list \<times> nat list"
  assumes shutdown_eq: "shutdown hs d c = await (now c + d) c (map (send_stop c) hs)"
    and await_Nil: "await at c [] = (c, [], [])"
    and await_Cons: "await at c (h # hs) =
      (case recv_done (at - now c) c h of (c, h, ok) \<Rightarrow>
       case await at c hs of (c, hs, late) \<Rightarrow> (c, h # hs, if ok then late else h_id h # late))"
begin

lemma await_time:
  "await at c hs = (c', hs', late) \<Longrightarrow> \<forall>t. lag c t \<le> J \<Longrightarrow>
   now c \<le> now c' \<and> now c' \<le> max (now c) at + length hs * J \<and> lag c' = lag c"
proof (induction hs arbitrary: c c' hs' late)
  case Nil
  then show ?case by (simp add: await_Nil)
next
  case (Cons h hs)
  obtain c1 h1 ok where r: "recv_done (at - now c) c h = (c1, h1, ok)"
    by (cases "recv_done (at - now c) c h")
  obtain c2 hs2 l2 where a: "await at c1 hs = (c2, hs2, l2)" by (cases "await at c1 hs")
  from recv_done_time [OF r Cons.prems(2)] have c1: "now c \<le> now c1" "lag c1 = lag c"
    "now c1 \<le> max (now c) at + J" by auto
  from Cons.IH [OF a] c1 Cons.prems(2) have "now c1 \<le> now c2" "lag c2 = lag c"
    "now c2 \<le> max (now c1) at + length hs * J" by auto
  moreover have "c' = c2" using Cons.prems(1) r a by (simp add: await_Cons)
  ultimately show ?case using c1 by auto
qed

lemma await_ids: "await at c hs = (c', hs', late) \<Longrightarrow> set late \<subseteq> set (map h_id hs) \<and> map h_id hs' = map h_id hs"
proof (induction hs arbitrary: c c' hs' late)
  case Nil
  then show ?case by (simp add: await_Nil)
next
  case (Cons h hs)
  obtain c1 h1 ok where r: "recv_done (at - now c) c h = (c1, h1, ok)"
    by (cases "recv_done (at - now c) c h")
  obtain c2 hs2 l2 where a: "await at c1 hs = (c2, hs2, l2)" by (cases "await at c1 hs")
  have "h_id h1 = h_id h" using r by (auto simp: recv_done_def split: if_splits option.splits)
  with Cons.IH [OF a] Cons.prems r a show ?case by (auto simp: await_Cons split: if_splits)
qed

lemma await_all_done:
  assumes "\<forall>h \<in> set hs. \<not> h_taken h \<and> (\<exists>t. h_done h (h_stop h) = Some (t, True) \<and> t \<le> at)"
    and "await at c hs = (c', hs', late)"
  shows "late = []"
  using assms
proof (induction hs arbitrary: c c' hs' late)
  case Nil
  then show ?case by (simp add: await_Nil)
next
  case (Cons h hs)
  obtain c1 h1 ok where r: "recv_done (at - now c) c h = (c1, h1, ok)"
    by (cases "recv_done (at - now c) c h")
  obtain c2 hs2 l2 where a: "await at c1 hs = (c2, hs2, l2)" by (cases "await at c1 hs")
  from Cons.prems(1) obtain t where "\<not> h_taken h" "h_done h (h_stop h) = Some (t, True)" "t \<le> at" by auto
  then have ok using recv_done_ok [OF r, of t] by (cases "at \<le> now c") auto
  with Cons.IH [OF _ a] Cons.prems r a show ?case by (auto simp: await_Cons)
qed

lemma shutdown_bounded:
  "shutdown hs d c = (c', hs', late) \<Longrightarrow> \<forall>t. lag c t \<le> J \<Longrightarrow> now c' \<le> now c + d + length hs * J"
  using await_time [of "now c + d" c "map (send_stop c) hs" c' hs' late J] by (simp add: shutdown_eq)

lemma shutdown_complete:
  assumes "\<forall>h \<in> set hs. \<not> h_taken h \<and> (\<forall>s. \<exists>t. h_done h (Some s) = Some (t, True) \<and> t \<le> s + d) \<and>
             (\<forall>s. h_stop h = Some s \<longrightarrow> s \<le> now c)"
    and "shutdown hs d c = (c', hs', late)"
  shows "late = []"
proof (rule await_all_done)
  show "await (now c + d) c (map (send_stop c) hs) = (c', hs', late)" using assms(2) by (simp add: shutdown_eq)
  show "\<forall>h \<in> set (map (send_stop c) hs). \<not> h_taken h \<and> (\<exists>t. h_done h (h_stop h) = Some (t, True) \<and> t \<le> now c + d)"
  proof
    fix g assume "g \<in> set (map (send_stop c) hs)"
    then obtain h where h: "h \<in> set hs" "g = send_stop c h" by auto
    obtain s where s: "h_stop g = Some s" "s \<le> now c"
      using assms(1) h by (cases "h_stop h") (auto simp: send_stop_def)
    from assms(1) h(1) obtain t where "h_done h (Some s) = Some (t, True)" "t \<le> s + d" by blast
    with s h assms(1) show "\<not> h_taken g \<and> (\<exists>t. h_done g (h_stop g) = Some (t, True) \<and> t \<le> now c + d)"
      by (auto simp: send_stop_def)
  qed
qed

lemma shutdown_late: "shutdown hs d c = (c', hs', late) \<Longrightarrow> set late \<subseteq> set (map h_id hs)"
  using await_ids [of "now c + d" c "map (send_stop c) hs"] by (fastforce simp: shutdown_eq send_stop_def)

end

section \<open>The reader of a child's standard error\<close>

text \<open>
  A thread drains \<open>stderr\<close> into a ring buffer and sets a flag at the end, which is end of file
  or a read error. \<open>progress\<close> says how many reads have returned by a moment, as long as the
  pipe is open.
\<close>

definition reader_ended :: "(nat \<Rightarrow> nat) \<Rightarrow> nat \<Rightarrow> proc \<Rightarrow> bool" where
  "reader_ended progress t p \<longleftrightarrow>
     (case (exit_at p, pipe_eof p) of (Some (e, _), Some d) \<Rightarrow> e + d \<le> t | _ \<Rightarrow> False) \<or>
     \<not> isOk (pipe_bytes (take (progress t) (err_chunks p)))"

definition buffered :: "(nat \<Rightarrow> nat) \<Rightarrow> nat \<Rightarrow> proc \<Rightarrow> ring_buffer" where
  "buffered progress t p =
     drain_stderr (if reader_ended progress t p then err_chunks p else take (progress t) (err_chunks p))
       (ring_new STDERR_LIMIT)"

lemma drain_stderr_prefix:
  "\<not> isOk (pipe_bytes (take n rs)) \<Longrightarrow> drain_stderr (take n rs) r = drain_stderr rs r"
proof (induction rs arbitrary: n r)
  case (Cons x rs)
  show ?case
  proof (cases n)
    case (Suc m)
    with Cons show ?thesis by (cases x) (auto split: if_splits simp: andThen_Inl_iff elim!: isOk.elims)
  qed (use Cons in simp)
qed simp

section \<open>Statuses go forward\<close>

text \<open>
  The statuses of a session are ordered by their phases. What the lists of sessions rely on is that a
  session that is over does not come back.
\<close>

locale mortal =
  fixes alive :: "'s :: preorder \<Rightarrow> bool"
  assumes dies_once: "s \<le> s' \<Longrightarrow> alive s' \<Longrightarrow> alive s"
begin

text \<open>In a store of sessions, one that goes on makes no other live.\<close>

lemma alive_before:
  assumes "h i = Some v" "status v \<le> status v'" "(h(i := Some v')) j = Some u" "alive (status u)"
  shows "\<exists>u'. h j = Some u' \<and> alive (status u')"
  using assms dies_once by (cases "j = i") auto

end

end
