(* ===== verification/ScrcpyLib.thy ===== *)
theory ScrcpyLib
  imports AdbProbe Supervision "HOL-Library.Word"
begin

text \<open>
  The crate \<open>quadcontrol-android\<close>, \<open>lib.rs\<close>: choosing a device, checking the version of
  \<open>scrcpy\<close>, filtering the options passed through to it, its command line, and the session that
  owns its process (waiting, supervising, stopping, shutting down). \<open>scrcpy\<close> and \<open>adb\<close> are
  what the \<^typ>\<open>host\<close> launches; the session uses the Unix ladder.
\<close>

section \<open>Errors and paths\<close>

datatype ScrcpyError =
    Usage string
  | Adb string
  | ScrcpyNotFound string
  | ScrcpyVersion string
  | InvalidPassthrough string
  | Process io_error
  | NotFound string
  | WrongState string

fun scrcpy_error_text :: "ScrcpyError \<Rightarrow> string" where
  "scrcpy_error_text (Usage s) = s"
| "scrcpy_error_text (Adb s) = s"
| "scrcpy_error_text (ScrcpyVersion s) = s"
| "scrcpy_error_text (InvalidPassthrough s) = s"
| "scrcpy_error_text (NotFound s) = s"
| "scrcpy_error_text (WrongState s) = s"
| "scrcpy_error_text (ScrcpyNotFound path) =
     ''scrcpy was not found at '' @ path @ ''. Install scrcpy from https://github.com/Genymobile/scrcpy/releases, then try again.''"
| "scrcpy_error_text (Process e) = ''process error: '' @ io_text e"

text \<open>The environment of the process is an argument.\<close>

definition resolve_adb :: "(string \<Rightarrow> string option) \<Rightarrow> string option \<Rightarrow> string" where
  "resolve_adb env explicit =
     (case explicit of Some p \<Rightarrow> p | None \<Rightarrow> (case env ''ADB'' of Some p \<Rightarrow> p | None \<Rightarrow> ''adb''))"

definition resolve_scrcpy :: "(string \<Rightarrow> string option) \<Rightarrow> string option \<Rightarrow> string" where
  "resolve_scrcpy env explicit =
     (case explicit of Some p \<Rightarrow> p | None \<Rightarrow> (case env ''SCRCPY'' of Some p \<Rightarrow> p | None \<Rightarrow> ''scrcpy''))"

section \<open>Devices\<close>

definition devices :: "string \<Rightarrow> host \<Rightarrow> (host \<times> (ScrcpyError + Device list)) option" where
  "devices adb h =
     (case system_run (system_runner_new adb) h DevicesLong of
        None \<Rightarrow> None
      | Some (h, Inl e) \<Rightarrow> Some (h, Inl (Adb (execution_error_text e)))
      | Some (h, Inr out) \<Rightarrow>
          Some (h,
            if co_status out \<noteq> 0
            then Inl (Adb (''adb devices -l failed with exit '' @ show_int (co_status out) @ '': '' @ str_trim (co_stderr out)))
            else mapErr (\<lambda>e. Adb (probe_error_text e)) (parse_devices (co_stdout out))))"

fun state_name :: "DeviceState \<Rightarrow> string" where
  "state_name Device = ''device''"
| "state_name Offline = ''offline''"
| "state_name Unauthorized = ''unauthorized''"
| "state_name (Other s) = s"

definition select_device :: "Device list \<Rightarrow> string option \<Rightarrow> ScrcpyError + string" where
  "select_device list ser =
     (case ser of
        Some s \<Rightarrow>
          (case List.find (\<lambda>d. dev_serial d = s) list of
             Some d \<Rightarrow> if dev_state d = Device then Inr s
                       else Inl (WrongState (''device '' @ s @ '' is '' @ state_name (dev_state d) @ '', not device''))
           | None \<Rightarrow> Inl (NotFound (''device '' @ s @ '' is not present in adb devices -l'')))
      | None \<Rightarrow>
          (case filter (\<lambda>d. dev_state d = Device) list of
             [one] \<Rightarrow> Inr (dev_serial one)
           | [] \<Rightarrow>
               (case List.find (\<lambda>d. dev_state d = Unauthorized) list of
                  Some d \<Rightarrow> Inl (WrongState (''device '' @ dev_serial d @ '' is unauthorized; approve this computer on the device''))
                | None \<Rightarrow>
                    (case List.find (\<lambda>d. dev_state d = Offline) list of
                       Some d \<Rightarrow> Inl (WrongState (''device '' @ dev_serial d @ '' is offline; reconnect the device''))
                     | None \<Rightarrow> Inl (WrongState ''no adb device is ready'')))
           | _ \<Rightarrow> Inl (Usage ''multiple adb devices are ready; pass --serial'')))"

section \<open>The version of scrcpy\<close>

definition MIN_SCRCPY :: "nat \<times> nat" where "MIN_SCRCPY = (4, 1)"

definition version_token :: "string \<Rightarrow> string option" where
  "version_token text = findMap (\<lambda>line. List.find (\<lambda>word. word \<noteq> [] \<and> is_ascii_digit (hd word)) (str_split_ws line)) (str_lines text)"

definition validate_version_text :: "string \<Rightarrow> ScrcpyError + unit" where
  "validate_version_text text =
     andThen (okOr (ScrcpyVersion ''could not parse scrcpy version; install stable scrcpy 4.1 or newer from https://github.com/Genymobile/scrcpy/releases'')
               (version_token text)) (\<lambda>token.
     if CHR ''-'' \<in> set token
     then Inl (ScrcpyVersion (''scrcpy prerelease '' @ token @ '' is not supported; install stable scrcpy 4.1 or newer''))
     else
       let parts = map (parse_uint u64_max) (str_split CHR ''.'' token) in
       andThen (case parts of Some major # _ \<Rightarrow> Inr major | _ \<Rightarrow> Inl (ScrcpyVersion ''invalid scrcpy version'')) (\<lambda>major.
       andThen (case parts of _ # Some minor # _ \<Rightarrow> Inr minor
                | _ # None # _ \<Rightarrow> Inl (ScrcpyVersion ''invalid scrcpy version'') | _ \<Rightarrow> Inr 0) (\<lambda>minor.
       if major < fst MIN_SCRCPY \<or> major = fst MIN_SCRCPY \<and> minor < snd MIN_SCRCPY
       then Inl (ScrcpyVersion (''scrcpy '' @ token @ '' is too old; install stable scrcpy 4.1 or newer''))
       else Inr ())))"

definition validate_scrcpy_with_env ::
  "string \<Rightarrow> (string \<times> string) list \<Rightarrow> host \<Rightarrow> (host \<times> (ScrcpyError + unit)) option" where
  "validate_scrcpy_with_env scrcpy env h =
     (let not_run = (\<lambda>e. if io_kind e = KNotFound then ScrcpyNotFound scrcpy else Process e);
          (h, child) = os_spawn_env scrcpy env [''--version''] h
      in case child of
        Inl e \<Rightarrow> Some (h, Inl (not_run e))
      | Inr p \<Rightarrow>
          (case os_output (clk h) p of
             None \<Rightarrow> None
           | Some (c, Inl e) \<Rightarrow> Some (h\<lparr>clk := c\<rparr>, Inl (not_run e))
           | Some (c, Inr (k, out, err)) \<Rightarrow>
               let text = from_utf8_lossy out @ [CHR 0x0A] @ from_utf8_lossy err in
               Some (h\<lparr>clk := c\<rparr>,
                 if k = Some 0 then validate_version_text text
                 else Inl (ScrcpyVersion (''scrcpy --version failed: '' @ str_trim text @
                        ''. Install scrcpy from https://github.com/Genymobile/scrcpy/releases.'')))))"

definition validate_scrcpy :: "string \<Rightarrow> host \<Rightarrow> (host \<times> (ScrcpyError + unit)) option" where
  "validate_scrcpy scrcpy h = validate_scrcpy_with_env scrcpy [] h"

section \<open>Options passed through to scrcpy\<close>

record LaunchOptions =
  lo_adb :: string
  lo_scrcpy :: string
  lo_serial :: string
  bit_rate :: string
  screen_off :: bool
  audio_on_computer :: bool
  passthrough :: "string list"
  scrcpy_env :: "(string \<times> string) list"

datatype OptionKind = Deny | Conflict | OtherOption

definition long_kind :: "string \<Rightarrow> OptionKind option" where
  "long_kind s = Some
     (if s \<in> {''serial'', ''select-usb'', ''select-tcpip'', ''window-title'', ''video-bit-rate'',
              ''no-audio'', ''audio-source'', ''no-audio-playback''} then Conflict
      else if s \<in> {''screen-off-timeout'', ''tcpip''} then Deny
      else if s = ''record'' then Deny
      else if s \<in> {''no-cleanup'', ''stay-awake'', ''show-touches'', ''power-off-on-close'',
                   ''kill-adb-on-close'', ''no-window'', ''no-playback'', ''no-video-playback'', ''no-video'',
                   ''otg''} then Deny
      else OtherOption)"

definition short_kind :: "char \<Rightarrow> OptionKind \<times> bool" where
  "short_kind c =
     (if c \<in> set ''sb'' then (Conflict, True)
      else if c \<in> set ''de'' then (Conflict, False)
      else if c \<in> set ''wtNr'' then (Deny, c = CHR ''r'')
      else (OtherOption, False))"

definition short_name :: "char \<Rightarrow> string" where
  "short_name c =
     (if c = CHR ''w'' then ''stay-awake'' else if c = CHR ''t'' then ''show-touches''
      else if c = CHR ''N'' then ''no-playback'' else if c = CHR ''r'' then ''record'' else ''unknown'')"

definition deny_reason :: "string \<Rightarrow> string" where
  "deny_reason s =
     (if s = ''no-cleanup'' then ''it breaks the wrapper cleanup contract''
      else if s = ''tcpip'' then ''it changes connection state''
      else if s \<in> {''stay-awake'', ''show-touches'', ''screen-off-timeout'', ''power-off-on-close''}
      then ''it changes device settings''
      else if s = ''kill-adb-on-close'' then ''it affects other adb users''
      else if s \<in> {''no-window'', ''no-playback'', ''no-video-playback'', ''no-video'', ''otg''}
      then ''it violates the visible mirroring boundary''
      else if s = ''record'' then ''recording is owned by the wrapper policy''
      else ''it is outside the wrapper policy'')"

text \<open>
  The loop over the letters of one cluster of short options; \<open>rest\<close> are the arguments after
  it. The result is how many of them the cluster consumes.
\<close>

fun short_loop :: "string \<Rightarrow> string list \<Rightarrow> ScrcpyError + nat" where
  "short_loop [] rest = Inr 0"
| "short_loop (c # cs) rest =
     (let (kind, takes) = short_kind c in
      if takes \<and> cs = [] \<and> (rest = [] \<or> hd rest = ''--'')
      then Inl (InvalidPassthrough (''scrcpy option -'' @ [c] @ '' requires a value''))
      else if kind = Deny
      then Inl (InvalidPassthrough (''scrcpy option -'' @ [c] @ '' is denied: '' @ deny_reason (short_name c)))
      else if kind = Conflict
      then Inl (InvalidPassthrough (''scrcpy option -'' @ [c] @ '' conflicts with wrapper-owned configuration''))
      else if takes then Inr (if cs = [] then 1 else 0)
      else short_loop cs rest)"

definition long_name :: "string \<Rightarrow> string" where
  "long_name name = (case split_once CHR ''='' name of None \<Rightarrow> name | Some (n, _) \<Rightarrow> n)"

definition check_long :: "string \<Rightarrow> ScrcpyError + unit" where
  "check_long name =
     (if long_kind name = Some Deny
      then Inl (InvalidPassthrough (''scrcpy option --'' @ name @ '' is denied: '' @ deny_reason name))
      else if long_kind name = Some Conflict
      then Inl (InvalidPassthrough (''scrcpy option --'' @ name @ '' conflicts with wrapper-owned configuration''))
      else Inr ())"

function filter_loop :: "bool \<Rightarrow> string list \<Rightarrow> string list \<Rightarrow> ScrcpyError + string list" where
  "filter_loop after_separator out [] = Inr out"
| "filter_loop after_separator out (arg # rest) =
     (if after_separator then filter_loop True (out @ [arg]) rest
      else if arg = ''--'' then filter_loop True (out @ [arg]) rest
      else case strip_prefix ''--'' arg of
          Some name \<Rightarrow>
            (case check_long (long_name name) of
               Inl e \<Rightarrow> Inl e
             | Inr _ \<Rightarrow> filter_loop False (out @ [arg]) rest)
        | None \<Rightarrow>
            (case strip_prefix ''-'' arg of
               Some shorts \<Rightarrow>
                 (if shorts \<noteq> []
                  then case short_loop shorts rest of
                      Inl e \<Rightarrow> Inl e
                    | Inr skip \<Rightarrow> filter_loop False (out @ [arg]) (drop skip rest)
                  else filter_loop False (out @ [arg]) rest)
             | None \<Rightarrow> filter_loop False (out @ [arg]) rest))"
  by pat_completeness auto
termination by (relation "measure (\<lambda>(_, _, xs). length xs)") auto

definition filtered_args :: "string list \<Rightarrow> ScrcpyError + string list" where
  "filtered_args xs = filter_loop False [] xs"

definition build_args :: "LaunchOptions \<Rightarrow> ScrcpyError + string list" where
  "build_args options =
     andThen (filtered_args (passthrough options)) (\<lambda>xs.
       Inr ([''--serial'', lo_serial options, ''--window-title=QuadControl'', ''--video-bit-rate'', bit_rate options] @ xs @
            (if screen_off options then [''--turn-screen-off''] else []) @
            (if \<not> audio_on_computer options then [''--no-audio''] else [])))"

section \<open>The session\<close>

text \<open>\<open>SIGNAL_COUNT\<close> is an \<open>AtomicU8\<close>: \<open>fetch_add\<close> wraps.\<close>

definition signal_handler :: "8 word \<Rightarrow> 8 word" where
  "signal_handler count = count + 1"

definition signal_requested :: "8 word \<Rightarrow> bool" where
  "signal_requested count \<longleftrightarrow> count \<noteq> 0"

definition signal_escalated :: "8 word \<Rightarrow> bool" where
  "signal_escalated count \<longleftrightarrow> 1 < count"

record Session =
  sn_child :: proc
  sn_progress :: "nat \<Rightarrow> nat"

text \<open>
  \<open>Session::start\<close>; \<open>progress\<close> is how fast the reader thread of the new session runs.
\<close>

definition session_start :: "LaunchOptions \<Rightarrow> (nat \<Rightarrow> nat) \<Rightarrow> host \<Rightarrow> (host \<times> (ScrcpyError + Session)) option" where
  "session_start options progress h =
     (case validate_scrcpy_with_env (lo_scrcpy options) (scrcpy_env options) h of
        None \<Rightarrow> None
      | Some (h, Inl e) \<Rightarrow> Some (h, Inl e)
      | Some (h, Inr _) \<Rightarrow>
          (case build_args options of
             Inl e \<Rightarrow> Some (h, Inl e)
           | Inr argv \<Rightarrow>
               let (h, child) = os_spawn_env (lo_scrcpy options) (scrcpy_env options @ [(''ADB'', lo_adb options)]) argv h
               in Some (h, case child of
                    Inl e \<Rightarrow> Inl (Process e)
                  | Inr p \<Rightarrow> Inr \<lparr>sn_child = p, sn_progress = progress\<rparr>)))"

definition terminate :: "(nat \<Rightarrow> bool) \<Rightarrow> clock \<Rightarrow> proc \<Rightarrow> (clock \<times> proc \<times> (ScrcpyError + unit)) option" where
  "terminate escalated c p =
     (case terminate_unix p escalated c of
        None \<Rightarrow> None
      | Some (c, p, r) \<Rightarrow> Some (c, p, mapErr Process r))"

definition session_stop :: "(nat \<Rightarrow> bool) \<Rightarrow> clock \<Rightarrow> Session \<Rightarrow> (clock \<times> Session \<times> (ScrcpyError + unit)) option" where
  "session_stop escalated c s =
     (case terminate escalated c (sn_child s) of
        None \<Rightarrow> None
      | Some (c, p, r) \<Rightarrow> Some (c, s\<lparr>sn_child := p\<rparr>, r))"

definition session_try_wait :: "clock \<Rightarrow> Session \<Rightarrow> Session \<times> (ScrcpyError + int option)" where
  "session_try_wait c s =
     (case os_try_wait c (sn_child s) of
        (p, r) \<Rightarrow> (s\<lparr>sn_child := p\<rparr>, andThen (mapErr Process r) (\<lambda>st. Inr (map_option (code_or 1) st))))"

definition stderr_tail :: "clock \<Rightarrow> Session \<Rightarrow> string" where
  "stderr_tail c s = ring_text (buffered (sn_progress s) (now c) (sn_child s))"

text \<open>Waiting for the child and then, without a bound, for the reader thread.\<close>

definition wait_and_join :: "clock \<Rightarrow> Session \<Rightarrow> (clock \<times> Session \<times> (ScrcpyError + int \<times> string)) option" where
  "wait_and_join c s =
     (case os_wait c (sn_child s) of
        None \<Rightarrow> None
      | Some (c, p, Inl e) \<Rightarrow> Some (c, s\<lparr>sn_child := p\<rparr>, Inl (Process e))
      | Some (c, p, Inr status) \<Rightarrow>
          (case join_pipe (err_chunks p) c p of
             None \<Rightarrow> None
           | Some c \<Rightarrow>
               let s = s\<lparr>sn_child := p\<rparr> in
               Some (c, s, Inr (code_or 1 status, stderr_tail c s))))"

definition wait_with_stderr :: "clock \<Rightarrow> Session \<Rightarrow> (clock \<times> Session \<times> (ScrcpyError + int \<times> string)) option" where
  "wait_with_stderr c s = wait_and_join c s"

definition session_wait :: "clock \<Rightarrow> Session \<Rightarrow> (clock \<times> Session \<times> (ScrcpyError + int)) option" where
  "session_wait c s =
     map_option (\<lambda>(c, s, r). (c, s, andThen r (\<lambda>(k, _). Inr k))) (wait_with_stderr c s)"

text \<open>
  The loop of \<open>wait_or_stop_on_signal_with_stderr\<close>; \<open>signals\<close> is the counter as seen by
  successive reads. It may run for ever, so not returning is \<open>None\<close>.
\<close>

partial_function (option) signal_loop ::
  "(nat \<Rightarrow> 8 word) \<Rightarrow> clock \<Rightarrow> Session \<Rightarrow> (clock \<times> Session \<times> (ScrcpyError + unit)) option" where
  "signal_loop signals c s =
     (let (s, r) = session_try_wait c s in
      case r of
        Inl e \<Rightarrow> Some (c, s, Inl e)
      | Inr (Some _) \<Rightarrow> Some (c, s, Inr ())
      | Inr None \<Rightarrow>
          (let (c, requested) = poll_flag (\<lambda>n. signal_requested (signals n)) c in
           if requested then session_stop (\<lambda>n. signal_escalated (signals n)) c s
           else signal_loop signals (os_sleep 25 c) s))"

definition wait_or_stop_on_signal_with_stderr ::
  "(nat \<Rightarrow> 8 word) \<Rightarrow> clock \<Rightarrow> Session \<Rightarrow> (clock \<times> Session \<times> (ScrcpyError + int \<times> string)) option" where
  "wait_or_stop_on_signal_with_stderr signals c s =
     (case signal_loop signals c s of
        None \<Rightarrow> None
      | Some (c, s, Inl e) \<Rightarrow> Some (c, s, Inl e)
      | Some (c, s, Inr _) \<Rightarrow> wait_and_join c s)"

definition wait_or_stop_on_signal ::
  "(nat \<Rightarrow> 8 word) \<Rightarrow> clock \<Rightarrow> Session \<Rightarrow> (clock \<times> Session \<times> (ScrcpyError + int)) option" where
  "wait_or_stop_on_signal signals c s =
     map_option (\<lambda>(c, s, r). (c, s, andThen r (\<lambda>(k, _). Inr k))) (wait_or_stop_on_signal_with_stderr signals c s)"

text \<open>\<open>stderr_tail_settled\<close>: a bounded wait for the end of the reader.\<close>

definition STDERR_SETTLE_BUDGET :: nat where "STDERR_SETTLE_BUDGET = 200"

function settle :: "nat \<Rightarrow> clock \<Rightarrow> Session \<Rightarrow> clock" where
  "settle deadline c s =
     (if \<not> reader_ended (sn_progress s) (now c) (sn_child s) \<and> now c < deadline
      then settle deadline (os_sleep 5 c) s else c)"
  by pat_completeness auto
termination by (relation "measure (\<lambda>(deadline, c, s). deadline - now c)") auto

declare settle.simps [simp del]

definition stderr_tail_settled :: "nat \<Rightarrow> clock \<Rightarrow> Session \<Rightarrow> clock \<times> string" where
  "stderr_tail_settled budget c s = (let c = settle (now c + budget) c s in (c, stderr_tail c s))"

section \<open>Supervision\<close>

datatype SessionStatus = Running | Stopping | Exited int string | Failed string

type_synonym SessionHandle = "SessionStatus handle"

text \<open>
  The loop of \<open>supervise\<close>: \<open>stop\<close> answers \<open>stop_rx.try_recv().is_ok()\<close>. The result says
  whether the status was set to \<open>Stopping\<close> on the way.
\<close>

partial_function (option) supervise_loop ::
  "(nat \<Rightarrow> bool) \<Rightarrow> (nat \<Rightarrow> bool) \<Rightarrow> clock \<Rightarrow> Session \<Rightarrow>
   (clock \<times> Session \<times> bool \<times> (ScrcpyError + int)) option" where
  "supervise_loop stop escalated c s =
     (let (c, stopping) = poll_flag stop c in
      if stopping
      then (case session_stop escalated c s of
              None \<Rightarrow> None
            | Some (c, s, Inl e) \<Rightarrow> Some (c, s, True, Inl e)
            | Some (c, s, Inr _) \<Rightarrow>
                (let (s, r) = session_try_wait c s in
                 Some (c, s, True, andThen r (okOr (WrongState ''stopped session was not reaped'')))))
      else
        (let (s, r) = session_try_wait c s in
         case r of
           Inl e \<Rightarrow> Some (c, s, False, Inl e)
         | Inr (Some k) \<Rightarrow> Some (c, s, False, Inr k)
         | Inr None \<Rightarrow> supervise_loop stop escalated (os_sleep 25 c) s))"

text \<open>\<open>supervise\<close>: the statuses it writes, in order; it then sends on the done channel.\<close>

definition supervise ::
  "(nat \<Rightarrow> bool) \<Rightarrow> (nat \<Rightarrow> bool) \<Rightarrow> clock \<Rightarrow> Session \<Rightarrow> (clock \<times> Session \<times> SessionStatus list) option" where
  "supervise stop escalated c s =
     (case supervise_loop stop escalated c s of
        None \<Rightarrow> None
      | Some (c, s, stopped, r) \<Rightarrow>
          (let written = (if stopped then [Stopping] else []) in
           case r of
             Inr k \<Rightarrow>
               (let (c, tail) = stderr_tail_settled STDERR_SETTLE_BUDGET c s
                in Some (c, s, written @ [Exited k tail]))
           | Inl e \<Rightarrow> Some (c, s, written @ [Failed (scrcpy_error_text e)])))"

text \<open>\<open>spawn_supervised\<close>: the handle, and the session the new thread supervises.\<close>

definition spawn_supervised ::
  "LaunchOptions \<Rightarrow> nat \<Rightarrow> (nat \<Rightarrow> nat) \<Rightarrow> (nat option \<Rightarrow> (nat \<times> bool) option) \<Rightarrow> host \<Rightarrow>
   (host \<times> (ScrcpyError + SessionHandle \<times> Session)) option" where
  "spawn_supervised options ident progress finish h =
     (case session_start options progress h of
        None \<Rightarrow> None
      | Some (h, Inl e) \<Rightarrow> Some (h, Inl e)
      | Some (h, Inr s) \<Rightarrow>
          Some (h, Inr (\<lparr>h_id = ident, h_status = Running, h_stop = None, h_done = finish, h_taken = False\<rparr>, s)))"

definition request_stop :: "clock \<Rightarrow> SessionHandle \<Rightarrow> SessionHandle \<times> (ScrcpyError + unit)" where
  "request_stop c h = (send_stop c h, Inr ())"

definition SHUTDOWN_DEADLINE :: nat where "SHUTDOWN_DEADLINE = 7000"

fun await_done :: "nat \<Rightarrow> clock \<Rightarrow> SessionHandle list \<Rightarrow> clock \<times> SessionHandle list \<times> nat list" where
  "await_done deadline_at c [] = (c, [], [])"
| "await_done deadline_at c (h # hs) =
     (case recv_done (deadline_at - now c) c h of (c, h, ok) \<Rightarrow>
      case await_done deadline_at c hs of (c, hs, timed_out) \<Rightarrow>
        (c, h # hs, if ok then timed_out else h_id h # timed_out))"

definition shutdown_all :: "SessionHandle list \<Rightarrow> nat \<Rightarrow> clock \<Rightarrow> clock \<times> SessionHandle list \<times> nat list" where
  "shutdown_all handles deadline c =
     (let handles = map (\<lambda>h. fst (request_stop c h)) handles
      in await_done (now c + deadline) c handles)"

interpretation android_shutdown: batch_shutdown shutdown_all await_done
  by unfold_locales (simp_all add: shutdown_all_def request_stop_def)

section \<open>Waiting and supervising\<close>

lemma session_try_wait_child:
  "session_try_wait c s = (s', r) \<Longrightarrow>
   sn_progress s' = sn_progress s \<and> same_child (sn_child s) (sn_child s') \<and>
   pipe_eof (sn_child s') = pipe_eof (sn_child s) \<and> err_chunks (sn_child s') = err_chunks (sn_child s)"
  by (auto simp: session_try_wait_def os_try_wait_def same_child_def split: option.splits if_splits)

lemma session_try_wait_cases:
  assumes "session_try_wait c s = (s', r)" and "wait_err (sn_child s) = None"
  shows "(exited_by (now c) (sn_child s) \<longrightarrow> gone c (sn_child s') \<and> (\<exists>k. r = Inr (Some k))) \<and>
         (\<not> exited_by (now c) (sn_child s) \<longrightarrow> r = Inr None)"
  using assms by (auto simp: session_try_wait_def os_try_wait_def exited_by_def gone_def split: option.splits if_splits)

lemma session_stop_returns:
  assumes "wait_err (sn_child s) = None" and "\<forall>t. lag c t \<le> J"
  shows "\<exists>c' s'. session_stop escalated c s = Some (c', s', Inr ()) \<and> gone c' (sn_child s') \<and>
    wait_err (sn_child s') = None \<and> lag c' = lag c \<and> now c' \<le> now c + 5200 + 2 * J \<and>
    sn_progress s' = sn_progress s \<and> err_chunks (sn_child s') = err_chunks (sn_child s) \<and>
    pipe_eof (sn_child s') = pipe_eof (sn_child s)"
proof -
  obtain c' p' r where t: "terminate_unix (sn_child s) escalated c = Some (c', p', r)"
    "wait_err (sn_child s) = None \<longrightarrow> r = Inr () \<and> gone c' p'"
    "\<forall>J. (\<forall>t. lag c t \<le> J) \<longrightarrow> now c' \<le> now c + 5200 + 2 * J"
    by (rule terminate_unix_spec [of "sn_child s" escalated c])
  with assms terminate_unix_frame [OF t(1)] show ?thesis
    by (simp add: session_stop_def terminate_def)
qed

lemma settle_props:
  "\<forall>t. lag c t \<le> J \<Longrightarrow>
   now c \<le> now (settle deadline c s) \<and> now (settle deadline c s) \<le> max (now c) (deadline + 5 + J) \<and>
   (reader_ended (sn_progress s) (now (settle deadline c s)) (sn_child s) \<or> deadline \<le> now (settle deadline c s))"
proof (induction deadline c s rule: settle.induct)
  case (1 deadline c s)
  show ?case
  proof (cases "\<not> reader_ended (sn_progress s) (now c) (sn_child s) \<and> now c < deadline")
    case True
    have "lag c (now c) \<le> J" using "1.prems" by blast
    with True "1.IH" "1.prems" show ?thesis by (auto simp: settle.simps [of deadline c s])
  next
    case False
    then show ?thesis by (auto simp: settle.simps [of deadline c s])
  qed
qed

lemma supervise_loop_stops:
  assumes "wait_err (sn_child s) = None" "stop (polls c)" "\<forall>t. lag c t \<le> J"
  shows "\<exists>c' s' code. supervise_loop stop escalated c s = Some (c', s', True, Inr code) \<and>
    gone c' (sn_child s') \<and> lag c' = lag c \<and> now c' \<le> now c + 5200 + 2 * J \<and>
    sn_progress s' = sn_progress s \<and> err_chunks (sn_child s') = err_chunks (sn_child s) \<and>
    pipe_eof (sn_child s') = pipe_eof (sn_child s)"
proof -
  let ?c = "fst (poll_flag stop c)"
  obtain c1 s1 where st: "session_stop escalated ?c s = Some (c1, s1, Inr ())" "gone c1 (sn_child s1)"
    "wait_err (sn_child s1) = None" "lag c1 = lag c" "now c1 \<le> now c + 5200 + 2 * J"
    "sn_progress s1 = sn_progress s" "err_chunks (sn_child s1) = err_chunks (sn_child s)"
    "pipe_eof (sn_child s1) = pipe_eof (sn_child s)"
    using session_stop_returns [of s ?c J escalated] assms by auto
  obtain s2 r where tw: "session_try_wait c1 s1 = (s2, r)" by (cases "session_try_wait c1 s1")
  from session_try_wait_cases [OF tw st(3)] st(2) obtain code where "r = Inr (Some code)" "gone c1 (sn_child s2)"
    by (auto simp: gone_def)
  with assms st tw session_try_wait_child [OF tw] show ?thesis
    by (simp add: supervise_loop.simps [of stop escalated c s] poll_flag_def)
qed

lemma supervise_loop_returns:
  assumes "wait_err (sn_child s) = None" "stop (polls c + k)" "\<forall>t. lag c t \<le> J"
  shows "\<exists>c' s' b code. supervise_loop stop escalated c s = Some (c', s', b, Inr code) \<and>
    gone c' (sn_child s') \<and> lag c' = lag c \<and> now c' \<le> now c + k * (25 + J) + 5200 + 2 * J \<and>
    sn_progress s' = sn_progress s \<and> err_chunks (sn_child s') = err_chunks (sn_child s) \<and>
    pipe_eof (sn_child s') = pipe_eof (sn_child s)"
  using assms
proof (induction k arbitrary: c s)
  case (0 c s)
  with supervise_loop_stops [of s stop c J escalated] show ?case by fastforce
next
  case (Suc k c s)
  show ?case
  proof (cases "stop (polls c)")
    case True
    with supervise_loop_stops [of s stop c J escalated] Suc.prems show ?thesis by fastforce
  next
    case run: False
    let ?c = "fst (poll_flag stop c)"
    obtain s1 r where tw: "session_try_wait ?c s = (s1, r)" by (cases "session_try_wait ?c s")
    note ch = session_try_wait_child [OF tw] and cs = session_try_wait_cases [OF tw Suc.prems(1)]
    show ?thesis
    proof (cases "exited_by (now ?c) (sn_child s)")
      case True
      with cs obtain code where "r = Inr (Some code)" "gone ?c (sn_child s1)" by auto
      with run tw ch show ?thesis
        by (auto simp: supervise_loop.simps [of stop escalated c s] poll_flag_def gone_def)
    next
      case False
      with cs have r: "r = Inr None" by simp
      have eq: "supervise_loop stop escalated c s = supervise_loop stop escalated (os_sleep 25 ?c) s1"
        using run tw r by (simp add: supervise_loop.simps [of stop escalated c s] poll_flag_def)
      have "wait_err (sn_child s1) = None" "stop (polls (os_sleep 25 ?c) + k)" "\<forall>t. lag (os_sleep 25 ?c) t \<le> J"
        using ch Suc.prems by (simp_all add: same_child_def poll_flag_def)
      note ih = Suc.IH [OF this]
      have "lag c (now c) \<le> J" using Suc.prems(3) by blast
      then have "now (os_sleep 25 ?c) + k * (25 + J) + 5200 + 2 * J \<le> now c + Suc k * (25 + J) + 5200 + 2 * J"
        by simp
      with ih ch show ?thesis unfolding eq by (smt (verit) order_trans os_sleep_simps(2) poll_flag_simps(2))
    qed
  qed
qed

lemma settled_tail:
  assumes "reader_ended f t p"
  shows "rb_bytes (buffered f t p) = last_n STDERR_LIMIT (concat (chunks_before_stop (err_chunks p)))"
  unfolding buffered_def drain_stderr_pushes if_P [OF assms]
  using ring.pushes_contents [of "ring_new STDERR_LIMIT" "chunks_before_stop (err_chunks p)"]
    ring_new_wf [of STDERR_LIMIT]
  by (simp add: ring_new_def STDERR_LIMIT_def)

section \<open>Properties of the session\<close>

lemma supervise_ends:
  assumes "wait_err (sn_child s) = None" and "stop (polls c + k)" and "\<forall>t. lag c t \<le> J"
  shows "\<exists>c' s' written code tail. supervise stop escalated c s = Some (c', s', written) \<and>
    written \<in> {[Exited code tail], [Stopping, Exited code tail]} \<and>
    reaped (sn_child s') \<and> exited_by (now c') (sn_child s') \<and>
    now c' \<le> now c + k * (25 + J) + 5405 + 3 * J \<and>
    (k = 0 \<longrightarrow> J \<le> 400 \<longrightarrow> now c' \<le> now c + SHUTDOWN_DEADLINE)"
proof -
  obtain c1 s1 b code where l: "supervise_loop stop escalated c s = Some (c1, s1, b, Inr code)"
    "gone c1 (sn_child s1)" "lag c1 = lag c" "now c1 \<le> now c + k * (25 + J) + 5200 + 2 * J"
    using supervise_loop_returns [of s stop c k J escalated, OF assms] by blast
  let ?c = "settle (now c1 + STDERR_SETTLE_BUDGET) c1 s1"
  from settle_props [of c1 J "now c1 + STDERR_SETTLE_BUDGET" s1] l(3) assms(3)
  have t: "now c1 \<le> now ?c" "now ?c \<le> now c1 + 205 + J" by (simp_all add: STDERR_SETTLE_BUDGET_def)
  have eq: "supervise stop escalated c s =
      Some (?c, s1, (if b then [Stopping] else []) @ [Exited code (stderr_tail ?c s1)])"
    by (simp add: supervise_def l(1) stderr_tail_settled_def Let_def)
  have r: "reaped (sn_child s1)" "exited_by (now ?c) (sn_child s1)"
    using l(2) t(1) exited_by_mono by (auto simp: gone_def)
  have w: "(if b then [Stopping] else []) @ [Exited code (stderr_tail ?c s1)] \<in>
      {[Exited code (stderr_tail ?c s1)], [Stopping, Exited code (stderr_tail ?c s1)]}" by simp
  have b: "now ?c \<le> now c + k * (25 + J) + 5405 + 3 * J" using t(2) l(4) by simp
  then have "k = 0 \<longrightarrow> J \<le> 400 \<longrightarrow> now ?c \<le> now c + SHUTDOWN_DEADLINE" by (auto simp: SHUTDOWN_DEADLINE_def)
  with eq r w b show ?thesis by blast
qed



text \<open>
  The last words of \<open>scrcpy\<close> are not lost: when its \<open>stderr\<close> reaches its end within the
  budget, \<open>stderr_tail_settled\<close> returns exactly the last 64 KiB of everything it wrote; when it
  does not, it still returns, one poll after the budget.
\<close>

theorem stderr_tail_settled_complete:
  assumes "\<forall>t. lag c t \<le> J"
  shows "now (fst (stderr_tail_settled budget c s)) \<le> now c + budget + 5 + J \<and>
    (\<forall>e k d. exit_at (sn_child s) = Some (e, k) \<longrightarrow> pipe_eof (sn_child s) = Some d \<longrightarrow> e + d \<le> now c + budget \<longrightarrow>
       snd (stderr_tail_settled budget c s) =
         from_utf8_lossy (last_n STDERR_LIMIT (concat (chunks_before_stop (err_chunks (sn_child s))))))"
proof -
  let ?c = "settle (now c + budget) c s"
  note p = settle_props [OF assms, of "now c + budget" s]
  have "reader_ended (sn_progress s) (now ?c) (sn_child s)"
    if "exit_at (sn_child s) = Some (e, k)" "pipe_eof (sn_child s) = Some d" "e + d \<le> now c + budget" for e k d
    using p that by (auto simp: reader_ended_def)
  then show ?thesis
    using p by (auto simp: stderr_tail_settled_def Let_def stderr_tail_def ring_text_def settled_tail)
qed

theorem stderr_tail_settled_complete_witness:
  "snd (stderr_tail_settled 200 clock0
      \<lparr>sn_child = stubborn\<lparr>exit_at := Some (150, Some 1), err_chunks := [Inr ''lost'']\<rparr>, sn_progress = (\<lambda>_. 0)\<rparr>) =
     from_utf8_lossy (last_n STDERR_LIMIT ''lost'')"
  using stderr_tail_settled_complete [of clock0 0 200
      "\<lparr>sn_child = stubborn\<lparr>exit_at := Some (150, Some 1), err_chunks := [Inr ''lost'']\<rparr>, sn_progress = (\<lambda>_. 0)\<rparr>"]
  by (simp add: clock0_def stubborn_def)

lemma pipe_bytes_ok: "\<forall>r \<in> set rs. isOk r \<Longrightarrow> isOk (pipe_bytes rs)"
proof (induction rs)
  case (Cons r rs)
  from Cons.prems have "isOk (pipe_bytes rs)" by (intro Cons.IH) simp
  moreover obtain x where "r = Inr x" using Cons.prems by (cases r) auto
  ultimately show ?case by (cases "pipe_bytes rs") auto
qed simp

definition keeps :: "Session \<Rightarrow> clock \<times> Session \<times> (ScrcpyError + unit) \<Rightarrow> bool" where
  "keeps s x = (case x of (c, s', r) \<Rightarrow>
     pipe_eof (sn_child s') = pipe_eof (sn_child s) \<and> err_chunks (sn_child s') = err_chunks (sn_child s) \<and>
     wait_err (sn_child s') = wait_err (sn_child s) \<and> (wait_err (sn_child s) = None \<longrightarrow> isOk r))"

lemma session_stop_keeps: "session_stop escalated c s = Some x \<Longrightarrow> keeps s x"
proof -
  assume x: "session_stop escalated c s = Some x"
  obtain c' p' r where t: "terminate_unix (sn_child s) escalated c = Some (c', p', r)"
    "wait_err (sn_child s) = None \<longrightarrow> r = Inr () \<and> gone c' p'"
    by (rule terminate_unix_spec [of "sn_child s" escalated c])
  with x terminate_unix_frame [OF t(1)] show ?thesis
    by (auto simp: session_stop_def terminate_def keeps_def)
qed

lemma signal_loop_keeps:
  assumes "signal_loop signals c s = Some x"
  shows "keeps s x"
proof (rule signal_loop.raw_induct [where P = "\<lambda>_ _ s x. keeps s x", OF _ assms], goal_cases)
  case (1 loop signals c s x)
  obtain s1 r where tw: "session_try_wait c s = (s1, r)" by (cases "session_try_wait c s")
  note ch = session_try_wait_child [OF tw]
  have ok: "wait_err (sn_child s) = None \<Longrightarrow> isOk r"
    using session_try_wait_cases [OF tw] by (cases "exited_by (now c) (sn_child s)") auto
  obtain c1 q where pf: "poll_flag (\<lambda>n. signal_requested (signals n)) c = (c1, q)"
    by (cases "poll_flag (\<lambda>n. signal_requested (signals n)) c")
  have same: "keeps s x" if "keeps s1 x" using that ch by (auto simp: keeps_def same_child_def split: prod.splits)
  show ?case
  proof (cases r)
    case (Inl e)
    with 1(2) tw ch ok show ?thesis by (auto simp: keeps_def same_child_def)
  next
    case (Inr st)
    show ?thesis
    proof (cases st)
      case None
      with 1 tw Inr pf session_stop_keeps same show ?thesis by (auto split: if_splits)
    next
      case (Some k)
      with 1(2) tw Inr ch show ?thesis by (auto simp: keeps_def same_child_def)
    qed
  qed
qed

text \<open>
  The unsupervised wait of the command line has no such bound: when a process started by
  \<open>scrcpy\<close> keeps its \<open>stderr\<close> open, \<open>wait_or_stop_on_signal_with_stderr\<close> never returns, even
  after \<open>scrcpy\<close> has exited or was stopped by a signal.
\<close>

theorem unsupervised_wait_blocks:
  assumes "pipe_eof (sn_child s) = None" and "\<forall>r \<in> set (err_chunks (sn_child s)). isOk r"
    and "wait_err (sn_child s) = None"
  shows "wait_or_stop_on_signal_with_stderr signals c s = None"
proof (cases "signal_loop signals c s")
  case None
  then show ?thesis by (simp add: wait_or_stop_on_signal_with_stderr_def)
next
  case (Some x)
  obtain c1 s1 r where x: "x = (c1, s1, r)" by (cases x)
  note k = signal_loop_keeps [OF Some, unfolded keeps_def x]
  with assms(1,3) have "isOk r" "pipe_eof (sn_child s1) = None" "wait_err (sn_child s1) = None" by auto
  moreover have "isOk (pipe_bytes (err_chunks (sn_child s1)))" using k pipe_bytes_ok [OF assms(2)] by simp
  ultimately show ?thesis
    using Some x by (cases r)
      (auto simp: wait_or_stop_on_signal_with_stderr_def wait_and_join_def os_wait_def join_pipe_stuck
        split: option.split)
qed

theorem unsupervised_wait_blocks_witness:
  "wait_or_stop_on_signal_with_stderr (\<lambda>_. 1) clock0
     \<lparr>sn_child = stubborn\<lparr>exit_at := Some (3, Some 0), pipe_eof := None\<rparr>, sn_progress = (\<lambda>_. 0)\<rparr> = None"
  by (rule unsupervised_wait_blocks) (simp_all add: stubborn_def)

section \<open>Properties of the command line\<close>

text \<open>
  What the policy says of one argument: which long options and which letters of a short
  cluster are refused.
\<close>

definition owned_or_denied :: "string list" where
  "owned_or_denied =
     [''serial'', ''select-usb'', ''select-tcpip'', ''window-title'', ''video-bit-rate'', ''no-audio'',
      ''audio-source'', ''no-audio-playback'', ''screen-off-timeout'', ''tcpip'', ''record'', ''no-cleanup'',
      ''stay-awake'', ''show-touches'', ''power-off-on-close'', ''kill-adb-on-close'', ''no-window'',
      ''no-playback'', ''no-video-playback'', ''no-video'', ''otg'']"

fun allowed :: "string \<Rightarrow> bool" where
  "allowed (a # b # name) =
     (if a = CHR ''-'' \<and> b = CHR ''-''
      then takeWhile (\<lambda>c. c \<noteq> CHR ''='') name \<notin> set owned_or_denied
      else a = CHR ''-'' \<longrightarrow> set (b # name) \<inter> set ''sbdewtNr'' = {})"
| "allowed _ = True"

definition before_separator :: "string list \<Rightarrow> string list" where
  "before_separator xs = takeWhile (\<lambda>a. a \<noteq> ''--'') xs"

lemma long_name_eq: "long_name name = takeWhile (\<lambda>c. c \<noteq> CHR ''='') name"
  unfolding long_name_def by (induction name) (auto split: option.splits)

lemma check_long_ok: "check_long name = Inr u \<longleftrightarrow> name \<notin> set owned_or_denied"
  by (auto simp: check_long_def long_kind_def owned_or_denied_def)

lemma short_loop_ok: "short_loop cs rest = Inr n \<longleftrightarrow> n = 0 \<and> set cs \<inter> set ''sbdewtNr'' = {}"
proof (induction cs)
  case (Cons c cs)
  then show ?case by (auto simp: short_kind_def Let_def)
qed auto

lemma check_long_error: "check_long name = Inl e \<Longrightarrow> \<exists>m. e = InvalidPassthrough m"
  by (auto simp: check_long_def split: if_splits)

lemma short_loop_error: "short_loop cs rest = Inl e \<Longrightarrow> \<exists>m. e = InvalidPassthrough m"
  by (induction cs) (auto simp: Let_def split: if_splits prod.splits)

lemma filter_loop_after: "filter_loop True out xs = Inr (out @ xs)"
  by (induction xs arbitrary: out) auto

text \<open>One turn of the loop before the separator.\<close>

lemma filter_loop_step:
  assumes "arg \<noteq> ''--''"
  shows "filter_loop False out (arg # rest) =
    (if allowed arg then filter_loop False (out @ [arg]) rest else filter_loop False out (arg # rest))"
    and "\<not> allowed arg \<Longrightarrow> \<exists>m. filter_loop False out (arg # rest) = Inl (InvalidPassthrough m)"
proof -
  consider (long) name where "arg = ''--'' @ name" | (short) b name where "arg = CHR ''-'' # b # name" "b \<noteq> CHR ''-''"
    | (plain) "strip_prefix ''--'' arg = None" "strip_prefix ''-'' arg = None \<or> arg = ''-''" "allowed arg"
    by (cases arg rule: allowed.cases; cases "hd arg = CHR ''-''"; cases "arg ! 1 = CHR ''-''")
       (auto simp: strip_prefix_def)
  note cs = this
  show "filter_loop False out (arg # rest) =
    (if allowed arg then filter_loop False (out @ [arg]) rest else filter_loop False out (arg # rest))"
    using cs
  proof cases
    case long
    then have sp: "strip_prefix ''--'' arg = Some name" by simp
    have al: "allowed arg \<longleftrightarrow> long_name name \<notin> set owned_or_denied" by (simp add: long long_name_eq)
    show ?thesis
    proof (cases "check_long (long_name name)")
      case (Inl e)
      with check_long_ok [of "long_name name"] al have "\<not> allowed arg" by auto
      then show ?thesis by (simp only: if_False)
    next
      case (Inr u)
      with check_long_ok [of "long_name name" u] al have "allowed arg" by auto
      with Inr sp assms show ?thesis by (simp del: allowed.simps strip_prefix_Some)
    qed
  next
    case short
    then have "strip_prefix ''--'' arg = None" "strip_prefix ''-'' arg = Some (b # name)" by (auto simp: strip_prefix_def)
    moreover have "short_loop (b # name) rest = Inr n \<longleftrightarrow> n = 0 \<and> allowed arg" for n
      using short by (simp only: short_loop_ok allowed.simps) simp
    then have "allowed arg \<Longrightarrow> short_loop (b # name) rest = Inr 0" by blast
    ultimately show ?thesis using assms
      by (cases "allowed arg") (simp_all del: allowed.simps short_loop.simps strip_prefix_Some)
  next
    case plain
    then show ?thesis using assms by (auto simp: strip_prefix_def)
  qed
  show "\<exists>m. filter_loop False out (arg # rest) = Inl (InvalidPassthrough m)" if "\<not> allowed arg"
    using cs
  proof cases
    case long
    then have sp: "strip_prefix ''--'' arg = Some name" by simp
    have "\<not> long_name name \<notin> set owned_or_denied" using that by (simp add: long long_name_eq)
    then obtain e where e: "check_long (long_name name) = Inl e"
      using check_long_ok [of "long_name name"] by (cases "check_long (long_name name)") auto
    with check_long_error [OF e] sp assms show ?thesis by (auto simp del: allowed.simps strip_prefix_Some)
  next
    case short
    then have "strip_prefix ''--'' arg = None" "strip_prefix ''-'' arg = Some (b # name)" by (auto simp: strip_prefix_def)
    moreover have "short_loop (b # name) rest = Inr n \<longleftrightarrow> n = 0 \<and> allowed arg" for n
      using short by (simp only: short_loop_ok allowed.simps) simp
    with that obtain e where "short_loop (b # name) rest = Inl e" by (cases "short_loop (b # name) rest") blast+
    ultimately show ?thesis using assms short_loop_error [of "b # name" rest e]
      by (auto simp del: allowed.simps short_loop.simps strip_prefix_Some)
  next
    case plain
    with that show ?thesis by simp
  qed
qed

lemma filter_loop_eq:
  "if \<forall>a \<in> set (before_separator xs). allowed a
   then filter_loop False out xs = Inr (out @ xs)
   else \<exists>m. filter_loop False out xs = Inl (InvalidPassthrough m)"
proof (induction xs arbitrary: out)
  case Nil
  show ?case by (simp add: before_separator_def)
next
  case (Cons arg rest)
  show ?case
  proof (cases "arg = ''--''")
    case True
    then show ?thesis by (simp add: before_separator_def filter_loop_after)
  next
    case False
    note step = filter_loop_step [OF False, of out rest]
    have bs: "before_separator (arg # rest) = arg # before_separator rest"
      using False by (simp add: before_separator_def)
    show ?thesis
    proof (cases "allowed arg")
      case True
      with step(1) have "filter_loop False out (arg # rest) = filter_loop False (out @ [arg]) rest" by metis
      with Cons [of "out @ [arg]"] bs True show ?thesis by (simp del: filter_loop.simps split: if_splits)
    next
      case f: False
      then have "\<not> (\<forall>a \<in> set (before_separator (arg # rest)). allowed a)" using bs by simp
      with step(2) [OF f] show ?thesis by (simp only: if_False)
    qed
  qed
qed

text \<open>
  C33. The filter decides exactly the policy. When every argument before the separator \<open>--\<close> is
  allowed, the arguments are passed on unchanged; otherwise they are refused with an
  \<open>InvalidPassthrough\<close> error. No spelling (\<open>--name=value\<close>, letters inside a cluster) gets an
  owned or denied option of the tables through.
\<close>

theorem filtered_args_decides_policy:
  "if \<forall>a \<in> set (before_separator xs). allowed a
   then filtered_args xs = Inr xs
   else \<exists>m. filtered_args xs = Inl (InvalidPassthrough m)"
  using filter_loop_eq [of xs "[]"] by (simp add: filtered_args_def)

theorem filtered_args_decides_policy_witness:
  "filtered_args [''--fullscreen'', ''-m'', ''1024'', ''--'', ''--tcpip''] = Inr [''--fullscreen'', ''-m'', ''1024'', ''--'', ''--tcpip'']"
  using filtered_args_decides_policy [of "[''--fullscreen'', ''-m'', ''1024'', ''--'', ''--tcpip'']"]
  by (simp add: before_separator_def owned_or_denied_def)

text \<open>
  The command line of a session: the wrapper's own options first, then the user's, all of
  them allowed before the separator, then the two optional flags; or no command line at all.
\<close>

theorem build_args_shape:
  "build_args options = Inr argv \<longleftrightarrow>
     (\<forall>a \<in> set (before_separator (passthrough options)). allowed a) \<and>
     argv = [''--serial'', lo_serial options, ''--window-title=QuadControl'', ''--video-bit-rate'', bit_rate options] @
       passthrough options @ (if screen_off options then [''--turn-screen-off''] else []) @
       (if audio_on_computer options then [] else [''--no-audio''])"
proof (cases "\<forall>a \<in> set (before_separator (passthrough options)). allowed a")
  case True
  then show ?thesis
    using filter_loop_eq [of "passthrough options" "[]"] by (auto simp: build_args_def filtered_args_def)
next
  case False
  then have "\<exists>m. filtered_args (passthrough options) = Inl (InvalidPassthrough m)"
    using filter_loop_eq [of "passthrough options" "[]"] unfolding filtered_args_def by (simp only: if_False)
  with False show ?thesis by (auto simp: build_args_def)
qed

theorem build_args_shape_witness:
  "build_args \<lparr>lo_adb = ''adb'', lo_scrcpy = ''scrcpy'', lo_serial = ''S'', bit_rate = ''8M'', screen_off = False,
      audio_on_computer = True, passthrough = [''-m'', ''1024''], scrcpy_env = []\<rparr> =
     Inr [''--serial'', ''S'', ''--window-title=QuadControl'', ''--video-bit-rate'', ''8M'', ''-m'', ''1024'']"
  by (subst build_args_shape) (simp add: before_separator_def)

text \<open>
  With a separator among the user's options, the two flags the wrapper owns end up behind
  it, where \<open>scrcpy\<close> reads operands: asking for the screen to be off, or for no audio on the
  computer, is then not expressed by any option of the command line.
\<close>

theorem build_args_flags_behind_separator:
  assumes "build_args options = Inr argv" and "''--'' \<in> set (passthrough options)"
    and "{lo_serial options, bit_rate options} \<inter> {''--turn-screen-off'', ''--no-audio''} = {}"
    and "''--turn-screen-off'' \<notin> set (passthrough options)"
  shows "''--turn-screen-off'' \<notin> set (before_separator argv) \<and> ''--no-audio'' \<notin> set (before_separator argv)"
proof -
  let ?own = "[''--serial'', lo_serial options, ''--window-title=QuadControl'', ''--video-bit-rate'', bit_rate options]"
  from assms(1) have ok: "\<forall>a \<in> set (before_separator (passthrough options)). allowed a"
    and argv: "argv = ?own @ passthrough options @ (if screen_off options then [''--turn-screen-off''] else []) @
       (if audio_on_computer options then [] else [''--no-audio''])"
    using filter_loop_eq [of "passthrough options" "[]"]
    by (auto simp: build_args_def filtered_args_def andThen_Inr_iff split: if_splits)
  have "before_separator (passthrough options @ ys) = before_separator (passthrough options)" for ys
    unfolding before_separator_def using assms(2) by (intro takeWhile_append1) auto
  then have "set (before_separator argv) \<subseteq> set ?own \<union> set (before_separator (passthrough options))"
    unfolding argv by (auto simp: before_separator_def takeWhile_append dest: set_takeWhileD split: if_splits)
  moreover have "\<not> allowed ''--no-audio''" by (simp add: owned_or_denied_def)
  with ok have "''--no-audio'' \<notin> set (before_separator (passthrough options))" by blast
  moreover have "''--turn-screen-off'' \<notin> set (before_separator (passthrough options))"
    using assms(4) by (auto simp: before_separator_def dest: set_takeWhileD)
  ultimately show ?thesis using assms(3) by auto
qed

theorem build_args_flags_behind_separator_witness:
  "''--turn-screen-off'' \<notin> set (before_separator
     [''--serial'', ''S'', ''--window-title=QuadControl'', ''--video-bit-rate'', ''8M'', ''--'', ''--turn-screen-off'']) \<and>
   ''--no-audio'' \<notin> set (before_separator
     [''--serial'', ''S'', ''--window-title=QuadControl'', ''--video-bit-rate'', ''8M'', ''--'', ''--turn-screen-off''])"
  by (rule build_args_flags_behind_separator [of "\<lparr>lo_adb = ''adb'', lo_scrcpy = ''scrcpy'', lo_serial = ''S'',
      bit_rate = ''8M'', screen_off = True, audio_on_computer = True, passthrough = [''--''], scrcpy_env = []\<rparr>"])
     (simp_all add: build_args_def filtered_args_def)

section \<open>Properties of the choice of a device, of the version check and of the shutdown\<close>

lemma filter_single:
  assumes "distinct xs"
  shows "filter P xs = [d] \<longleftrightarrow> d \<in> set xs \<and> P d \<and> (\<forall>y \<in> set xs. P y \<longrightarrow> y = d)"
proof
  assume l: "filter P xs = [d]"
  then have "set (filter P xs) = {d}" by simp
  then show "d \<in> set xs \<and> P d \<and> (\<forall>y \<in> set xs. P y \<longrightarrow> y = d)" by auto
next
  assume r: "d \<in> set xs \<and> P d \<and> (\<forall>y \<in> set xs. P y \<longrightarrow> y = d)"
  then have "set (filter P xs) = set [d]" by auto
  moreover have "distinct (filter P xs)" using assms by simp
  ultimately have "length (filter P xs) = 1" by (metis distinct_card distinct_singleton length_Cons list.size(3) One_nat_def)
  with \<open>set (filter P xs) = set [d]\<close> show "filter P xs = [d]"
    by (cases "filter P xs") (auto simp: length_Suc_conv)
qed

lemma find_distinct:
  assumes "distinct (map f xs)"
  shows "List.find (\<lambda>d. f d = s) xs = Some d \<longleftrightarrow> d \<in> set xs \<and> f d = s"
proof
  assume r: "d \<in> set xs \<and> f d = s"
  then obtain e where e: "List.find (\<lambda>d. f d = s) xs = Some e" by (cases "List.find (\<lambda>d. f d = s) xs") (auto simp: find_None_iff)
  with find_SomeD [OF e] r assms show "List.find (\<lambda>d. f d = s) xs = Some d" by (auto simp: distinct_map inj_on_def)
qed (auto dest: find_SomeD)

text \<open>
  A device is chosen exactly when it is listed and ready and is either the one asked for
  or, when none is asked for, the only ready one (serials of a listing being distinct).
\<close>

theorem select_device_iff:
  assumes "distinct (map dev_serial list)"
  shows "select_device list ser = Inr x \<longleftrightarrow>
    (\<exists>d \<in> set list. dev_serial d = x \<and> dev_state d = Device \<and>
      (case ser of Some s \<Rightarrow> s = x | None \<Rightarrow> \<forall>e \<in> set list. dev_state e = Device \<longrightarrow> e = d))"
proof (cases ser)
  case (Some s)
  have "select_device list (Some s) = Inr x \<longleftrightarrow>
      x = s \<and> (\<exists>d. List.find (\<lambda>d. dev_serial d = s) list = Some d \<and> dev_state d = Device)"
    by (auto simp: select_device_def split: option.split)
  with Some find_distinct [OF assms, of s] show ?thesis by auto
next
  case None
  have "select_device list None = Inr x \<longleftrightarrow> (\<exists>d. filter (\<lambda>d. dev_state d = Device) list = [d] \<and> dev_serial d = x)"
    by (auto simp: select_device_def split: list.split option.split)
  moreover have "distinct list" using assms by (simp add: distinct_map)
  ultimately show ?thesis using None by (auto simp: filter_single)
qed

theorem select_device_iff_witness:
  "select_device [\<lparr>dev_serial = ''A'', dev_model = None, dev_state = Offline, dev_transport = Usb\<rparr>,
      \<lparr>dev_serial = ''B'', dev_model = None, dev_state = Device, dev_transport = Usb\<rparr>] None = Inr ''B''"
  by (subst select_device_iff) auto

lemma splitBy_two: "\<forall>c \<in> set a. c \<noteq> s \<Longrightarrow> \<forall>c \<in> set b. c \<noteq> s \<Longrightarrow> str_split s (a @ s # b) = [a, b]"
  by (simp add: str_split_def splitBy_append splitBy_id)

lemma digit_plain: "is_ascii_digit c \<Longrightarrow> \<not> digit7 c \<and> \<not> is_ws c \<and> c \<noteq> CHR ''.'' \<and> c \<noteq> CHR ''-'' \<and> c \<noteq> CHR '':''"
  by (auto simp: is_ascii_digit_def is_ws_def ws_ascii_def ascii_code code_def)

lemma show_nat_plain: "plain (show_nat n)" "is_ascii_digit (hd (show_nat n))" "\<forall>c \<in> set (show_nat n). is_ascii_digit c"
  using show_nat_digits [of n] digit_plain by (auto simp: plain_def ascii_def list_all_iff)

lemma str_lines_single: "CHR 0x0A \<notin> set s \<Longrightarrow> s \<noteq> [] \<Longrightarrow> str_lines s = [s]"
  by (subst str_lines_def, subst splitBy_id) auto

lemma join_plain_no_lf: "\<forall>w \<in> set ws. plain w \<Longrightarrow> CHR 0x0A \<notin> set (str_join '' '' ws)"
  by (induction ws rule: induct_list012) (auto dest: plain_lf)

text \<open>
  C21. What the version check accepts: for the text \<open>scrcpy --version\<close> prints (the word
  \<open>scrcpy\<close>, the version and further words), exactly the versions from 4.1 on, compared as
  numbers.
\<close>

theorem validate_version_decides:
  assumes "M \<le> u64_max" and "m \<le> u64_max" and "\<forall>w \<in> set ws. plain w"
  shows "validate_version_text (str_join '' '' (''scrcpy'' # (show_nat M @ ''.'' @ show_nat m) # ws)) = Inr () \<longleftrightarrow>
    4 < M \<or> M = 4 \<and> 1 \<le> m"
proof -
  let ?v = "show_nat M @ ''.'' @ show_nat m"
  let ?t = "str_join '' '' (''scrcpy'' # ?v # ws)"
  have "plain ''.''" by (simp add: plain_def ascii_def is_ws_def ws_ascii_def)
  then have v: "plain ?v" using show_nat_plain(1) by (intro plain_append)
  have p: "\<forall>w \<in> set (''scrcpy'' # ?v # ws). plain w"
  proof -
    have "plain ''scrcpy''" by (simp add: plain_def ascii_def is_ws_def ws_ascii_def)
    with v assms(3) show ?thesis by (simp only: set_simps insert_iff) blast
  qed
  have "CHR 0x0A \<notin> set ?t" by (rule join_plain_no_lf [OF p])
  moreover have "?t \<noteq> []" by simp
  ultimately have "str_lines ?t = [?t]" by (rule str_lines_single)
  moreover have "str_split_ws ?t = ''scrcpy'' # ?v # ws" using p by (rule str_split_ws_join)
  moreover have "is_ascii_digit (hd ?v)" "\<not> is_ascii_digit CHR ''s''"
    using show_nat_plain [of M] by (auto simp: plain_def is_ascii_digit_def hd_append)
  ultimately have tok: "version_token ?t = Some ?v"
    by (simp add: version_token_def del: str_join.simps)
  have nd: "CHR ''-'' \<notin> set ?v" using show_nat_plain(3) digit_plain by fastforce
  have sp: "str_split CHR ''.'' ?v = [show_nat M, show_nat m]"
    using splitBy_two [of "show_nat M" "CHR ''.''" "show_nat m"] show_nat_plain(3) digit_plain by fastforce
  show ?thesis unfolding validate_version_text_def tok
    using assms(1,2) nd by (auto simp: sp MIN_SCRCPY_def simp del: append.simps)
qed

theorem validate_version_decides_witness:
  "validate_version_text (str_join '' '' (''scrcpy'' # (show_nat 4 @ ''.'' @ show_nat 1) # [''<https://github.com>''])) = Inr ()"
  by (subst validate_version_decides) (simp_all add: u64_max_def plain_def ascii_def is_ws_def ws_ascii_def)

text \<open>
  \<open>shutdown_all\<close> keeps one deadline for all sessions, whatever they do: its running time
  does not add up over them beyond the lateness \<open>J\<close> of each wake-up. Sessions whose supervisor
  ends within the deadline after being asked are all waited for, and none is reported late.
\<close>

theorem shutdown_all_shares_deadline:
  assumes "shutdown_all handles deadline c = (c', handles', timed_out)" and "\<forall>t. lag c t \<le> J"
    and "\<forall>h \<in> set handles. \<forall>s. h_stop h = Some s \<longrightarrow> s \<le> now c"
  shows "now c' \<le> now c + deadline + length handles * J \<and> set timed_out \<subseteq> set (map h_id handles) \<and>
    ((\<forall>h \<in> set handles. \<not> h_taken h \<and> (\<forall>s. \<exists>t \<le> s + deadline. h_done h (Some s) = Some (t, True))) \<longrightarrow>
     timed_out = [])"
proof (intro conjI impI)
  show "now c' \<le> now c + deadline + length handles * J"
    by (rule android_shutdown.shutdown_bounded [OF assms(1,2)])
  show "set timed_out \<subseteq> set (map h_id handles)" by (rule android_shutdown.shutdown_late [OF assms(1)])
  assume "\<forall>h \<in> set handles. \<not> h_taken h \<and> (\<forall>s. \<exists>t \<le> s + deadline. h_done h (Some s) = Some (t, True))"
  with assms(3) show "timed_out = []" by (intro android_shutdown.shutdown_complete [OF _ assms(1)]) blast
qed

definition prompt_handle :: "nat \<Rightarrow> SessionHandle" where
  "prompt_handle i = \<lparr>h_id = i, h_status = Running, h_stop = None,
     h_done = (\<lambda>s. case s of None \<Rightarrow> None | Some t \<Rightarrow> Some (t + 10, True)), h_taken = False\<rparr>"

theorem shutdown_all_shares_deadline_witness:
  "case shutdown_all [prompt_handle 1, prompt_handle 2] 7000 clock0 of (c', _, timed_out) \<Rightarrow>
     now c' \<le> 7000 \<and> timed_out = []"
proof -
  obtain c' hs late where e: "shutdown_all [prompt_handle 1, prompt_handle 2] 7000 clock0 = (c', hs, late)"
    by (cases "shutdown_all [prompt_handle 1, prompt_handle 2] 7000 clock0")
  have p: "\<forall>t. lag clock0 t \<le> 0" "\<forall>h \<in> set [prompt_handle 1, prompt_handle 2]. \<forall>s. h_stop h = Some s \<longrightarrow> s \<le> now clock0"
    "\<forall>h \<in> set [prompt_handle 1, prompt_handle 2]. \<not> h_taken h \<and> (\<forall>s. \<exists>t \<le> s + 7000. h_done h (Some s) = Some (t, True))"
    "now clock0 = 0"
    by (simp_all add: clock0_def prompt_handle_def)
  from shutdown_all_shares_deadline [OF e p(1,2)] p(3,4) have "now c' \<le> 7000 \<and> late = []" by simp
  then show ?thesis by (simp only: e prod.case)
qed

text \<open>
  Its report is not repeatable: the end of a session is announced by one message, so a
  session that was reported as finished by one shutdown is reported as late by the next.
\<close>

theorem shutdown_all_reports_once:
  assumes "\<not> h_taken h" and "h_done h (h_stop h) = Some (t, True)" and "t \<le> now c" and "h_stop h = Some s"
    and "shutdown_all [h] d c = (c1, hs, timed_out)"
  shows "timed_out = [] \<and> (case shutdown_all hs d c1 of (_, _, again) \<Rightarrow> again = [h_id h])"
  using assms by (auto simp: shutdown_all_def request_stop_def send_stop_def recv_done_def)

theorem shutdown_all_reports_once_witness:
  "[] = ([]::nat list) \<and> (case shutdown_all [(prompt_handle 1)\<lparr>h_stop := Some 0, h_taken := True\<rparr>] 7000 (clock0\<lparr>now := 20\<rparr>) of
     (_, _, again) \<Rightarrow> again = [h_id ((prompt_handle 1)\<lparr>h_stop := Some 0\<rparr>)])"
  by (rule shutdown_all_reports_once [where c = "clock0\<lparr>now := 20\<rparr>" and t = 10 and s = 0])
     (simp_all add: prompt_handle_def clock0_def shutdown_all_def request_stop_def send_stop_def recv_done_def)

end
