(* ===== verification/WirelessData.thy ===== *)
theory WirelessData
  imports ScrcpyLib
begin

text \<open>
  The crate \<open>quadcontrol-android\<close>, \<open>wireless.rs\<close>, first part: the pairing secret, the parsers of
  \<open>adb\<close> output, the merging of devices, the state machine of one pairing round, the redaction
  of error texts and the drawing of the QR code. The random source and the QR encoder are
  external: they are arguments.
\<close>

section \<open>Constants and errors\<close>

definition PASSWORD_LENGTH :: nat where "PASSWORD_LENGTH = 12"
definition ROUND_TIMEOUT :: nat where "ROUND_TIMEOUT = 300000"
definition WL_OUTPUT_LIMIT :: nat where "WL_OUTPUT_LIMIT = 64 * 1024"
definition WL_COMMAND_TIMEOUT :: nat where "WL_COMMAND_TIMEOUT = 10000"
definition PAIRING_SHUTDOWN_DEADLINE :: nat where "PAIRING_SHUTDOWN_DEADLINE = WL_COMMAND_TIMEOUT + 3000"

definition ALPHANUMERIC :: string where
  "ALPHANUMERIC = ''0123456789ABCDEFGHIJKLMNOPQRSTUVWXYZabcdefghijklmnopqrstuvwxyz''"

type_synonym adb_version = "nat \<times> nat \<times> nat"

datatype WirelessError =
    WIo io_error
  | WAdbNotFound
  | WTimedOut
  | WOutputTooLarge
  | WCommandFailed string
  | InvalidAdbVersion
  | AdbTooOld adb_version
  | MdnsUnavailable
  | PairOutputUnparseable
  | NoMatchingService
  | Devices string
  | InvalidInput string
  | WCancelled
  | RoundTimedOut
  | WServiceLost

definition version_text :: "adb_version \<Rightarrow> string" where
  "version_text v = (case v of (a, b, c) \<Rightarrow> show_nat a @ ''.'' @ show_nat b @ ''.'' @ show_nat c)"

fun wireless_error_text :: "WirelessError \<Rightarrow> string" where
  "wireless_error_text (WIo e) = ''ADB process error: '' @ io_text e"
| "wireless_error_text WAdbNotFound = ([CHR 0xE6, CHR 0x9C, CHR 0xAA, CHR 0xE6, CHR 0x89, CHR 0xBE, CHR 0xE5, CHR 0x88, CHR 0xB0] @
      '' adb'' @ [CHR 0xEF, CHR 0xBC, CHR 0x8C, CHR 0xE8, CHR 0xAF, CHR 0xB7, CHR 0xE5, CHR 0xAE, CHR 0x89,
      CHR 0xE8, CHR 0xA3, CHR 0x85] @ '' Android platform-tools'')"
| "wireless_error_text WTimedOut = (''adb '' @ [CHR 0xE5, CHR 0x91, CHR 0xBD, CHR 0xE4, CHR 0xBB, CHR 0xA4, CHR 0xE8, CHR 0xB6,
      CHR 0x85, CHR 0xE6, CHR 0x97, CHR 0xB6])"
| "wireless_error_text WOutputTooLarge = (''adb '' @ [CHR 0xE8, CHR 0xBE, CHR 0x93, CHR 0xE5, CHR 0x87, CHR 0xBA, CHR 0xE8, CHR 0xB6,
      CHR 0x85, CHR 0xE8, CHR 0xBF, CHR 0x87, CHR 0xE9, CHR 0x99, CHR 0x90, CHR 0xE5, CHR 0x88, CHR 0xB6])"
| "wireless_error_text (WCommandFailed e) = (''adb '' @ [CHR 0xE5, CHR 0x91, CHR 0xBD, CHR 0xE4, CHR 0xBB, CHR 0xA4, CHR 0xE5, CHR 0xA4,
      CHR 0xB1, CHR 0xE8, CHR 0xB4, CHR 0xA5] @ '': '') @ e"
| "wireless_error_text InvalidAdbVersion = ([CHR 0xE6, CHR 0x97, CHR 0xA0, CHR 0xE6, CHR 0xB3, CHR 0x95, CHR 0xE8, CHR 0xA7, CHR 0xA3, CHR 0xE6,
      CHR 0x9E, CHR 0x90] @ '' adb '' @ [CHR 0xE5, CHR 0xAE, CHR 0xA2, CHR 0xE6, CHR 0x88, CHR 0xB7,
      CHR 0xE7, CHR 0xAB, CHR 0xAF, CHR 0xE7, CHR 0x89, CHR 0x88, CHR 0xE6, CHR 0x9C, CHR 0xAC])"
| "wireless_error_text (AdbTooOld v) = ''adb '' @ version_text v @ ('' '' @ [CHR 0xE8, CHR 0xBF, CHR 0x87, CHR 0xE6, CHR 0x97, CHR 0xA7, CHR 0xEF, CHR 0xBC, CHR 0x8C,
      CHR 0xE9, CHR 0x9C, CHR 0x80, CHR 0xE8, CHR 0xA6, CHR 0x81] @ '' 30.0.0 '' @ [CHR 0xE6, CHR 0x88,
      CHR 0x96, CHR 0xE6, CHR 0x9B, CHR 0xB4, CHR 0xE9, CHR 0xAB, CHR 0x98, CHR 0xE7, CHR 0x89, CHR 0x88,
      CHR 0xE6, CHR 0x9C, CHR 0xAC])"
| "wireless_error_text MdnsUnavailable =
     (''adb mDNS '' @ [CHR 0xE4, CHR 0xB8, CHR 0x8D, CHR 0xE5, CHR 0x8F, CHR 0xAF, CHR 0xE7, CHR 0x94,
      CHR 0xA8, CHR 0xE3, CHR 0x80, CHR 0x82, CHR 0xE5, CHR 0x8F, CHR 0xAF, CHR 0xE8, CHR 0x83, CHR 0xBD,
      CHR 0xE6, CHR 0x98, CHR 0xAF, CHR 0xE5, CHR 0xB7, CHR 0xB2, CHR 0xE5, CHR 0x9C, CHR 0xA8, CHR 0xE8,
      CHR 0xBF, CHR 0x90, CHR 0xE8, CHR 0xA1, CHR 0x8C, CHR 0xE7, CHR 0x9A, CHR 0x84] @ '' adb server '' @
      [CHR 0xE7, CHR 0x89, CHR 0x88, CHR 0xE6, CHR 0x9C, CHR 0xAC, CHR 0xE8, CHR 0xBE, CHR 0x83, CHR 0xE6,
      CHR 0x97, CHR 0xA7, CHR 0xEF, CHR 0xBC, CHR 0x9B, CHR 0x0A, CHR 0xE5, CHR 0x8A, CHR 0xA0] @
      '' --restart-adb-server '' @ [CHR 0xE9, CHR 0x87, CHR 0x8D, CHR 0xE8, CHR 0xB7, CHR 0x91, CHR 0xE5,
      CHR 0x8F, CHR 0xAF, CHR 0xE9, CHR 0x87, CHR 0x8D, CHR 0xE5, CHR 0x90, CHR 0xAF] @ '' adb server '' @
      [CHR 0xE5, CHR 0x90, CHR 0x8E, CHR 0xE9, CHR 0x87, CHR 0x8D, CHR 0xE8, CHR 0xAF, CHR 0x95, CHR 0x0A,
      CHR 0xEF, CHR 0xBC, CHR 0x88, CHR 0xE4, CHR 0xBC, CHR 0x9A, CHR 0xE7, CHR 0x9F, CHR 0xAD, CHR 0xE6,
      CHR 0x9A, CHR 0x82, CHR 0xE6, CHR 0x96, CHR 0xAD, CHR 0xE5, CHR 0xBC, CHR 0x80, CHR 0xE6, CHR 0x9C,
      CHR 0xAC, CHR 0xE6, CHR 0x9C, CHR 0xBA, CHR 0xE5, CHR 0x85, CHR 0xB6, CHR 0xE4, CHR 0xBB, CHR 0x96] @
      '' adb '' @ [CHR 0xE4, CHR 0xBC, CHR 0x9A, CHR 0xE8, CHR 0xAF, CHR 0x9D, CHR 0xEF, CHR 0xBC,
      CHR 0x89, CHR 0xEF, CHR 0xBC, CHR 0x8C, CHR 0xE6, CHR 0x88, CHR 0x96, CHR 0xE6, CHR 0x94, CHR 0xB9,
      CHR 0xE7, CHR 0x94, CHR 0xA8] @ '' pair-code / USB'' @ [CHR 0xE3, CHR 0x80, CHR 0x82])"
| "wireless_error_text PairOutputUnparseable = (''pair '' @ [CHR 0xE6, CHR 0x88, CHR 0x90, CHR 0xE5, CHR 0x8A, CHR 0x9F, CHR 0xE4, CHR 0xBD,
      CHR 0x86, CHR 0xE8, CHR 0xBE, CHR 0x93, CHR 0xE5, CHR 0x87, CHR 0xBA, CHR 0xE6, CHR 0x97, CHR 0xA0,
      CHR 0xE6, CHR 0xB3, CHR 0x95, CHR 0xE8, CHR 0xA7, CHR 0xA3, CHR 0xE6, CHR 0x9E, CHR 0x90, CHR 0xEF,
      CHR 0xBC, CHR 0x8C, CHR 0xE8, CHR 0xAF, CHR 0xB7, CHR 0xE9, CHR 0x87, CHR 0x8D, CHR 0xE8, CHR 0xAF,
      CHR 0x95, CHR 0xE6, CHR 0x88, CHR 0x96, CHR 0xE6, CHR 0x89, CHR 0x8B, CHR 0xE5, CHR 0x8A, CHR 0xA8] @
      '' connect'')"
| "wireless_error_text NoMatchingService = ([CHR 0xE6, CHR 0x9C, CHR 0xAA, CHR 0xE5, CHR 0x8F, CHR 0x91, CHR 0xE7, CHR 0x8E, CHR 0xB0, CHR 0xE5,
      CHR 0x8C, CHR 0xB9, CHR 0xE9, CHR 0x85, CHR 0x8D, CHR 0xE7, CHR 0x9A, CHR 0x84, CHR 0xE6, CHR 0x97,
      CHR 0xA0, CHR 0xE7, CHR 0xBA, CHR 0xBF, CHR 0xE8, CHR 0xB0, CHR 0x83, CHR 0xE8, CHR 0xAF, CHR 0x95,
      CHR 0xE6, CHR 0x9C, CHR 0x8D, CHR 0xE5, CHR 0x8A, CHR 0xA1])"
| "wireless_error_text (Devices e) = e"
| "wireless_error_text (InvalidInput e) = e"
| "wireless_error_text WCancelled = ([CHR 0xE5, CHR 0xB7, CHR 0xB2, CHR 0xE5, CHR 0x8F, CHR 0x96, CHR 0xE6, CHR 0xB6, CHR 0x88] @
      '' / cancelled'')"
| "wireless_error_text RoundTimedOut = ([CHR 0xE6, CHR 0x89, CHR 0xAB, CHR 0xE7, CHR 0xA0, CHR 0x81, CHR 0xE8, CHR 0xB6, CHR 0x85, CHR 0xE6,
      CHR 0x97, CHR 0xB6] @ '' / scan timed out'')"
| "wireless_error_text WServiceLost = ([CHR 0xE9, CHR 0x85, CHR 0x8D, CHR 0xE5, CHR 0xAF, CHR 0xB9, CHR 0xE6, CHR 0x9C, CHR 0x8D, CHR 0xE5,
      CHR 0x8A, CHR 0xA1, CHR 0xE5, CHR 0xB7, CHR 0xB2, CHR 0xE6, CHR 0xB6, CHR 0x88, CHR 0xE5, CHR 0xA4,
      CHR 0xB1] @ '' / pairing service disappeared'')"

section \<open>The pairing secret\<close>

record PairingSecret =
  service_name :: string
  password :: string
  payload :: string

text \<open>
  \<open>random_text\<close>: blocks of random bytes are drawn until enough of them were accepted; a byte
  is accepted below 248, the largest multiple of 62, so that the remainder is not biased. The
  source may in principle never give an accepted byte, so not returning is \<open>None\<close>; the result
  carries the number of blocks drawn.
\<close>

definition accept_byte :: "8 word \<Rightarrow> char option" where
  "accept_byte b = (if unat b < 248 then Some (ALPHANUMERIC ! (unat b mod length ALPHANUMERIC)) else None)"

fun take_bytes :: "nat \<Rightarrow> 8 word list \<Rightarrow> string \<Rightarrow> string" where
  "take_bytes len [] output = output"
| "take_bytes len (b # bs) output =
     (case accept_byte b of
        None \<Rightarrow> take_bytes len bs output
      | Some c \<Rightarrow> if length (output @ [c]) = len then output @ [c] else take_bytes len bs (output @ [c]))"

partial_function (option) random_loop ::
  "(nat \<Rightarrow> 8 word list) \<Rightarrow> nat \<Rightarrow> nat \<Rightarrow> string \<Rightarrow> (nat \<times> string) option" where
  "random_loop blocks len drawn output =
     (if length output < len
      then random_loop blocks len (Suc drawn) (take_bytes len (blocks drawn) output)
      else Some (drawn, output))"

definition random_text :: "(nat \<Rightarrow> 8 word list) \<Rightarrow> nat \<Rightarrow> nat \<Rightarrow> (nat \<times> string) option" where
  "random_text blocks drawn len = random_loop blocks len drawn []"

definition pairing_payload :: "string \<Rightarrow> string \<Rightarrow> string" where
  "pairing_payload name pw = ''WIFI:T:ADB;S:'' @ name @ '';P:'' @ pw @ '';;''"

definition generate_pairing_secret :: "(nat \<Rightarrow> 8 word list) \<Rightarrow> PairingSecret option" where
  "generate_pairing_secret blocks =
     (case random_text blocks 0 10 of
        None \<Rightarrow> None
      | Some (drawn, tail) \<Rightarrow>
          (case random_text blocks drawn PASSWORD_LENGTH of
             None \<Rightarrow> None
           | Some (_, pw) \<Rightarrow>
               let name = ''studio-'' @ tail in
               Some \<lparr>service_name = name, password = pw, payload = pairing_payload name pw\<rparr>))"

text \<open>\<open>wipe_string\<close> overwrites the buffer with zeros, then empties the string.\<close>

definition wipe_string :: "string \<Rightarrow> string" where
  "wipe_string value = take 0 (map (\<lambda>_. CHR 0x00) value)"

definition wipe_secret_string :: "string \<Rightarrow> string" where
  "wipe_secret_string value = wipe_string value"

definition wipe :: "PairingSecret \<Rightarrow> PairingSecret" where
  "wipe s = s\<lparr>service_name := wipe_string (service_name s), password := wipe_string (password s),
              payload := wipe_string (payload s)\<rparr>"

text \<open>\<open>fmt::Debug\<close>: only the service name is shown; \<open>esc\<close> is the escaping of a debug string.\<close>

definition secret_debug :: "(string \<Rightarrow> string) \<Rightarrow> PairingSecret \<Rightarrow> string" where
  "secret_debug esc s =
     (let q = [CHR 0x22] in
      ''PairingSecret { service_name: '' @ q @ esc (service_name s) @ q @
      '', password: '' @ q @ ''<redacted>'' @ q @ '', payload: '' @ q @ ''<redacted>'' @ q @ '' }'')"

section \<open>Services announced by mDNS\<close>

record MdnsService =
  ms_instance :: string
  ms_service :: string
  ms_address :: string
  ms_port :: nat

definition split_endpoint :: "string \<Rightarrow> (string \<times> nat) option" where
  "split_endpoint v =
     (case rsplit_once CHR '':'' v of
        None \<Rightarrow> None
      | Some (address, port) \<Rightarrow>
          if address = [] then None else map_option (\<lambda>p. (address, p)) (parse_uint u16_max port))"

definition endpoint_of :: "string list \<Rightarrow> (string \<times> nat) option" where
  "endpoint_of words =
     (case findMap split_endpoint words of
        Some e \<Rightarrow> Some e
      | None \<Rightarrow>
          (case words of
             address # port # _ \<Rightarrow> map_option (\<lambda>p. (address, p)) (parse_uint u16_max port)
           | _ \<Rightarrow> None))"

definition is_adb_service :: "string \<Rightarrow> bool" where
  "is_adb_service field \<longleftrightarrow>
     trim_end_matches CHR ''.'' field \<in> {''_adb-tls-pairing._tcp'', ''_adb-tls-connect._tcp''}"

text \<open>\<open>split_once("._adb-tls-")\<close>.\<close>

definition split_joined :: "string \<Rightarrow> (string \<times> string) option" where
  "split_joined field =
     map_option (\<lambda>i. (take i field, drop (i + length ''._adb-tls-'') field)) (str_find ''._adb-tls-'' field)"

definition parse_mdns_line :: "string \<Rightarrow> MdnsService option" where
  "parse_mdns_line line =
     (let words = str_split_ws line in
      if length words < 2 \<or> eq_ignore_ascii_case (hd words) ''List'' then None
      else
        let found =
          (case position is_adb_service words of
             Some i \<Rightarrow>
               if i = 0 then None
               else Some (trim_end_matches CHR ''.'' (words ! (i - 1)), trim_end_matches CHR ''.'' (words ! i), drop (i + 1) words)
           | None \<Rightarrow>
               (case position (str_contains ''._adb-tls-'') words of
                  None \<Rightarrow> None
                | Some i \<Rightarrow>
                    (case split_joined (words ! i) of
                       None \<Rightarrow> None
                     | Some (inst, service) \<Rightarrow>
                         Some (inst, ''_adb-tls-'' @ trim_end_matches CHR ''.'' service, drop (i + 1) words))))
        in case found of
             None \<Rightarrow> None
           | Some (inst, service, rest) \<Rightarrow>
               map_option (\<lambda>(address, port).
                   \<lparr>ms_instance = inst, ms_service = service, ms_address = address, ms_port = port\<rparr>)
                 (endpoint_of rest))"

definition parse_mdns_services :: "string \<Rightarrow> MdnsService list" where
  "parse_mdns_services output = List.map_filter parse_mdns_line (str_lines output)"

definition find_pairing_services :: "MdnsService list \<Rightarrow> string \<Rightarrow> MdnsService list" where
  "find_pairing_services services name =
     filter (\<lambda>s. ms_service s = ''_adb-tls-pairing._tcp'' \<and> ms_instance s = name) services"

definition find_pairing_service :: "MdnsService list \<Rightarrow> string \<Rightarrow> MdnsService option" where
  "find_pairing_service services name =
     (case find_pairing_services services name of [] \<Rightarrow> None | s # _ \<Rightarrow> Some s)"

definition guid_of_word :: "string \<Rightarrow> string option" where
  "guid_of_word word =
     (case strip_prefix ''[guid='' word of
        None \<Rightarrow> None
      | Some t \<Rightarrow>
          (case strip_suffix '']'' t of
             None \<Rightarrow> None
           | Some token \<Rightarrow>
               (case strip_prefix ''adb-'' token of
                  None \<Rightarrow> None
                | Some rest \<Rightarrow>
                    if rest \<noteq> [] \<and> list_all (\<lambda>c. is_ascii_alnum c \<or> c = CHR ''-'') rest then Some token else None)))"

definition find_guid :: "string \<Rightarrow> string option" where
  "find_guid output = findMap guid_of_word (str_split_ws output)"

definition serial_matches_guid :: "string \<Rightarrow> string \<Rightarrow> bool" where
  "serial_matches_guid s guid \<longleftrightarrow>
     s = guid \<or> starts_with guid s \<and> starts_with ''.'' (drop (length guid) s)"

definition connect_service_for_guid :: "MdnsService list \<Rightarrow> string \<Rightarrow> MdnsService option" where
  "connect_service_for_guid services guid =
     List.find (\<lambda>s. ms_service s = ''_adb-tls-connect._tcp'' \<and> serial_matches_guid (ms_instance s) guid) services"

section \<open>Versions of adb\<close>

definition adb_version_of_line :: "string \<Rightarrow> adb_version option" where
  "adb_version_of_line line =
     (case strip_prefix ''Version '' line of
        None \<Rightarrow> None
      | Some t \<Rightarrow>
          (case str_split_ws t of
             [] \<Rightarrow> None
           | word # _ \<Rightarrow>
               (case map (parse_uint u64_max) (str_split CHR ''.'' (hd (str_split CHR ''-'' word))) of
                  Some a # Some b # Some c # _ \<Rightarrow> Some (a, b, c)
                | _ \<Rightarrow> None)))"

definition parse_adb_version :: "string \<Rightarrow> adb_version option" where
  "parse_adb_version s = findMap adb_version_of_line (str_lines s)"

definition version_less :: "adb_version \<Rightarrow> adb_version \<Rightarrow> bool" where
  "version_less v w =
     (case (v, w) of ((a, b, c), (x, y, z)) \<Rightarrow> a < x \<or> a = x \<and> (b < y \<or> b = y \<and> c < z))"

definition require_supported_adb :: "string \<Rightarrow> WirelessError + adb_version" where
  "require_supported_adb s =
     andThen (okOr InvalidAdbVersion (parse_adb_version s)) (\<lambda>version.
       if version_less version (30, 0, 0) then Inl (AdbTooOld version) else Inr version)"

section \<open>One device under two serials\<close>

definition same_device :: "(string \<times> string) list \<Rightarrow> Device \<Rightarrow> Device \<Rightarrow> bool" where
  "same_device serials existing device \<longleftrightarrow>
     (\<exists>(l, r) \<in> set serials. l = dev_serial existing \<and> r = dev_serial device \<or>
                             l = dev_serial device \<and> r = dev_serial existing)"

definition dedup_step :: "(string \<times> string) list \<Rightarrow> Device \<Rightarrow> Device list \<Rightarrow> Device list" where
  "dedup_step serials device result =
     (case position (\<lambda>existing. same_device serials existing device) result of
        Some i \<Rightarrow>
          (if starts_with ''adb-'' (dev_serial device) \<and> \<not> starts_with ''adb-'' (dev_serial (result ! i))
           then result[i := device] else result)
      | None \<Rightarrow> result @ [device])"

definition deduplicate_devices :: "Device list \<Rightarrow> (string \<times> string) list \<Rightarrow> Device list" where
  "deduplicate_devices ds serials = fold (dedup_step serials) ds []"

section \<open>The state of a round\<close>

datatype CloseReason = CSuccess | CTimeout | CCancelled | CServiceLost | CPairFailed | CPairTimedOut

datatype RoundEvent =
    EvServiceLost | EvPairSucceeded string | EvPairFailed | EvPairTimedOut | EvTimeout | EvCancelled

datatype RoundAction = WaitForPair | Close CloseReason | IgnoredAfterClose

record RoundState =
  rd_id :: "64 word"
  pair_in_flight :: bool
  rd_closed :: bool
  rd_guid :: "string option"
  service_lost_pending :: bool

definition round_new :: "64 word \<Rightarrow> RoundState" where
  "round_new i = \<lparr>rd_id = i, pair_in_flight = False, rd_closed = False, rd_guid = None, service_lost_pending = False\<rparr>"

definition close_round :: "CloseReason \<Rightarrow> RoundState \<Rightarrow> RoundState \<times> RoundAction" where
  "close_round reason r = (r\<lparr>pair_in_flight := False, rd_closed := True, rd_id := rd_id r + 1\<rparr>, Close reason)"

definition observe :: "RoundEvent \<Rightarrow> RoundState \<Rightarrow> RoundState \<times> RoundAction" where
  "observe event r =
     (if rd_closed r then (r, IgnoredAfterClose)
      else case event of
          EvServiceLost \<Rightarrow>
            if pair_in_flight r then (r\<lparr>service_lost_pending := True\<rparr>, WaitForPair)
            else close_round CServiceLost r
        | EvCancelled \<Rightarrow> close_round CCancelled r
        | EvTimeout \<Rightarrow> close_round CTimeout r
        | EvPairSucceeded guid \<Rightarrow> close_round CSuccess (r\<lparr>pair_in_flight := False, rd_guid := Some guid\<rparr>)
        | EvPairFailed \<Rightarrow>
            if pair_in_flight r
            then close_round (if service_lost_pending r then CServiceLost else CPairFailed) (r\<lparr>pair_in_flight := False\<rparr>)
            else close_round CPairFailed r
        | EvPairTimedOut \<Rightarrow>
            if pair_in_flight r
            then close_round (if service_lost_pending r then CServiceLost else CPairTimedOut) (r\<lparr>pair_in_flight := False\<rparr>)
            else close_round CPairTimedOut r)"

definition observe_for_round :: "64 word \<Rightarrow> RoundEvent \<Rightarrow> RoundState \<Rightarrow> RoundState \<times> RoundAction" where
  "observe_for_round round_id event r =
     (if round_id \<noteq> rd_id r \<or> rd_closed r then (r, IgnoredAfterClose) else observe event r)"

definition classify_round_failure :: "bool \<Rightarrow> bool \<Rightarrow> WirelessError \<Rightarrow> RoundEvent \<times> WirelessError" where
  "classify_round_failure service_lost pair_timed_out first =
     (if service_lost then (EvServiceLost, WServiceLost)
      else if pair_timed_out then (EvPairTimedOut, WTimedOut)
      else (EvPairFailed, first))"

section \<open>Redaction\<close>

definition stderr_summary :: "string \<Rightarrow> string \<Rightarrow> string" where
  "stderr_summary stderr secret =
     (let redacted = str_trim stderr;
          redacted = (if secret \<noteq> [] then str_replace secret ''[redacted]'' redacted else redacted)
      in concat (take 512 (str_chars redacted)))"

definition pair_stderr_summary :: "string \<Rightarrow> string \<Rightarrow> string" where
  "pair_stderr_summary stderr pw = stderr_summary stderr pw"

section \<open>The QR code\<close>

text \<open>The encoder gives the width of the symbol and its modules, row by row, or an error text.\<close>

type_synonym qr_encoder = "string \<Rightarrow> string + nat \<times> bool list"

definition QUIET :: nat where "QUIET = 4"

record QrMatrix =
  qr_side :: nat
  qr_modules :: "bool list"

definition set_modules :: "nat \<Rightarrow> bool list \<Rightarrow> bool list \<Rightarrow> bool list" where
  "set_modules width colors modules =
     (let side = width + QUIET * 2 in
      fold (\<lambda>(y, x) ms. ms[(y + QUIET) * side + x + QUIET := colors ! (y * width + x)])
        (List.product [0..<width] [0..<width]) modules)"

definition qr_matrix :: "qr_encoder \<Rightarrow> string \<Rightarrow> WirelessError + QrMatrix" where
  "qr_matrix enc text =
     andThen (mapErr InvalidInput (enc text)) (\<lambda>(width, colors).
       let side = width + QUIET * 2 in
       Inr \<lparr>qr_side = side, qr_modules = set_modules width colors (replicate (side * side) False)\<rparr>)"

definition qr_dark :: string where "qr_dark = CHR 0x1B # ''[40m  ''"
definition qr_light :: string where "qr_light = CHR 0x1B # ''[47m  ''"
definition qr_reset :: string where "qr_reset = CHR 0x1B # ''[0m''"

definition render_qr :: "qr_encoder \<Rightarrow> string \<Rightarrow> WirelessError + string" where
  "render_qr enc text =
     andThen (qr_matrix enc text) (\<lambda>m.
       Inr (concat (map (\<lambda>y.
              concat (map (\<lambda>x. if qr_modules m ! (y * qr_side m + x) then qr_dark else qr_light) [0..<qr_side m]) @
              qr_reset @ [CHR 0x0A]) [0..<qr_side m])))"

definition pairing_instructions :: string where
  "pairing_instructions =
     ([CHR 0xE6, CHR 0x89, CHR 0x8B, CHR 0xE6, CHR 0x9C, CHR 0xBA, CHR 0xEF, CHR 0xBC, CHR 0x9A, CHR 0xE5,
      CHR 0xBC, CHR 0x80, CHR 0xE5, CHR 0x8F, CHR 0x91, CHR 0xE8, CHR 0x80, CHR 0x85, CHR 0xE9, CHR 0x80,
      CHR 0x89, CHR 0xE9, CHR 0xA1, CHR 0xB9] @ '' '' @ [CHR 0xE2, CHR 0x86, CHR 0x92] @ '' '' @ [CHR 0xE6,
      CHR 0x97, CHR 0xA0, CHR 0xE7, CHR 0xBA, CHR 0xBF, CHR 0xE8, CHR 0xB0, CHR 0x83, CHR 0xE8, CHR 0xAF,
      CHR 0x95] @ '' '' @ [CHR 0xE2, CHR 0x86, CHR 0x92] @ '' '' @ [CHR 0xE4, CHR 0xBD, CHR 0xBF, CHR 0xE7,
      CHR 0x94, CHR 0xA8, CHR 0xE4, CHR 0xBA, CHR 0x8C, CHR 0xE7, CHR 0xBB, CHR 0xB4, CHR 0xE7, CHR 0xA0,
      CHR 0x81, CHR 0xE9, CHR 0x85, CHR 0x8D, CHR 0xE5, CHR 0xAF, CHR 0xB9, CHR 0xE8, CHR 0xAE, CHR 0xBE,
      CHR 0xE5, CHR 0xA4, CHR 0x87, CHR 0xE3, CHR 0x80, CHR 0x82, CHR 0xE9, CHR 0xA6, CHR 0x96, CHR 0xE6,
      CHR 0xAC, CHR 0xA1, CHR 0xE5, CHR 0x90, CHR 0xAF, CHR 0xE7, CHR 0x94, CHR 0xA8, CHR 0xE5, CHR 0x8F,
      CHR 0xAF, CHR 0xE8, CHR 0x83, CHR 0xBD, CHR 0xE8, CHR 0xBF, CHR 0x98, CHR 0xE9, CHR 0x9C, CHR 0x80,
      CHR 0xE7, CHR 0xA1, CHR 0xAE, CHR 0xE8, CHR 0xAE, CHR 0xA4, CHR 0xE4, CHR 0xBF, CHR 0xA1, CHR 0xE4,
      CHR 0xBB, CHR 0xBB, CHR 0xE5, CHR 0xBD, CHR 0x93, CHR 0xE5, CHR 0x89, CHR 0x8D] @ '' Wi'' @
      [CHR 0xE2, CHR 0x80, CHR 0x91] @ ''Fi '' @ [CHR 0xE7, CHR 0xBD, CHR 0x91, CHR 0xE7, CHR 0xBB,
      CHR 0x9C, CHR 0xE3, CHR 0x80, CHR 0x82, CHR 0x0A] @ ''Phone: Developer options '' @ [CHR 0xE2,
      CHR 0x86, CHR 0x92] @ '' Wireless debugging '' @ [CHR 0xE2, CHR 0x86, CHR 0x92] @
      '' Pair device with QR code. The phone may ask you to trust this Wi'' @ [CHR 0xE2, CHR 0x80,
      CHR 0x91] @ ''Fi network the first time.'')"

section \<open>The random text\<close>

lemma ALPHANUMERIC_props: "length ALPHANUMERIC = 62" "distinct ALPHANUMERIC" "list_all is_ascii_alnum ALPHANUMERIC"
  by (simp_all add: ALPHANUMERIC_def is_ascii_alnum_def is_ascii_upper_def is_ascii_lower_def is_ascii_digit_def)

lemma accept_byte_alnum: "accept_byte b = Some c \<Longrightarrow> c \<in> set ALPHANUMERIC"
  using ALPHANUMERIC_props(1) by (auto simp: accept_byte_def split: if_splits)

lemma take_bytes_props:
  "length got < len \<Longrightarrow> \<exists>more. take_bytes len bs got = got @ more \<and> length (got @ more) \<le> len \<and>
     set more \<subseteq> set ALPHANUMERIC \<and> ((\<exists>b \<in> set bs. accept_byte b \<noteq> None) \<longrightarrow> more \<noteq> [])"
proof (induction len bs got rule: take_bytes.induct)
  case (2 len b bs got)
  show ?case
  proof (cases "accept_byte b")
    case None
    with 2 show ?thesis by auto
  next
    case (Some c)
    note c = accept_byte_alnum [OF Some]
    show ?thesis
    proof (cases "length (got @ [c]) = len")
      case True
      with Some c show ?thesis by auto
    next
      case False
      with "2.IH"(2) [OF Some False] "2.prems" obtain more where
        "take_bytes len bs (got @ [c]) = (got @ [c]) @ more" "length ((got @ [c]) @ more) \<le> len"
        "set more \<subseteq> set ALPHANUMERIC" by auto
      with Some False c show ?thesis by (intro exI [of _ "c # more"]) auto
    qed
  qed
qed simp

lemma take_bytes_none: "\<forall>b \<in> set bs. accept_byte b = None \<Longrightarrow> take_bytes len bs got = got"
  by (induction bs) auto

lemma random_loop_spec:
  assumes "random_loop blocks len drawn got = Some (d, s)" and "length got \<le> len" "set got \<subseteq> set ALPHANUMERIC"
  shows "length s = len \<and> set s \<subseteq> set ALPHANUMERIC"
proof -
  have "length got \<le> len \<longrightarrow> set got \<subseteq> set ALPHANUMERIC \<longrightarrow> length (snd x) = len \<and> set (snd x) \<subseteq> set ALPHANUMERIC"
    if "random_loop blocks len drawn got = Some x" for blocks len drawn got x
  proof (rule random_loop.raw_induct [where P = "\<lambda>_ len _ got x. length got \<le> len \<longrightarrow>
      set got \<subseteq> set ALPHANUMERIC \<longrightarrow> length (snd x) = len \<and> set (snd x) \<subseteq> set ALPHANUMERIC", OF _ that], goal_cases)
    case (1 loop blocks len drawn got x)
    show ?case
    proof (cases "length got < len")
      case True
      from take_bytes_props [OF True, of "blocks drawn"] obtain more where
        m: "take_bytes len (blocks drawn) got = got @ more" "length (got @ more) \<le> len" "set more \<subseteq> set ALPHANUMERIC"
        by blast
      with 1(2) True have "loop blocks len (Suc drawn) (got @ more) = Some x" by simp
      from 1(1) [OF this] m show ?thesis by auto
    qed (use 1(2) in auto)
  qed
  from this [OF assms(1)] assms(2,3) show ?thesis by simp
qed

lemma random_loop_returns:
  assumes "\<forall>d. \<exists>e \<ge> d. \<exists>b \<in> set (blocks e). accept_byte b \<noteq> None" and "length got \<le> len"
  shows "\<exists>x. random_loop blocks len drawn got = Some x"
  using assms(2)
proof (induction "len - length got" arbitrary: got drawn rule: less_induct)
  case less
  have step: "\<exists>x. random_loop blocks len d got = Some x"
    if "length got < len" "\<exists>b \<in> set (blocks d). accept_byte b \<noteq> None" for d
  proof -
    from take_bytes_props [OF that(1), of "blocks d"] that(2) obtain more where
      m: "take_bytes len (blocks d) got = got @ more" "length (got @ more) \<le> len" "more \<noteq> []" by blast
    have "\<exists>x. random_loop blocks len (Suc d) (got @ more) = Some x"
    proof (rule less.hyps)
      have "0 < length more" using m(3) by simp
      then show "len - length (got @ more) < len - length got" unfolding length_append using that(1) by linarith
    qed (use m in simp)
    with m(1) that(1) show ?thesis by (simp add: random_loop.simps [of blocks len d got])
  qed
  show ?case
  proof (cases "length got < len")
    case True
    from assms(1) obtain e where e: "e \<ge> drawn" "\<exists>b \<in> set (blocks e). accept_byte b \<noteq> None" by blast
    from e(1) True show ?thesis
    proof (induction drawn rule: inc_induct)
      case base
      with e(2) step show ?case by blast
    next
      case (step d)
      show ?case
      proof (cases "\<exists>b \<in> set (blocks d). accept_byte b \<noteq> None")
        case True
        with \<open>\<And>d. length got < len \<Longrightarrow> \<exists>b \<in> set (blocks d). accept_byte b \<noteq> None \<Longrightarrow> _\<close> step show ?thesis by blast
      next
        case False
        then have "take_bytes len (blocks d) got = got" by (intro take_bytes_none) blast
        with step show ?thesis by (simp add: random_loop.simps [of blocks len d got])
      qed
    qed
  next
    case False
    then show ?thesis by (simp add: random_loop.simps)
  qed
qed

lemma accept_preimage:
  assumes "k < 62"
  shows "{b. accept_byte b = Some (ALPHANUMERIC ! k)} = word_of_nat ` {k, k + 62, k + 124, k + 186}"
proof (intro set_eqI iffI)
  fix b :: "8 word"
  assume "b \<in> {b. accept_byte b = Some (ALPHANUMERIC ! k)}"
  then have b: "unat b < 248" "ALPHANUMERIC ! (unat b mod 62) = ALPHANUMERIC ! k"
    by (auto simp: accept_byte_def ALPHANUMERIC_props split: if_splits)
  then have "unat b mod 62 = k"
    using assms ALPHANUMERIC_props by (metis mod_less_divisor nth_eq_iff_index_eq zero_less_numeral)
  moreover from b(1) have "unat b div 62 \<in> {0, 1, 2, 3}" by (simp add: less_mult_imp_div_less) linarith
  moreover have "unat b = unat b div 62 * 62 + unat b mod 62" by simp
  ultimately have "unat b \<in> {k, k + 62, k + 124, k + 186}" by auto
  moreover have "b = word_of_nat (unat b)" by simp
  ultimately show "b \<in> word_of_nat ` {k, k + 62, k + 124, k + 186}" by blast
next
  fix b :: "8 word"
  assume "b \<in> word_of_nat ` {k, k + 62, k + 124, k + 186}"
  then obtain n where n: "n \<in> {k, k + 62, k + 124, k + 186}" "b = word_of_nat n" by blast
  then have "n = k + 62 * 0 \<or> n = k + 62 * 1 \<or> n = k + 62 * 2 \<or> n = k + 62 * 3" by auto
  then have "n mod 62 = k" using assms by (elim disjE) (simp_all only: mod_mult_self2 mod_less)
  moreover have "n < 248" using n(1) assms by auto
  moreover from \<open>n < 248\<close> n(2) have "unat b = n" by (simp add: unat_of_nat)
  ultimately show "b \<in> {b. accept_byte b = Some (ALPHANUMERIC ! k)}"
    by (simp add: accept_byte_def ALPHANUMERIC_props)
qed

text \<open>
  The pairing password: with a random source that keeps giving acceptable bytes, a secret
  is generated; its password has 12 letters and digits, each value of which is the image of
  exactly four byte values (no letter is likelier than another), and splitting the payload at
  the semicolons, as the phone does, gives back the service name and the password.
\<close>

theorem generate_pairing_secret_sound:
  assumes "\<forall>d. \<exists>e \<ge> d. \<exists>b \<in> set (blocks e). accept_byte b \<noteq> None"
  shows "\<exists>s. generate_pairing_secret blocks = Some s \<and> length (password s) = 12 \<and>
    (\<forall>c \<in> set (password s). c \<in> set ALPHANUMERIC \<and> card {b. accept_byte b = Some c} = 4) \<and>
    str_split CHR '';'' (payload s) = [''WIFI:T:ADB'', ''S:'' @ service_name s, ''P:'' @ password s, [], []]"
proof -
  obtain d1 sfx where r1: "random_text blocks 0 10 = Some (d1, sfx)"
    using random_loop_returns [OF assms, of "[]" 10 0] by (auto simp: random_text_def)
  obtain d2 pw where r2: "random_text blocks d1 PASSWORD_LENGTH = Some (d2, pw)"
    using random_loop_returns [OF assms, of "[]" PASSWORD_LENGTH d1] by (auto simp: random_text_def)
  let ?name = "''studio-'' @ sfx"
  have s: "generate_pairing_secret blocks =
      Some \<lparr>service_name = ?name, password = pw, payload = pairing_payload ?name pw\<rparr>"
    by (simp add: generate_pairing_secret_def r1 r2 Let_def)
  have sfx: "set sfx \<subseteq> set ALPHANUMERIC" and pw: "length pw = 12" "set pw \<subseteq> set ALPHANUMERIC"
    using random_loop_spec r1 r2 by (auto simp: random_text_def PASSWORD_LENGTH_def)
  have four: "card {b. accept_byte b = Some c} = 4" if "c \<in> set ALPHANUMERIC" for c
  proof -
    from that obtain k where k: "k < 62" "c = ALPHANUMERIC ! k"
      by (auto simp: in_set_conv_nth ALPHANUMERIC_props)
    have "inj_on (word_of_nat :: nat \<Rightarrow> 8 word) {..<256}"
      by (auto simp: inj_on_def word_of_nat_eq_iff take_bit_nat_eq_self)
    then have "inj_on (word_of_nat :: nat \<Rightarrow> 8 word) {k, k + 62, k + 124, k + 186}"
      by (rule inj_on_subset) (use k(1) in auto)
    with k accept_preimage [OF k(1)] show ?thesis by (simp add: card_image)
  qed
  have semi: "\<forall>c \<in> set x. c \<noteq> CHR '';''" if "set x \<subseteq> set ALPHANUMERIC" for x
    using that by (auto simp: ALPHANUMERIC_def)
  have "str_split CHR '';'' (pairing_payload ?name pw) = [''WIFI:T:ADB'', ''S:'' @ ?name, ''P:'' @ pw, [], []]"
    using splitBy_append [of "''WIFI:T:ADB''" "\<lambda>c. c = CHR '';''" "CHR '';''" "''S:'' @ ?name @ '';P:'' @ pw @ '';;''"]
      splitBy_append [of "''S:'' @ ?name" "\<lambda>c. c = CHR '';''" "CHR '';''" "''P:'' @ pw @ '';;''"]
      splitBy_append [of "''P:'' @ pw" "\<lambda>c. c = CHR '';''" "CHR '';''" "'';''"] semi [OF sfx] semi [OF pw(2)]
    by (simp add: pairing_payload_def str_split_def)
  with s pw four show ?thesis by auto
qed

theorem generate_pairing_secret_sound_witness:
  "\<exists>s. generate_pairing_secret (\<lambda>_. replicate 32 65) = Some s \<and> length (password s) = 12 \<and>
    (\<forall>c \<in> set (password s). c \<in> set ALPHANUMERIC \<and> card {b. accept_byte b = Some c} = 4) \<and>
    str_split CHR '';'' (payload s) = [''WIFI:T:ADB'', ''S:'' @ service_name s, ''P:'' @ password s, [], []]"
  by (rule generate_pairing_secret_sound) (auto simp: accept_byte_def)

section \<open>Redaction and matching\<close>

lemma summary_hides:
  assumes "pw \<noteq> []" "CHR ''['' \<notin> set pw" "CHR '']'' \<notin> set pw" "\<not> str_contains pw ''redacted''"
  shows "\<not> str_contains pw (stderr_summary stderr pw) \<and> length (str_chars (stderr_summary stderr pw)) \<le> 512"
proof
  have eq: "''[redacted]'' = CHR ''['' # ''redacted'' @ [CHR '']'']" by simp
  have s: "stderr_summary stderr pw = concat (take 512 (str_chars (str_replace pw ''[redacted]'' (str_trim stderr))))"
    using assms(1) by (simp add: stderr_summary_def Let_def del: str_replace.simps)
  show "\<not> str_contains pw (stderr_summary stderr pw)"
    unfolding s eq using str_contains_take_chars str_replace_removes [OF assms] by blast
  have "str_chars (concat (take n (str_chars x))) = take n (str_chars x)" for n x
    using chars_ok_str_chars [of x] by (intro str_chars_concat) (metis append_Nil append_take_drop_id chars_ok_part)
  then show "length (str_chars (stderr_summary stderr pw)) \<le> 512" unfolding s by simp
qed

text \<open>
  Error texts do not leak the password: the summary of what \<open>adb pair\<close> printed never
  contains it, wherever it stood, and has at most 512 characters; this for every password that
  is free of brackets and not part of the marker's text, thus for all generated ones.
\<close>

theorem stderr_summary_hides:
  assumes "pw \<noteq> []" "CHR ''['' \<notin> set pw" "CHR '']'' \<notin> set pw" "\<not> str_contains pw ''redacted''"
  shows "\<not> str_contains pw (stderr_summary stderr pw) \<and> length (str_chars (stderr_summary stderr pw)) \<le> 512"
  by (rule summary_hides [OF assms])

theorem stderr_summary_hides_witness:
  "\<not> str_contains ''s3cret'' (stderr_summary ''bad code s3cret, retry'' ''s3cret'') \<and>
   length (str_chars (stderr_summary ''bad code s3cret, retry'' ''s3cret'')) \<le> 512"
  by (rule stderr_summary_hides) (simp_all add: str_contains_def)

lemma serial_matches_guid_iff: "serial_matches_guid s g \<longleftrightarrow> s = g \<or> (\<exists>t. s = g @ CHR ''.'' # t)"
  by (auto simp: serial_matches_guid_def starts_with_iff)

lemma find_guid_form: "find_guid s = Some g \<Longrightarrow> CHR ''.'' \<notin> set g"
proof -
  assume "find_guid s = Some g"
  then obtain w where w: "guid_of_word w = Some g" by (auto simp: find_guid_def dest: findMap_Some)
  have "\<not> (is_ascii_alnum CHR ''.'' \<or> CHR ''.'' = CHR ''-'')"
    by (simp add: is_ascii_alnum_def is_ascii_upper_def is_ascii_lower_def is_ascii_digit_def)
  with w show ?thesis
    by (auto simp: guid_of_word_def list_all_iff split: option.splits if_splits)
qed

text \<open>
  A serial belongs to at most one paired device: GUIDs read from the output of \<open>adb pair\<close>
  that match the same serial are equal (one GUID being a prefix of another does not confuse
  them).
\<close>

theorem serial_identifies_guid:
  assumes "find_guid out1 = Some g1" and "find_guid out2 = Some g2"
    and "serial_matches_guid s g1" and "serial_matches_guid s g2"
  shows "g1 = g2"
proof -
  have pre: "takeWhile (\<lambda>c. c \<noteq> CHR ''.'') s = g"
    if "CHR ''.'' \<notin> set g" "serial_matches_guid s g" for g
  proof -
    from that(2) consider "s = g" | t where "s = g @ CHR ''.'' # t" by (auto simp: serial_matches_guid_iff)
    then show ?thesis
      using that(1) by cases (auto simp: takeWhile_eq_all_conv takeWhile_append)
  qed
  from pre [OF find_guid_form [OF assms(1)] assms(3)] pre [OF find_guid_form [OF assms(2)] assms(4)]
  show ?thesis by simp
qed

theorem serial_identifies_guid_witness: "''adb-R5-x1'' = ''adb-R5-x1''"
  by (rule serial_identifies_guid [where s = "''adb-R5-x1._adb-tls-connect._tcp''"
        and ?out1.0 = "''Paired [guid=adb-R5-x1]''" and ?out2.0 = "''[guid=adb-R5-x1] ok''"])
     (simp_all add: find_guid_def guid_of_word_def str_split_ws_ascii ascii_def strip_prefix_def strip_suffix_def
        ends_with_def is_ws_def ws_ascii_def is_ascii_alnum_def is_ascii_upper_def is_ascii_lower_def is_ascii_digit_def
        serial_matches_guid_def)

section \<open>Runs of the round state machine\<close>

text \<open>
  \<open>round_run r h r'\<close>: from \<open>r\<close>, the events of \<open>h\<close> are observed one after the other, with the
  actions they returned; other parts of the program may set \<open>pair_in_flight\<close> while the round is
  open (they start and reap the pairing processes).
\<close>

inductive round_run :: "RoundState \<Rightarrow> (RoundEvent \<times> RoundAction) list \<Rightarrow> RoundState \<Rightarrow> bool" where
  start: "round_run r [] r"
| event: "round_run r h s \<Longrightarrow> observe e s = (t, a) \<Longrightarrow> round_run r (h @ [(e, a)]) t"
| flight: "round_run r h s \<Longrightarrow> \<not> rd_closed s \<Longrightarrow> round_run r h (s\<lparr>pair_in_flight := b\<rparr>)"

fun is_close :: "RoundAction \<Rightarrow> bool" where
  "is_close (Close _) = True"
| "is_close _ = False"

inductive_cases close_roundE: "round_run r [] s"
inductive_simps round_run_empty: "round_run r [] s"

lemma observe_open:
  assumes "\<not> rd_closed s" "observe e s = (t, a)"
  shows "(is_close a \<longleftrightarrow> rd_closed t) \<and> (is_close a \<longrightarrow> rd_id t = rd_id s + 1 \<and> \<not> pair_in_flight t) \<and>
    (\<not> is_close a \<longrightarrow> a = WaitForPair \<and> e = EvServiceLost \<and> pair_in_flight s \<and> rd_id t = rd_id s)"
  using assms by (cases e) (auto simp: observe_def close_round_def split: if_splits)

lemma observe_closed: "rd_closed s \<Longrightarrow> observe e s = (s, IgnoredAfterClose)"
  by (simp add: observe_def)


definition cause :: "RoundEvent \<Rightarrow> CloseReason" where
  "cause e = (case e of EvServiceLost \<Rightarrow> CServiceLost | EvPairSucceeded _ \<Rightarrow> CSuccess | EvPairFailed \<Rightarrow> CPairFailed
     | EvPairTimedOut \<Rightarrow> CPairTimedOut | EvTimeout \<Rightarrow> CTimeout | EvCancelled \<Rightarrow> CCancelled)"

text \<open>
  Why a round ended is attributed right: a pairing that succeeds wins even after its
  service was seen to disappear; a failure after that is put down to the lost service; else to
  the failure itself, and event and error always name the same cause.
\<close>

theorem round_attribution:
  assumes "\<not> rd_closed r" and "pair_in_flight r" and "observe EvServiceLost r = (s, a)"
  shows "a = WaitForPair \<and> snd (observe (EvPairSucceeded g) s) = Close CSuccess \<and>
    rd_guid (fst (observe (EvPairSucceeded g) s)) = Some g \<and>
    snd (observe EvPairFailed s) = Close CServiceLost \<and> snd (observe EvPairTimedOut s) = Close CServiceLost \<and>
    (\<not> service_lost_pending r \<longrightarrow> (\<forall>e. e \<noteq> EvServiceLost \<longrightarrow> snd (observe e r) = Close (cause e))) \<and>
    (\<forall>lost late first. case classify_round_failure lost late first of (e, w) \<Rightarrow>
       (e = EvServiceLost \<longrightarrow> w = WServiceLost) \<and> (e = EvPairTimedOut \<longrightarrow> w = WTimedOut) \<and>
       (e = EvPairFailed \<longrightarrow> w = first) \<and> e \<in> {EvServiceLost, EvPairTimedOut, EvPairFailed})"
  using assms
  by (auto simp: observe_def close_round_def classify_round_failure_def cause_def split: RoundEvent.splits)

theorem round_attribution_witness:
  "snd (observe (EvPairSucceeded ''adb-1'') (fst (observe EvServiceLost ((round_new 1)\<lparr>pair_in_flight := True\<rparr>)))) =
     Close CSuccess \<and>
   snd (observe EvPairFailed (fst (observe EvServiceLost ((round_new 1)\<lparr>pair_in_flight := True\<rparr>)))) = Close CServiceLost"
  using round_attribution [of "(round_new 1)\<lparr>pair_in_flight := True\<rparr>"
      "fst (observe EvServiceLost ((round_new 1)\<lparr>pair_in_flight := True\<rparr>))" WaitForPair "''adb-1''"]
  by (simp add: round_new_def observe_def close_round_def)

section \<open>The QR matrix\<close>

lemma fold_update_miss: "\<forall>p \<in> set ps. f p \<noteq> i \<Longrightarrow> fold (\<lambda>p ms. ms[f p := g p]) ps ms ! i = ms ! i"
  by (induction ps arbitrary: ms) auto

lemma fold_update_length: "length (fold (\<lambda>p ms. ms[f p := g p]) ps ms) = length ms"
  by (induction ps arbitrary: ms) auto

lemma fold_update_hit:
  "inj_on f (set ps) \<Longrightarrow> p \<in> set ps \<Longrightarrow> f p < length ms \<Longrightarrow> fold (\<lambda>p ms. ms[f p := g p]) ps ms ! f p = g p"
proof (induction ps arbitrary: ms)
  case (Cons q ps)
  show ?case
  proof (cases "p \<in> set ps")
    case True
    with Cons show ?thesis by (auto simp: inj_on_def)
  next
    case False
    with Cons.prems have "p = q" "\<forall>r \<in> set ps. f r \<noteq> f q" by (auto simp: inj_on_def)
    with Cons.prems show ?thesis using fold_update_miss [of ps f "f q" g "ms[f q := g q]"] by simp
  qed
qed simp

lemma cell_eq:
  assumes "(b::nat) < n" "d < n"
  shows "a * n + b = c * n + d \<longleftrightarrow> a = c \<and> b = d"
proof
  assume e: "a * n + b = c * n + d"
  have "(a * n + b) div n = a" "(c * n + d) div n = c" using assms by simp_all
  with e show "a = c \<and> b = d" by simp
qed simp

lemma cell_bound: "y < n \<Longrightarrow> x < n \<Longrightarrow> y * n + x < n * (n::nat)"
proof -
  assume "y < n" "x < n"
  then have "y * n + x < Suc y * n" by simp
  also have "\<dots> \<le> n * n" using \<open>y < n\<close> by (intro mult_le_mono1) simp
  finally show ?thesis .
qed

definition cell_of :: "nat \<Rightarrow> nat \<times> nat \<Rightarrow> nat" where
  "cell_of w p = (fst p + QUIET) * (w + QUIET * 2) + (snd p + QUIET)"

lemma set_modules_fold:
  "set_modules w cols ms = fold (\<lambda>p ms. ms[cell_of w p := cols ! (fst p * w + snd p)]) (List.product [0..<w] [0..<w]) ms"
  unfolding set_modules_def Let_def cell_of_def
  by (intro fold_cong) (auto simp: add.assoc)

lemma cell_of_inj: "inj_on (cell_of w) ({..<w} \<times> {..<w})"
proof (rule inj_onI)
  fix p q assume "p \<in> {..<w} \<times> {..<w}" "q \<in> {..<w} \<times> {..<w}" "cell_of w p = cell_of w q"
  then show "p = q"
    using cell_eq [of "snd p + QUIET" "w + QUIET * 2" "snd q + QUIET" "fst p + QUIET" "fst q + QUIET"]
    by (auto simp: cell_of_def QUIET_def prod_eq_iff)
qed

lemma set_product: "set (List.product [0..<w] [0..<w]) = {..<w} \<times> {..<w}"
  by auto

text \<open>
  The matrix that is shown is the encoder's symbol, module by module, inside a quiet zone
  of four light modules on every side: nothing of the symbol is lost, moved or overwritten.
\<close>

theorem qr_matrix_frames_symbol:
  assumes "enc text = Inr (w, cols)" and "y < w + 8" and "x < w + 8"
  shows "\<exists>m. qr_matrix enc text = Inr m \<and> qr_side m = w + 8 \<and> length (qr_modules m) = (w + 8) * (w + 8) \<and>
    (qr_modules m ! (y * (w + 8) + x) \<longleftrightarrow>
       4 \<le> y \<and> y < w + 4 \<and> 4 \<le> x \<and> x < w + 4 \<and> cols ! ((y - 4) * w + (x - 4)))"
proof -
  let ?s = "w + QUIET * 2"
  let ?z = "replicate (?s * ?s) False"
  let ?ms = "set_modules w cols ?z"
  have s: "?s = w + 8" by (simp add: QUIET_def)
  have m: "qr_matrix enc text = Inr \<lparr>qr_side = ?s, qr_modules = ?ms\<rparr>"
    using assms(1) by (simp add: qr_matrix_def Let_def)
  have len: "length ?ms = ?s * ?s" by (simp add: set_modules_fold fold_update_length)
  have b: "y * ?s + x < ?s * ?s" using assms(2,3) by (intro cell_bound) (simp_all add: QUIET_def)
  have n: "?ms ! (y * ?s + x) \<longleftrightarrow> 4 \<le> y \<and> y < w + 4 \<and> 4 \<le> x \<and> x < w + 4 \<and> cols ! ((y - 4) * w + (x - 4))"
  proof (cases "4 \<le> y \<and> y < w + 4 \<and> 4 \<le> x \<and> x < w + 4")
    case True
    then have c: "cell_of w (y - 4, x - 4) = y * ?s + x" by (simp add: cell_of_def QUIET_def)
    have "?ms ! cell_of w (y - 4, x - 4) = cols ! (fst (y - 4, x - 4) * w + snd (y - 4, x - 4))"
      unfolding set_modules_fold
      by (rule fold_update_hit) (use True b c cell_of_inj in \<open>auto simp: atLeast0LessThan\<close>)
    with True c show ?thesis by simp
  next
    case False
    have "\<forall>p \<in> set (List.product [0..<w] [0..<w]). cell_of w p \<noteq> y * ?s + x"
    proof
      fix p assume "p \<in> set (List.product [0..<w] [0..<w])"
      then have "fst p < w" "snd p < w" by auto
      then show "cell_of w p \<noteq> y * ?s + x"
        using cell_eq [of "snd p + QUIET" ?s x "fst p + QUIET" y] False assms(3)
        by (auto simp: cell_of_def QUIET_def)
    qed
    with False b show ?thesis unfolding set_modules_fold by (simp only: fold_update_miss nth_replicate) auto
  qed
  show ?thesis
    by (rule exI [of _ "\<lparr>qr_side = ?s, qr_modules = ?ms\<rparr>"]) (use m len n in \<open>simp add: s\<close>)
qed

theorem qr_matrix_frames_symbol_witness:
  "\<exists>m. qr_matrix (\<lambda>_. Inr (1, [True])) ''x'' = Inr m \<and> qr_side m = 1 + 8 \<and> length (qr_modules m) = (1 + 8) * (1 + 8) \<and>
    (qr_modules m ! (4 * (1 + 8) + 4) \<longleftrightarrow>
       (4::nat) \<le> 4 \<and> (4::nat) < 1 + 4 \<and> (4::nat) \<le> 4 \<and> (4::nat) < 1 + 4 \<and> [True] ! ((4 - 4) * 1 + (4 - 4)))"
  by (rule qr_matrix_frames_symbol) simp_all

section \<open>Merging the serials of one device\<close>

text \<open>
  The pairs of serials with the same hardware identity, from the list of (serial, identity)
  that was read; an unknown identity (\<open>None\<close>) is paired with nothing.
\<close>

fun pairs_of_read :: "(string \<times> string option) list \<Rightarrow> (string \<times> string) list" where
  "pairs_of_read [] = []"
| "pairs_of_read ((s, None) # rest) = pairs_of_read rest"
| "pairs_of_read ((s, Some i) # rest) =
     map (\<lambda>(t, _). (s, t)) (filter (\<lambda>(_, j). j = Some i) rest) @ pairs_of_read rest"

lemma pairs_of_read_sound:
  "distinct (map fst rs) \<Longrightarrow> (a, b) \<in> set (pairs_of_read rs) \<Longrightarrow>
   \<exists>i. (a, Some i) \<in> set rs \<and> (b, Some i) \<in> set rs \<and> a \<noteq> b"
proof (induction rs rule: pairs_of_read.induct)
  case (3 s i rest)
  from "3.prems"(2) consider "a = s" "(b, Some i) \<in> set rest" | "(a, b) \<in> set (pairs_of_read rest)" by auto
  then show ?case
  proof cases
    case 1
    moreover have "s \<notin> fst ` set rest" using "3.prems"(1) by simp
    ultimately show ?thesis by (metis fst_conv imageI list.set_intros(1,2))
  next
    case 2
    with 3 show ?thesis by auto
  qed
qed auto

lemma pairs_of_read_complete:
  "(a, Some i) \<in> set rs \<Longrightarrow> (b, Some i) \<in> set rs \<Longrightarrow> a \<noteq> b \<Longrightarrow>
   (a, b) \<in> set (pairs_of_read rs) \<or> (b, a) \<in> set (pairs_of_read rs)"
proof (induction rs rule: pairs_of_read.induct)
  case (3 s j rest)
  show ?case
  proof (cases "(a, Some i) = (s, Some j) \<or> (b, Some i) = (s, Some j)")
    case True
    with "3.prems" have "(b, Some j) \<in> set rest \<and> a = s \<or> (a, Some j) \<in> set rest \<and> b = s" by auto
    then show ?thesis by (auto simp: image_iff)
  next
    case False
    with 3 show ?thesis by auto
  qed
qed auto

definition adb_named :: "Device \<Rightarrow> bool" where
  "adb_named d \<longleftrightarrow> starts_with ''adb-'' (dev_serial d)"

definition same_key :: "('k \<Rightarrow> string option) \<Rightarrow> 'k \<Rightarrow> 'k \<Rightarrow> bool" where
  "same_key key e d \<longleftrightarrow> key e = key d \<and> key d \<noteq> None"

lemma same_device_key:
  assumes "distinct (map dev_serial ds)" "e \<in> set ds" "d \<in> set ds" "e \<noteq> d"
  shows "same_device (pairs_of_read (map (\<lambda>d. (dev_serial d, ident (dev_serial d))) ds)) e d \<longleftrightarrow>
    same_key (\<lambda>d. ident (dev_serial d)) e d"
proof -
  define read where "read = map (\<lambda>d. (dev_serial d, ident (dev_serial d))) ds"
  have dist: "distinct (map fst read)" using assms(1) by (simp add: read_def comp_def)
  have ne: "dev_serial e \<noteq> dev_serial d" using assms by (auto simp: distinct_map inj_on_def)
  have mem: "(s, Some i) \<in> set read \<Longrightarrow> ident s = Some i" for s i by (auto simp: read_def)
  have read: "(dev_serial x, Some i) \<in> set read" if "x \<in> set ds" "ident (dev_serial x) = Some i" for x i
    using that by (auto simp: read_def image_iff intro!: bexI [of _ x])
  have dev: "same_device (pairs_of_read read) e d \<longleftrightarrow>
      (dev_serial e, dev_serial d) \<in> set (pairs_of_read read) \<or> (dev_serial d, dev_serial e) \<in> set (pairs_of_read read)"
    by (auto simp: same_device_def)
  show ?thesis
    unfolding read_def [symmetric] dev same_key_def
  proof
    assume "(dev_serial e, dev_serial d) \<in> set (pairs_of_read read) \<or> (dev_serial d, dev_serial e) \<in> set (pairs_of_read read)"
    then obtain i where "(dev_serial e, Some i) \<in> set read" "(dev_serial d, Some i) \<in> set read"
      using pairs_of_read_sound [OF dist] by blast
    then show "ident (dev_serial e) = ident (dev_serial d) \<and> ident (dev_serial d) \<noteq> None" using mem by simp
  next
    assume "ident (dev_serial e) = ident (dev_serial d) \<and> ident (dev_serial d) \<noteq> None"
    then obtain i where "ident (dev_serial e) = Some i" "ident (dev_serial d) = Some i" by auto
    from pairs_of_read_complete [OF read [OF assms(2) this(1)] read [OF assms(3) this(2)] ne]
    show "(dev_serial e, dev_serial d) \<in> set (pairs_of_read read) \<or> (dev_serial d, dev_serial e) \<in> set (pairs_of_read read)" .
  qed
qed

definition merged :: "(Device \<Rightarrow> string option) \<Rightarrow> Device list \<Rightarrow> Device list \<Rightarrow> bool" where
  "merged key ds r \<longleftrightarrow> set r \<subseteq> set ds \<and> distinct r \<and>
     (\<forall>x \<in> set r. \<forall>y \<in> set r. same_key key x y \<longrightarrow> x = y) \<and>
     (\<forall>d \<in> set ds. \<exists>e \<in> set r. (e = d \<or> same_key key e d) \<and> (adb_named d \<longrightarrow> adb_named e))"

lemma merged_step:
  assumes m: "merged key ds r" and d: "d \<notin> set ds"
    and eq: "\<forall>e \<in> set r. same_device serials e d \<longleftrightarrow> same_key key e d"
  shows "merged key (ds @ [d]) (dedup_step serials d r)"
proof (cases "position (\<lambda>e. same_device serials e d) r")
  case None
  then have no: "\<forall>e \<in> set r. \<not> same_key key e d" "\<forall>e \<in> set r. \<not> same_key key d e"
    using eq by (auto simp: position_None same_key_def)
  have step: "dedup_step serials d r = r @ [d]" using None by (simp add: dedup_step_def)
  from m have m1: "set r \<subseteq> set ds" "distinct r" "\<forall>x \<in> set r. \<forall>y \<in> set r. same_key key x y \<longrightarrow> x = y"
    and m2: "\<forall>d \<in> set ds. \<exists>e \<in> set r. (e = d \<or> same_key key e d) \<and> (adb_named d \<longrightarrow> adb_named e)"
    by (auto simp: merged_def)
  have "d \<notin> set r" using m1(1) d by blast
  then have "distinct (r @ [d])" using m1(2) by simp
  moreover have "\<forall>x \<in> set (r @ [d]). \<forall>y \<in> set (r @ [d]). same_key key x y \<longrightarrow> x = y" using m1(3) no by auto
  moreover have "\<forall>g \<in> set (ds @ [d]). \<exists>e \<in> set (r @ [d]). (e = g \<or> same_key key e g) \<and> (adb_named g \<longrightarrow> adb_named e)"
    using m2 by auto
  moreover have "set (r @ [d]) \<subseteq> set (ds @ [d])" using m1(1) by auto
  ultimately show ?thesis unfolding step merged_def by blast
next
  case (Some i)
  then have i: "i < length r" "same_device serials (r ! i) d" by (auto dest: position_Some)
  then have k: "same_key key (r ! i) d" using eq by simp
  show ?thesis
  proof (cases "starts_with ''adb-'' (dev_serial d) \<and> \<not> starts_with ''adb-'' (dev_serial (r ! i))")
    case False
    then have step: "dedup_step serials d r = r" using Some by (auto simp: dedup_step_def)
    from False have "adb_named d \<longrightarrow> adb_named (r ! i)" by (auto simp: adb_named_def)
    with m k i(1) nth_mem [OF i(1)] show ?thesis unfolding step merged_def by auto
  next
    case True
    then have step: "dedup_step serials d r = r[i := d]" using Some by (simp add: dedup_step_def)
    from m have m1: "set r \<subseteq> set ds" "distinct r" "\<forall>x \<in> set r. \<forall>y \<in> set r. same_key key x y \<longrightarrow> x = y"
      and m2: "\<forall>d \<in> set ds. \<exists>e \<in> set r. (e = d \<or> same_key key e d) \<and> (adb_named d \<longrightarrow> adb_named e)"
      by (auto simp: merged_def)
    have rest: "x = r ! i" if "x \<in> set r" "same_key key x d" for x
      using m1(3) that k nth_mem [OF i(1)] by (auto simp: same_key_def)
    have set_u: "set (r[i := d]) = insert d (set r - {r ! i})"
      using set_update_distinct [OF m1(2) i(1)] .
    have dn: "d \<notin> set r" using m1(1) d by auto
    have "distinct (r[i := d])" using m1(2) dn by (simp add: distinct_list_update)
    moreover have "\<forall>x \<in> set (r[i := d]). \<forall>y \<in> set (r[i := d]). same_key key x y \<longrightarrow> x = y"
    proof (intro ballI impI)
      fix x y assume x: "x \<in> set (r[i := d])" and y: "y \<in> set (r[i := d])" and xy: "same_key key x y"
      from xy have yx: "same_key key y x" by (simp add: same_key_def)
      show "x = y"
      proof (cases "x = d \<or> y = d")
        case True
        then show ?thesis using rest [of x] rest [of y] x y xy yx unfolding set_u by blast
      next
        case False
        then show ?thesis using m1(3) x y xy unfolding set_u by blast
      qed
    qed
    moreover have "\<exists>e \<in> set (r[i := d]). (e = g \<or> same_key key e g) \<and> (adb_named g \<longrightarrow> adb_named e)"
      if "g \<in> set (ds @ [d])" for g
    proof (cases "g = d")
      case False
      with that m2 obtain e where e: "e \<in> set r" "e = g \<or> same_key key e g" "adb_named g \<longrightarrow> adb_named e" by auto
      show ?thesis
      proof (cases "e = r ! i")
        case True
        have "adb_named d" using \<open>_ \<and> _\<close> by (simp add: adb_named_def)
        moreover have "same_key key d g" using True e(2) k by (auto simp: same_key_def)
        ultimately show ?thesis unfolding set_u by blast
      next
        case False
        with e show ?thesis unfolding set_u by blast
      qed
    qed (auto simp: set_u)
    ultimately show ?thesis using m1(1) unfolding step merged_def set_u by auto
  qed
qed

lemma merged_all:
  assumes "distinct (map dev_serial ds)"
  shows "merged (\<lambda>d. ident (dev_serial d)) ds
    (deduplicate_devices ds (pairs_of_read (map (\<lambda>d. (dev_serial d, ident (dev_serial d))) ds)))"
proof -
  let ?serials = "pairs_of_read (map (\<lambda>d. (dev_serial d, ident (dev_serial d))) ds)"
  let ?key = "\<lambda>d. ident (dev_serial d)"
  have "set xs \<subseteq> set ds \<Longrightarrow> distinct (map dev_serial xs) \<Longrightarrow> merged ?key xs (fold (dedup_step ?serials) xs [])" for xs
  proof (induction xs rule: rev_induct)
    case Nil
    show ?case by (simp add: merged_def)
  next
    case (snoc d xs)
    then have m: "merged ?key xs (fold (dedup_step ?serials) xs [])" and d: "d \<notin> set xs" "d \<in> set ds" by auto
    have "\<forall>e \<in> set (fold (dedup_step ?serials) xs []). same_device ?serials e d \<longleftrightarrow> same_key ?key e d"
    proof
      fix e assume "e \<in> set (fold (dedup_step ?serials) xs [])"
      with m have "e \<in> set xs" by (auto simp: merged_def)
      with snoc.prems(1) d same_device_key [OF assms, of e d] show "same_device ?serials e d \<longleftrightarrow> same_key ?key e d" by auto
    qed
    from merged_step [OF m d(1) this] show ?case by simp
  qed
  from this [OF subset_refl assms] show ?thesis by (simp add: deduplicate_devices_def)
qed

text \<open>
  A phone that is connected twice (by cable and wirelessly, under two serials) is shown
  once: after merging on the identities that were read, every device is shown, no two shown
  entries have the same known identity, devices of unknown identity are never merged, and the
  entry kept is one with a wireless \<open>adb-\<close> name whenever the device has one.
\<close>

theorem deduplicate_one_per_identity:
  assumes "distinct (map dev_serial ds)"
    and "r = deduplicate_devices ds (pairs_of_read (map (\<lambda>d. (dev_serial d, ident (dev_serial d))) ds))"
  shows "set r \<subseteq> set ds \<and> distinct r \<and>
    (\<forall>x \<in> set r. \<forall>y \<in> set r. ident (dev_serial x) = ident (dev_serial y) \<and> ident (dev_serial x) \<noteq> None \<longrightarrow> x = y) \<and>
    (\<forall>d \<in> set ds. ident (dev_serial d) = None \<longrightarrow> d \<in> set r) \<and>
    (\<forall>d \<in> set ds. \<exists>e \<in> set r. (e = d \<or> ident (dev_serial e) = ident (dev_serial d)) \<and>
       (starts_with ''adb-'' (dev_serial d) \<longrightarrow> starts_with ''adb-'' (dev_serial e)))"
proof -
  from merged_all [OF assms(1), of ident] have m: "merged (\<lambda>d. ident (dev_serial d)) ds r" by (simp add: assms(2))
  then have all: "\<exists>e \<in> set r. (e = d \<or> same_key (\<lambda>d. ident (dev_serial d)) e d) \<and> (adb_named d \<longrightarrow> adb_named e)"
    if "d \<in> set ds" for d using that by (simp add: merged_def)
  have "d \<in> set r" if "d \<in> set ds" "ident (dev_serial d) = None" for d
    using all [OF that(1)] that(2) by (auto simp: same_key_def)
  moreover have "\<exists>e \<in> set r. (e = d \<or> ident (dev_serial e) = ident (dev_serial d)) \<and>
       (starts_with ''adb-'' (dev_serial d) \<longrightarrow> starts_with ''adb-'' (dev_serial e))" if "d \<in> set ds" for d
    using all [OF that] by (auto simp: same_key_def adb_named_def)
  moreover have "set r \<subseteq> set ds \<and> distinct r" using m by (simp add: merged_def)
  moreover have "\<forall>x \<in> set r. \<forall>y \<in> set r. ident (dev_serial x) = ident (dev_serial y) \<and> ident (dev_serial x) \<noteq> None \<longrightarrow> x = y"
    using m unfolding merged_def same_key_def by metis
  ultimately show ?thesis by blast
qed

definition dev0 :: "string \<Rightarrow> Device" where
  "dev0 s = \<lparr>dev_serial = s, dev_model = None, dev_state = Device, dev_transport = Usb\<rparr>"

theorem deduplicate_one_per_identity_witness:
  "set (deduplicate_devices [dev0 ''R5'', dev0 ''adb-R5''] (pairs_of_read [(''R5'', Some ''i''), (''adb-R5'', Some ''i'')]))
     \<subseteq> set [dev0 ''R5'', dev0 ''adb-R5''] \<and>
   (\<exists>e \<in> set (deduplicate_devices [dev0 ''R5'', dev0 ''adb-R5''] (pairs_of_read [(''R5'', Some ''i''), (''adb-R5'', Some ''i'')])).
      starts_with ''adb-'' (dev_serial e))"
  using deduplicate_one_per_identity [of "[dev0 ''R5'', dev0 ''adb-R5'']" _ "\<lambda>_. Some ''i''", OF _ refl]
  by (simp add: dev0_def deduplicate_devices_def dedup_step_def same_device_def)

end
