(* ===== verification/WirelessAdb.thy ===== *)
theory WirelessAdb
  imports WirelessData
begin

text \<open>
  The crate \<open>quadcontrol-android\<close>, \<open>wireless.rs\<close>, second part: the bounded \<open>adb\<close> commands
  of the pairing flow (\<open>run_adb\<close> and its users) and the pairing process \<open>adb pair\<close>, which
  gets the password on its standard input. A result \<open>None\<close> means that an operation blocks for
  ever (or, for a pairing process polled after its end, panics).
\<close>

section \<open>Collecting a child\<close>

text \<open>\<open>kill\<close>, \<open>wait\<close>, and the joins of the reader threads that are still there.\<close>

definition join_both :: "bool \<Rightarrow> bool \<Rightarrow> clock \<Rightarrow> proc \<Rightarrow> clock option" where
  "join_both out err c p =
     (case (if out then join_pipe (out_chunks p) c p else Some c) of
        None \<Rightarrow> None
      | Some c \<Rightarrow> if err then join_pipe (err_chunks p) c p else Some c)"

definition kill_wait_join :: "bool \<Rightarrow> bool \<Rightarrow> clock \<Rightarrow> proc \<Rightarrow>
    (clock \<times> proc \<times> (io_error + unit) \<times> (io_error + int option)) option" where
  "kill_wait_join out err c p =
     (let (p, killed) = os_kill (now c) p in
      case os_wait c p of
        None \<Rightarrow> None
      | Some (c, p, waited) \<Rightarrow> map_option (\<lambda>c. (c, p, killed, waited)) (join_both out err c p))"

definition capture_all :: "(io_error + string) list \<Rightarrow> WirelessError + string \<times> bool" where
  "capture_all chunks = mapErr WIo (capture_loop WL_OUTPUT_LIMIT [] False chunks)"

text \<open>
  Joining the two readers of a child that exited: the first error wins, before the second
  reader is joined.
\<close>

definition finish_output :: "clock \<Rightarrow> proc \<Rightarrow> int option \<Rightarrow> (clock \<times> (WirelessError + int \<times> string \<times> string)) option" where
  "finish_output c p status =
     (case join_pipe (out_chunks p) c p of
        None \<Rightarrow> None
      | Some c \<Rightarrow>
     (case capture_all (out_chunks p) of
        Inl e \<Rightarrow> Some (c, Inl e)
      | Inr (out, out_truncated) \<Rightarrow>
     (case join_pipe (err_chunks p) c p of
        None \<Rightarrow> None
      | Some c \<Rightarrow>
     (case capture_all (err_chunks p) of
        Inl e \<Rightarrow> Some (c, Inl e)
      | Inr (err, err_truncated) \<Rightarrow>
          Some (c, if out_truncated \<or> err_truncated then Inl WOutputTooLarge
                   else Inr (code_or 1 status, from_utf8_lossy out, from_utf8_lossy err))))))"

function collect_loop :: "nat \<Rightarrow> clock \<Rightarrow> proc \<Rightarrow> (clock \<times> proc \<times> (WirelessError + int \<times> string \<times> string)) option" where
  "collect_loop started c p =
     (case os_try_wait c p of
        (p, Inl error) \<Rightarrow>
          map_option (\<lambda>(c, p, _). (c, p, Inl (WIo error))) (kill_wait_join True True c p)
      | (p, Inr (Some status)) \<Rightarrow>
          map_option (\<lambda>(c, r). (c, p, r)) (finish_output c p status)
      | (p, Inr None) \<Rightarrow>
          (if WL_COMMAND_TIMEOUT \<le> elapsed started c
           then map_option (\<lambda>(c, p, _, waited). (c, p, case waited of Inl e \<Rightarrow> Inl (WIo e) | Inr _ \<Rightarrow> Inl WTimedOut))
                  (kill_wait_join True True c p)
           else collect_loop started (os_sleep 10 c) p))"
  by pat_completeness auto
termination
  by (relation "measure (\<lambda>(started, c, p). started + WL_COMMAND_TIMEOUT - now c)") (auto simp: elapsed_def)

declare collect_loop.simps [simp del]

definition spawn_error :: "io_error \<Rightarrow> WirelessError" where
  "spawn_error e = (if io_kind e = KNotFound then WAdbNotFound else WIo e)"

definition run_adb :: "string \<Rightarrow> string list \<Rightarrow> host \<Rightarrow> (host \<times> (WirelessError + int \<times> string \<times> string)) option" where
  "run_adb adb argv h =
     (let (h, child) = os_spawn adb argv h in
      case child of
        Inl e \<Rightarrow> Some (h, Inl (spawn_error e))
      | Inr p \<Rightarrow> map_option (\<lambda>(c, _, r). (h\<lparr>clk := c\<rparr>, r)) (collect_loop (now (clk h)) (clk h) p))"

section \<open>The pairing process\<close>

record PairProcess =
  pp_child :: proc
  pp_out :: bool
  pp_err :: bool
  pp_started :: nat

definition pair_spawn :: "string \<Rightarrow> string \<Rightarrow> string \<Rightarrow> host \<Rightarrow> (host \<times> (WirelessError + PairProcess)) option" where
  "pair_spawn adb endpoint pw h =
     (let (h, child) = os_spawn adb [''pair'', endpoint] h in
      case child of
        Inl e \<Rightarrow> Some (h, Inl (spawn_error e))
      | Inr p \<Rightarrow>
          (case os_write_stdin (pw @ [CHR 0x0A]) p of
             (p, Inl error) \<Rightarrow>
               (let (p, _) = os_kill (now (clk h)) p in
                case os_wait (clk h) p of
                  None \<Rightarrow> None
                | Some (c, _, _) \<Rightarrow> Some (h\<lparr>clk := c\<rparr>, Inl (WIo error)))
           | (p, Inr _) \<Rightarrow>
               Some (h, Inr \<lparr>pp_child = p, pp_out = True, pp_err = True, pp_started = now (clk h)\<rparr>)))"

definition kill_reap :: "clock \<Rightarrow> PairProcess \<Rightarrow> (clock \<times> PairProcess \<times> (WirelessError + unit)) option" where
  "kill_reap c q =
     (case kill_wait_join (pp_out q) (pp_err q) c (pp_child q) of
        None \<Rightarrow> None
      | Some (c, p, killed, waited) \<Rightarrow>
          Some (c, q\<lparr>pp_child := p, pp_out := False, pp_err := False\<rparr>,
            case waited of
              Inl e \<Rightarrow> Inl (WIo e)
            | Inr _ \<Rightarrow> (case killed of
                Inl e \<Rightarrow> if io_kind e \<noteq> KInvalidInput then Inl (WIo e) else Inr ()
              | Inr _ \<Rightarrow> Inr ())))"

text \<open>
  \<open>finish\<close> takes the two readers; when the first fails the second stays. It panics when they
  were taken before.
\<close>

definition pair_finish :: "clock \<Rightarrow> PairProcess \<Rightarrow> int option \<Rightarrow>
    (clock \<times> PairProcess \<times> (WirelessError + int \<times> string \<times> string)) option" where
  "pair_finish c q status =
     (if \<not> pp_out q \<or> \<not> pp_err q then None
      else case finish_output c (pp_child q) status of
          None \<Rightarrow> None
        | Some (c, r) \<Rightarrow>
            Some (c, q\<lparr>pp_out := False, pp_err := \<not> isOk (capture_all (out_chunks (pp_child q)))\<rparr>, r))"

definition pair_poll :: "clock \<Rightarrow> PairProcess \<Rightarrow>
    (clock \<times> PairProcess \<times> (WirelessError + (int \<times> string \<times> string) option)) option" where
  "pair_poll c q =
     (case os_try_wait c (pp_child q) of
        (p, Inl e) \<Rightarrow> Some (c, q\<lparr>pp_child := p\<rparr>, Inl (WIo e))
      | (p, Inr (Some status)) \<Rightarrow>
          map_option (\<lambda>(c, q, r). (c, q, andThen r (\<lambda>x. Inr (Some x)))) (pair_finish c (q\<lparr>pp_child := p\<rparr>) status)
      | (p, Inr None) \<Rightarrow>
          (if WL_COMMAND_TIMEOUT \<le> elapsed (pp_started q) c
           then map_option (\<lambda>(c, q, r). (c, q, andThen r (\<lambda>_. Inl WTimedOut))) (kill_reap c (q\<lparr>pp_child := p\<rparr>))
           else Some (c, q\<lparr>pp_child := p\<rparr>, Inr None)))"

text \<open>\<open>Drop for PairProcess\<close>.\<close>

definition drop_pair :: "clock \<Rightarrow> PairProcess \<Rightarrow> (clock \<times> PairProcess) option" where
  "drop_pair c q =
     (case os_try_wait c (pp_child q) of
        (p, r) \<Rightarrow>
          (case (if saw_exit r then Some (c, p)
                 else let (p, _) = os_kill (now c) p in map_option (\<lambda>(c, p, _). (c, p)) (os_wait c p)) of
             None \<Rightarrow> None
           | Some (c, p) \<Rightarrow>
               map_option (\<lambda>c. (c, q\<lparr>pp_child := p, pp_out := False, pp_err := False\<rparr>))
                 (join_both (pp_out q) (pp_err q) c p)))"

lemma pair_poll_running:
  "pair_poll c q = Some (c', q', Inr None) \<Longrightarrow>
   c' = c \<and> pp_started q' = pp_started q \<and> elapsed (pp_started q) c < WL_COMMAND_TIMEOUT"
  by (auto simp: pair_poll_def andThen_Inr_iff split: prod.splits sum.splits option.splits if_splits)

text \<open>The loop of \<open>pair\<close>; the process is dropped on every way out.\<close>

function pair_loop :: "string \<Rightarrow> clock \<Rightarrow> PairProcess \<Rightarrow> (clock \<times> PairProcess \<times> (WirelessError + string)) option" where
  "pair_loop pw c q =
     (case pair_poll c q of
        None \<Rightarrow> None
      | Some (c', q', Inl e) \<Rightarrow> Some (c', q', Inl e)
      | Some (c', q', Inr (Some (status, out, err))) \<Rightarrow>
          Some (c', q', if status \<noteq> 0 then Inl (WCommandFailed (stderr_summary err pw))
                        else okOr PairOutputUnparseable (find_guid out))
      | Some (c', q', Inr None) \<Rightarrow> pair_loop pw (os_sleep 10 c') q')"
  by pat_completeness auto
termination
  by (relation "measure (\<lambda>(pw, c, q). pp_started q + WL_COMMAND_TIMEOUT - now c)")
     (auto dest!: pair_poll_running simp: elapsed_def)

declare pair_loop.simps [simp del]

definition wl_pair :: "string \<Rightarrow> string \<Rightarrow> string \<Rightarrow> host \<Rightarrow> (host \<times> (WirelessError + string)) option" where
  "wl_pair adb endpoint pw h =
     (case pair_spawn adb endpoint pw h of
        None \<Rightarrow> None
      | Some (h, Inl e) \<Rightarrow> Some (h, Inl e)
      | Some (h, Inr q) \<Rightarrow>
          (case pair_loop pw (clk h) q of
             None \<Rightarrow> None
           | Some (c, q, r) \<Rightarrow> map_option (\<lambda>(c, _). (h\<lparr>clk := c\<rparr>, r)) (drop_pair c q)))"

section \<open>Time passes\<close>

lemma join_pipe_mono: "join_pipe chunks c p = Some c' \<Longrightarrow> now c \<le> now c' \<and> lag c' = lag c"
  by (auto simp: join_pipe_def os_join_reader_def split: if_splits option.splits)

lemma join_both_mono: "join_both a b c p = Some c' \<Longrightarrow> now c \<le> now c' \<and> lag c' = lag c"
  by (auto simp: join_both_def split: if_splits option.splits dest!: join_pipe_mono)

lemma kill_wait_join_mono: "kill_wait_join a b c p = Some (c', x) \<Longrightarrow> now c \<le> now c' \<and> lag c' = lag c"
  by (auto simp: kill_wait_join_def split: prod.splits option.splits dest!: join_both_mono os_wait_keeps)

lemma finish_output_mono: "finish_output c p st = Some (c', r) \<Longrightarrow> now c \<le> now c' \<and> lag c' = lag c"
  by (auto simp: finish_output_def split: option.splits sum.splits prod.splits dest!: join_pipe_mono)

lemma collect_loop_mono: "collect_loop started c p = Some (c', x) \<Longrightarrow> now c \<le> now c' \<and> lag c' = lag c"
proof (induction started c p rule: collect_loop.induct)
  case (1 started c p)
  obtain p1 r where tw: "os_try_wait c p = (p1, r)" by (cases "os_try_wait c p")
  show ?case
  proof (cases r rule: wait_result_cases)
    case (err e)
    with tw "1.prems" show ?thesis
      by (auto simp: collect_loop.simps [of started c p] dest!: kill_wait_join_mono)
  next
    case (exit k)
    with tw "1.prems" show ?thesis
      by (auto simp: collect_loop.simps [of started c p] dest!: finish_output_mono)
  next
    case running
    show ?thesis
    proof (cases "WL_COMMAND_TIMEOUT \<le> elapsed started c")
      case True
      with tw running "1.prems" show ?thesis
        by (auto simp: collect_loop.simps [of started c p] dest!: kill_wait_join_mono)
    next
      case False
      with tw running "1.prems" have "collect_loop started (os_sleep 10 c) p1 = Some (c', x)"
        by (simp add: collect_loop.simps [of started c p])
      from "1.IH" [OF tw [symmetric] running refl False this] show ?thesis by simp
    qed
  qed
qed

lemma run_adb_mono:
  "run_adb adb argv h = Some (h', r) \<Longrightarrow> now (clk h) \<le> now (clk h') \<and> lag (clk h') = lag (clk h)"
  by (auto simp: run_adb_def split: prod.splits sum.splits dest!: collect_loop_mono os_spawn_eq)

section \<open>The commands of the pairing flow\<close>

definition TESTED_BASELINE :: adb_version where "TESTED_BASELINE = (37, 0, 1)"

record AdbPrecheck =
  pc_version :: adb_version
  below_tested_baseline :: bool

definition check_adb :: "string \<Rightarrow> host \<Rightarrow> (host \<times> (WirelessError + AdbPrecheck)) option" where
  "check_adb adb h =
     (case run_adb adb [''version''] h of
        None \<Rightarrow> None
      | Some (h, Inl e) \<Rightarrow> Some (h, Inl e)
      | Some (h, Inr (status, out, _)) \<Rightarrow>
          (if status \<noteq> 0 then Some (h, Inl (WCommandFailed ''version''))
           else case require_supported_adb out of
               Inl e \<Rightarrow> Some (h, Inl e)
             | Inr version \<Rightarrow>
                 (case run_adb adb [''mdns'', ''check''] h of
                    None \<Rightarrow> None
                  | Some (h, Inl e) \<Rightarrow> Some (h, Inl e)
                  | Some (h, Inr (status, _, _)) \<Rightarrow>
                      Some (h, if status \<noteq> 0 then Inl MdnsUnavailable
                               else Inr \<lparr>pc_version = version, below_tested_baseline = version_less version TESTED_BASELINE\<rparr>))))"

definition restart_adb_server :: "string \<Rightarrow> host \<Rightarrow> (host \<times> (WirelessError + unit)) option" where
  "restart_adb_server adb h =
     (case run_adb adb [''kill-server''] h of
        None \<Rightarrow> None
      | Some (h, Inl e) \<Rightarrow> Some (h, Inl e)
      | Some (h, Inr (status, _, err)) \<Rightarrow>
          (if status \<noteq> 0 then Some (h, Inl (WCommandFailed err))
           else case run_adb adb [''start-server''] h of
               None \<Rightarrow> None
             | Some (h, Inl e) \<Rightarrow> Some (h, Inl e)
             | Some (h, Inr (status, _, err)) \<Rightarrow>
                 Some (h, if status \<noteq> 0 then Inl (WCommandFailed err) else Inr ())))"

definition wl_connect :: "string \<Rightarrow> string \<Rightarrow> host \<Rightarrow> (host \<times> (WirelessError + unit)) option" where
  "wl_connect adb endpoint h =
     (case run_adb adb [''connect'', endpoint] h of
        None \<Rightarrow> None
      | Some (h, Inl e) \<Rightarrow> Some (h, Inl e)
      | Some (h, Inr (status, _, err)) \<Rightarrow> Some (h, if status = 0 then Inr () else Inl (WCommandFailed err)))"

definition adb_mdns_services :: "string \<Rightarrow> host \<Rightarrow> (host \<times> (WirelessError + MdnsService list)) option" where
  "adb_mdns_services adb h =
     (case run_adb adb [''mdns'', ''services''] h of
        None \<Rightarrow> None
      | Some (h, Inl e) \<Rightarrow> Some (h, Inl e)
      | Some (h, Inr (status, out, err)) \<Rightarrow>
          Some (h, if status \<noteq> 0 then Inl (WCommandFailed err) else Inr (parse_mdns_services out)))"

definition read_ro_serialno :: "string \<Rightarrow> string \<Rightarrow> host \<Rightarrow> (host \<times> (WirelessError + string option)) option" where
  "read_ro_serialno adb ser h =
     (case run_adb adb [''-s'', ser, ''shell'', ''getprop'', ''ro.serialno''] h of
        None \<Rightarrow> None
      | Some (h, Inl e) \<Rightarrow> Some (h, Inl e)
      | Some (h, Inr (status, out, _)) \<Rightarrow>
          Some (h, Inr (if status \<noteq> 0 then None
                        else if str_trim out \<noteq> [] then Some (str_trim out) else None)))"

definition read_identity_or_unknown :: "string \<Rightarrow> string \<Rightarrow> host \<Rightarrow> (host \<times> string option) option" where
  "read_identity_or_unknown adb ser h =
     map_option (\<lambda>(h, r). (h, case r of Inr i \<Rightarrow> i | Inl _ \<Rightarrow> None)) (read_ro_serialno adb ser h)"

fun read_identities :: "string \<Rightarrow> Device list \<Rightarrow> host \<Rightarrow> (host \<times> (string \<times> string option) list) option" where
  "read_identities adb [] h = Some (h, [])"
| "read_identities adb (d # ds) h =
     (case read_identity_or_unknown adb (dev_serial d) h of
        None \<Rightarrow> None
      | Some (h, i) \<Rightarrow> map_option (\<lambda>(h, rs). (h, (dev_serial d, i) # rs)) (read_identities adb ds h))"

definition identity_pairs :: "string \<Rightarrow> Device list \<Rightarrow> host \<Rightarrow> (host \<times> (string \<times> string) list) option" where
  "identity_pairs adb listed h = map_option (\<lambda>(h, rs). (h, pairs_of_read rs)) (read_identities adb listed h)"

text \<open>
  \<open>cancel.is_cancelled() || signal_requested()\<close>; \<open>cancel\<close> and \<open>signals\<close> answer by the number of
  polls made before.
\<close>

definition poll_stop :: "(nat \<Rightarrow> bool) \<Rightarrow> (nat \<Rightarrow> 8 word) \<Rightarrow> clock \<Rightarrow> clock \<times> bool" where
  "poll_stop cancel signals c =
     (let (c, cancelled) = poll_flag cancel c in
      if cancelled then (c, True) else poll_flag (\<lambda>n. signal_requested (signals n)) c)"

lemma poll_stop_time [simp]:
  "now (fst (poll_stop cancel signals c)) = now c" "lag (fst (poll_stop cancel signals c)) = lag c"
  by (simp_all add: poll_stop_def poll_flag_def)

lemma poll_run_mono:
  assumes "(c, b) = poll_stop cancel signals (clk h)" "run_adb adb argv (h\<lparr>clk := c\<rparr>) = Some (h', r)"
  shows "now (clk h) \<le> now (clk h') \<and> lag (clk h') = lag (clk h)"
  using poll_stop_time [of cancel signals "clk h"] assms(1) run_adb_mono [OF assms(2)] by (cases "poll_stop cancel signals (clk h)") simp

definition device_for_guid :: "string \<Rightarrow> Device list \<Rightarrow> string option" where
  "device_for_guid guid ds =
     map_option dev_serial (List.find (\<lambda>d. serial_matches_guid (dev_serial d) guid \<and> dev_state d = Device) ds)"

function wait_guid_loop ::
  "string \<Rightarrow> string \<Rightarrow> nat \<Rightarrow> nat \<Rightarrow> (nat \<Rightarrow> bool) \<Rightarrow> (nat \<Rightarrow> 8 word) \<Rightarrow> host \<Rightarrow> (host \<times> (WirelessError + string)) option" where
  "wait_guid_loop adb guid started timeout cancel signals h =
     (if elapsed started (clk h) < timeout then
        (let (c, stopped) = poll_stop cancel signals (clk h) in
         if stopped then Some (h\<lparr>clk := c\<rparr>, Inl WCancelled)
         else case run_adb adb [''devices'', ''-l''] (h\<lparr>clk := c\<rparr>) of
             None \<Rightarrow> None
           | Some (h', Inl e) \<Rightarrow> Some (h', Inl e)
           | Some (h', Inr (status, out, err)) \<Rightarrow>
               (if status \<noteq> 0 then Some (h', Inl (WCommandFailed err))
                else case parse_devices out of
                    Inl e \<Rightarrow> Some (h', Inl (Devices (probe_error_text e)))
                  | Inr ds \<Rightarrow>
                      (case device_for_guid guid ds of
                         Some s \<Rightarrow> Some (h', Inr s)
                       | None \<Rightarrow> wait_guid_loop adb guid started timeout cancel signals (h'\<lparr>clk := os_sleep 250 (clk h')\<rparr>))))
      else Some (h, Inl WTimedOut))"
  by pat_completeness auto
termination
proof (relation "measure (\<lambda>(adb, guid, started, timeout, cancel, signals, h). started + timeout - now (clk h))", goal_cases)
  case 1
  show ?case by (rule wf_measure)
next
  case (2 adb guid started timeout cancel signals h x c b y h' r)
  have lt: "now (clk h) < started + timeout" using 2(1) by (auto simp: elapsed_def)
  have "run_adb adb [''devices'', ''-l''] (h\<lparr>clk := c\<rparr>) = Some (h', r)" unfolding 2(6) by (rule 2(5))
  from poll_run_mono [OF 2(3) [unfolded 2(2)] this] have "now (clk h) \<le> now (clk h')" by (rule conjunct1)
  then have "started + timeout - now (clk (h'\<lparr>clk := os_sleep 250 (clk h')\<rparr>)) < started + timeout - now (clk h)"
    using lt by (intro diff_less_mono2) simp_all
  then show ?case by simp
qed

declare wait_guid_loop.simps [simp del]

definition wait_for_guid_with_cancel ::
  "string \<Rightarrow> string \<Rightarrow> nat \<Rightarrow> (nat \<Rightarrow> bool) \<Rightarrow> (nat \<Rightarrow> 8 word) \<Rightarrow> host \<Rightarrow> (host \<times> (WirelessError + string)) option" where
  "wait_for_guid_with_cancel adb guid timeout cancel signals h =
     wait_guid_loop adb guid (now (clk h)) timeout cancel signals h"

definition wait_for_guid ::
  "string \<Rightarrow> string \<Rightarrow> nat \<Rightarrow> (nat \<Rightarrow> 8 word) \<Rightarrow> host \<Rightarrow> (host \<times> (WirelessError + string)) option" where
  "wait_for_guid adb guid timeout signals h = wait_for_guid_with_cancel adb guid timeout (\<lambda>_. False) signals h"

end
