(* ===== verification/PairingRound.thy ===== *)
theory PairingRound
  imports WirelessAdb
begin

text \<open>
  The crate \<open>quadcontrol-android\<close>, \<open>wireless.rs\<close>, third part: one pairing round (find the
  phone's service, start \<open>adb pair\<close> for every endpoint, watch the processes), the single exit
  \<open>round_close\<close> (reap, close, wipe), and the command \<open>pair-qr\<close> from the check of \<open>adb\<close> to the
  connected device.
\<close>

section \<open>Watching the pairing processes\<close>

text \<open>\<open>failure.get_or_insert(error)\<close>.\<close>

definition get_or_insert :: "'a \<Rightarrow> 'a option \<Rightarrow> 'a option" where
  "get_or_insert x o1 = (case o1 of None \<Rightarrow> Some x | Some y \<Rightarrow> Some y)"

text \<open>
  What the round has to say about its processes: the first failure, whether one of them timed
  out, and the GUID of one that succeeded.
\<close>

record watch =
  failure :: "WirelessError option"
  pair_timed_out :: bool
  paired :: "string option"

text \<open>
  The loop over the processes, from left to right: a process that ended without a GUID is
  removed, and so dropped; the first success stops the loop, and its process stays listed.
\<close>

fun poll_pairs :: "string \<Rightarrow> clock \<Rightarrow> PairProcess list \<Rightarrow> watch \<Rightarrow> (clock \<times> PairProcess list \<times> watch) option" where
  "poll_pairs pw c [] w = Some (c, [], w)"
| "poll_pairs pw c (q # qs) w =
     (let remove = (\<lambda>c q w. case drop_pair c q of None \<Rightarrow> None | Some (c, _) \<Rightarrow> poll_pairs pw c qs w) in
      case pair_poll c q of
        None \<Rightarrow> None
      | Some (c, q, Inr (Some (status, out, err))) \<Rightarrow>
          (if status = 0
           then (case find_guid out of
                   Some guid \<Rightarrow> Some (c, q # qs, w\<lparr>paired := Some guid\<rparr>)
                 | None \<Rightarrow> remove c q (w\<lparr>failure := get_or_insert PairOutputUnparseable (failure w)\<rparr>))
           else
             let summary = stderr_summary err pw in
             remove c q (w\<lparr>failure := get_or_insert
               (WCommandFailed (if summary = [] then ''pair failed'' else summary)) (failure w)\<rparr>))
      | Some (c, q, Inl e) \<Rightarrow>
          (if e = WTimedOut
           then remove c q (w\<lparr>pair_timed_out := True, failure := get_or_insert WTimedOut (failure w)\<rparr>)
           else remove c q (w\<lparr>failure := get_or_insert e (failure w)\<rparr>))
      | Some (c, q, Inr None) \<Rightarrow>
          (case poll_pairs pw c qs w of
             None \<Rightarrow> None
           | Some (c, qs, w) \<Rightarrow> Some (c, q # qs, w)))"

declare poll_pairs.simps(2) [simp del]

definition endpoint_text :: "MdnsService \<Rightarrow> string" where
  "endpoint_text s = ms_address s @ '':'' @ show_nat (ms_port s)"

text \<open>
  Starting a process for every endpoint not seen before. \<open>Inl\<close>: a start failed and no process
  is running; otherwise a failed start ends the loop and is remembered.
\<close>

fun spawn_pairs :: "string \<Rightarrow> string \<Rightarrow> host \<Rightarrow> string list \<Rightarrow> PairProcess list \<Rightarrow> string list \<Rightarrow> RoundState \<Rightarrow> watch \<Rightarrow>
    (host \<times> PairProcess list \<times> string list \<times> RoundState \<times> watch \<times> WirelessError option) option" where
  "spawn_pairs adb pw h [] qs spawned r w = Some (h, qs, spawned, r, w, None)"
| "spawn_pairs adb pw h (e # es) qs spawned r w =
     (if e \<in> set spawned then spawn_pairs adb pw h es qs spawned r w
      else case pair_spawn adb e pw h of
          None \<Rightarrow> None
        | Some (h, Inr q) \<Rightarrow> spawn_pairs adb pw h es (qs @ [q]) (spawned @ [e]) (r\<lparr>pair_in_flight := True\<rparr>) w
        | Some (h, Inl error) \<Rightarrow>
            (if qs \<noteq> [] then Some (h, qs, spawned, r, w\<lparr>failure := get_or_insert error (failure w)\<rparr>, None)
             else Some (h, qs, spawned, r, w, Some error)))"

section \<open>The round\<close>

record round_vars =
  rv_round :: RoundState
  rv_pairs :: "PairProcess list"
  rv_spawned :: "string list"
  rv_lost :: bool
  rv_watch :: watch

type_synonym round_end = "host \<times> round_vars \<times> RoundEvent \<times> (WirelessError + string)"

definition failed_round :: "host \<Rightarrow> round_vars \<Rightarrow> WirelessError \<Rightarrow> round_end" where
  "failed_round h v error =
     (let (event, error) = classify_round_failure (rv_lost v) (pair_timed_out (rv_watch v)) error
      in (h, v, event, Inl error))"

text \<open>
  What one turn of the loop does after the services were queried (\<open>found\<close>, or \<open>None\<close> when the
  query failed while processes run): start processes, note a lost service, poll. \<open>Inl\<close> is the
  end of the round, \<open>Inr\<close> the state the loop sleeps in.
\<close>

definition discover :: "string \<Rightarrow> PairingSecret \<Rightarrow> 64 word \<Rightarrow> MdnsService list option \<Rightarrow> host \<Rightarrow> round_vars \<Rightarrow>
    (round_end + host \<times> round_vars) option" where
  "discover adb secret round_id found h v =
     (case found of
        None \<Rightarrow> Some (Inr (h, v))
      | Some services \<Rightarrow>
          (let matching = find_pairing_services services (service_name secret) in
           case spawn_pairs adb (password secret) h (map endpoint_text matching) (rv_pairs v) (rv_spawned v)
                  (rv_round v) (rv_watch v) of
             None \<Rightarrow> None
           | Some (h, qs, spawned, r, w, error) \<Rightarrow>
               (let v = v\<lparr>rv_pairs := qs, rv_spawned := spawned, rv_round := r, rv_watch := w\<rparr> in
                case error of
                  Some error \<Rightarrow>
                    Some (Inl (failed_round h v (case failure w of Some first \<Rightarrow> first | None \<Rightarrow> error)))
                | None \<Rightarrow>
                    if matching = [] \<and> spawned \<noteq> [] \<and> \<not> rv_lost v
                    then Some (Inr (h, v\<lparr>rv_lost := True,
                           rv_round := fst (observe_for_round round_id EvServiceLost (rv_round v))\<rparr>))
                    else Some (Inr (h, v)))))"

definition round_turn :: "string \<Rightarrow> PairingSecret \<Rightarrow> 64 word \<Rightarrow> MdnsService list option \<Rightarrow> host \<Rightarrow> round_vars \<Rightarrow>
    (round_end + host \<times> round_vars) option" where
  "round_turn adb secret round_id found h v =
     (case discover adb secret round_id found h v of
        None \<Rightarrow> None
      | Some (Inl e) \<Rightarrow> Some (Inl e)
      | Some (Inr (h, v)) \<Rightarrow>
          (case poll_pairs (password secret) (clk h) (rv_pairs v) (rv_watch v) of
             None \<Rightarrow> None
           | Some (c, qs, w) \<Rightarrow>
               (let h = h\<lparr>clk := c\<rparr>; v = v\<lparr>rv_pairs := qs, rv_watch := w\<rparr> in
                case paired w of
                  Some guid \<Rightarrow> Some (Inl (h, v, EvPairSucceeded guid, Inr guid))
                | None \<Rightarrow>
                    if qs = []
                    then (let v = v\<lparr>rv_round := (rv_round v)\<lparr>pair_in_flight := False\<rparr>\<rparr> in
                          case failure w of
                            Some error \<Rightarrow> Some (Inl (failed_round h v error))
                          | None \<Rightarrow> Some (Inr (h, v)))
                    else Some (Inr (h, v)))))"

text \<open>
  The query itself: while processes run, its failure is only remembered, else it ends the round.
\<close>

definition query_services :: "string \<Rightarrow> host \<Rightarrow> round_vars \<Rightarrow> (round_end + host \<times> round_vars \<times> MdnsService list option) option" where
  "query_services adb h v =
     (case adb_mdns_services adb h of
        None \<Rightarrow> None
      | Some (h, Inr found) \<Rightarrow> Some (Inr (h, v, Some found))
      | Some (h, Inl error) \<Rightarrow>
          (if rv_pairs v \<noteq> []
           then Some (Inr (h, v\<lparr>rv_watch := (rv_watch v)\<lparr>failure := get_or_insert error (failure (rv_watch v))\<rparr>\<rparr>, None))
           else Some (Inl (failed_round h v (case failure (rv_watch v) of Some first \<Rightarrow> first | None \<Rightarrow> error)))))"

section \<open>Time passes in a turn\<close>

lemma kill_reap_mono: "kill_reap c q = Some (c', q', r) \<Longrightarrow> now c \<le> now c' \<and> lag c' = lag c"
  by (auto simp: kill_reap_def split: option.splits dest!: kill_wait_join_mono)

lemma pair_finish_mono: "pair_finish c q st = Some (c', q', r) \<Longrightarrow> now c \<le> now c' \<and> lag c' = lag c"
  by (auto simp: pair_finish_def split: if_splits option.splits dest!: finish_output_mono)

lemma pair_poll_mono: "pair_poll c q = Some (c', q', r) \<Longrightarrow> now c \<le> now c' \<and> lag c' = lag c"
  by (auto simp: pair_poll_def split: prod.splits sum.splits option.splits if_splits
      dest!: kill_reap_mono pair_finish_mono)

lemma drop_pair_mono: "drop_pair c q = Some (c', q') \<Longrightarrow> now c \<le> now c' \<and> lag c' = lag c"
proof -
  assume d: "drop_pair c q = Some (c', q')"
  obtain p r where tw: "os_try_wait c (pp_child q) = (p, r)" by (cases "os_try_wait c (pp_child q)")
  obtain p1 k where kl: "os_kill (now c) p = (p1, k)" by (cases "os_kill (now c) p")
  from d tw kl obtain c1 p2 where "(c1 = c \<or> (\<exists>r. os_wait c p1 = Some (c1, p2, r)))" "join_both (pp_out q) (pp_err q) c1 p2 = Some c'"
    by (auto simp: drop_pair_def split: if_splits option.splits)
  then show ?thesis by (auto dest!: join_both_mono os_wait_keeps)
qed

lemma poll_pairs_mono: "poll_pairs pw c qs w = Some (c', qs', w') \<Longrightarrow> now c \<le> now c' \<and> lag c' = lag c"
proof (induction qs arbitrary: c w c' qs' w')
  case (Cons q qs)
  obtain c1 q1 r where p: "pair_poll c q = Some (c1, q1, r)"
    using Cons.prems by (cases "pair_poll c q") (auto simp: poll_pairs.simps)
  note m = pair_poll_mono [OF p]
  have rm: "now c \<le> now c' \<and> lag c' = lag c"
    if "drop_pair c1 q1 = Some (c2, q2)" "poll_pairs pw c2 qs v = Some (c', qs', w')" for c2 q2 v
    using Cons.IH [OF that(2)] drop_pair_mono [OF that(1)] m by simp
  show ?case
  proof (cases r)
    case (Inl e)
    with p Cons.prems rm show ?thesis by (auto simp: poll_pairs.simps split: if_splits option.splits)
  next
    case (Inr st)
    show ?thesis
    proof (cases st)
      case None
      with p Inr Cons.prems obtain qs2 where "poll_pairs pw c1 qs w = Some (c', qs2, w')"
        by (auto simp: poll_pairs.simps split: option.splits)
      from Cons.IH [OF this] m show ?thesis by simp
    next
      case (Some x)
      with p Inr Cons.prems rm m show ?thesis
        by (cases x) (auto simp: poll_pairs.simps Let_def split: if_splits option.splits)
    qed
  qed
qed simp

lemma pair_spawn_mono: "pair_spawn adb e pw h = Some (h', r) \<Longrightarrow> now (clk h) \<le> now (clk h') \<and> lag (clk h') = lag (clk h)"
  by (auto simp: pair_spawn_def split: prod.splits sum.splits option.splits dest!: os_spawn_eq os_wait_keeps)

lemma spawn_pairs_mono:
  "spawn_pairs adb pw h es qs sp r w = Some (h', x) \<Longrightarrow> now (clk h) \<le> now (clk h') \<and> lag (clk h') = lag (clk h)"
proof (induction es arbitrary: h qs sp r w)
  case (Cons e es)
  show ?case
  proof (cases "e \<in> set sp")
    case True
    with Cons show ?thesis by simp
  next
    case False
    with Cons.prems obtain h1 y where y: "pair_spawn adb e pw h = Some (h1, y)" by (auto split: option.splits)
    note m = pair_spawn_mono [OF y]
    show ?thesis
    proof (cases y)
      case (Inl error)
      with Cons.prems False y m show ?thesis by (auto split: if_splits)
    next
      case (Inr q)
      with Cons.prems False y have "spawn_pairs adb pw h1 es (qs @ [q]) (sp @ [e]) (r\<lparr>pair_in_flight := True\<rparr>) w = Some (h', x)"
        by simp
      from Cons.IH [OF this] m show ?thesis by simp
    qed
  qed
qed simp

lemma discover_mono:
  "discover adb secret i found h v = Some (Inr (h', v')) \<Longrightarrow> now (clk h) \<le> now (clk h') \<and> lag (clk h') = lag (clk h)"
  by (auto simp: discover_def Let_def split: option.splits if_splits prod.splits dest!: spawn_pairs_mono)

lemma round_turn_mono:
  "round_turn adb secret i found h v = Some (Inr (h', v')) \<Longrightarrow> now (clk h) \<le> now (clk h') \<and> lag (clk h') = lag (clk h)"
  by (auto simp: round_turn_def Let_def split: option.splits if_splits sum.splits prod.splits
      dest!: discover_mono poll_pairs_mono)

lemma query_services_mono:
  "query_services adb h v = Some (Inr (h', v', found)) \<Longrightarrow> now (clk h) \<le> now (clk h') \<and> lag (clk h') = lag (clk h)"
  by (auto simp: query_services_def adb_mdns_services_def split: option.splits if_splits sum.splits prod.splits
      dest!: run_adb_mono)

section \<open>The loop of the round\<close>

lemma round_step_mono:
  assumes "(c, b) = poll_stop cancel signals (clk h)" "query_services adb (h\<lparr>clk := c\<rparr>) v = Some (Inr (h1, v1, found))"
    "round_turn adb secret i found h1 v1 = Some (Inr (h2, v2))"
  shows "now c = now (clk h) \<and> now (clk h) \<le> now (clk h2) \<and> lag (clk h2) = lag (clk h)"
proof -
  have "now c = now (clk h)" "lag c = lag (clk h)"
    using assms(1) poll_stop_time [of cancel signals "clk h"] by (metis fst_conv)+
  with query_services_mono [OF assms(2)] round_turn_mono [OF assms(3)] show ?thesis by simp
qed

function round_loop ::
  "string \<Rightarrow> PairingSecret \<Rightarrow> 64 word \<Rightarrow> nat \<Rightarrow> (nat \<Rightarrow> bool) \<Rightarrow> (nat \<Rightarrow> 8 word) \<Rightarrow> host \<Rightarrow> round_vars \<Rightarrow> round_end option" where
  "round_loop adb secret round_id deadline cancel signals h v =
     (let (c, stopped) = poll_stop cancel signals (clk h) in
      if stopped then Some (h\<lparr>clk := c\<rparr>, v, EvCancelled, Inl WCancelled)
      else if deadline \<le> now c then Some (h\<lparr>clk := c\<rparr>, v, EvTimeout, Inl RoundTimedOut)
      else case query_services adb (h\<lparr>clk := c\<rparr>) v of
          None \<Rightarrow> None
        | Some (Inl e) \<Rightarrow> Some e
        | Some (Inr (h1, v1, found)) \<Rightarrow>
            (case round_turn adb secret round_id found h1 v1 of
               None \<Rightarrow> None
             | Some (Inl e) \<Rightarrow> Some e
             | Some (Inr (h2, v2)) \<Rightarrow>
                 round_loop adb secret round_id deadline cancel signals (h2\<lparr>clk := os_sleep 250 (clk h2)\<rparr>) v2))"
  by pat_completeness auto
termination
  by (relation "measure (\<lambda>(adb, secret, i, deadline, cancel, signals, h, v). deadline - now (clk h))")
     (auto dest!: round_step_mono)

declare round_loop.simps [simp del]

definition watch_new :: watch where
  "watch_new = \<lparr>failure = None, pair_timed_out = False, paired = None\<rparr>"

definition run_pairing_round_with_cancel ::
  "string \<Rightarrow> PairingSecret \<Rightarrow> RoundState \<Rightarrow> PairProcess list \<Rightarrow> (nat \<Rightarrow> bool) \<Rightarrow> (nat \<Rightarrow> 8 word) \<Rightarrow> host \<Rightarrow> round_end option" where
  "run_pairing_round_with_cancel adb secret r qs cancel signals h =
     round_loop adb secret (rd_id r) (now (clk h) + ROUND_TIMEOUT) cancel signals h
       \<lparr>rv_round = r, rv_pairs = qs, rv_spawned = [], rv_lost = False, rv_watch = watch_new\<rparr>"

definition run_pairing_round ::
  "string \<Rightarrow> PairingSecret \<Rightarrow> RoundState \<Rightarrow> PairProcess list \<Rightarrow> (nat \<Rightarrow> 8 word) \<Rightarrow> host \<Rightarrow> round_end option" where
  "run_pairing_round adb secret r qs signals h =
     run_pairing_round_with_cancel adb secret r qs (\<lambda>_. False) signals h"

section \<open>The end of the round\<close>

fun reap_pairs :: "clock \<Rightarrow> PairProcess list \<Rightarrow> WirelessError option \<Rightarrow>
    (clock \<times> PairProcess list \<times> WirelessError option) option" where
  "reap_pairs c [] first_error = Some (c, [], first_error)"
| "reap_pairs c (q # qs) first_error =
     (let (p, r) = os_try_wait c (pp_child q); q = q\<lparr>pp_child := p\<rparr> in
      case (case r of
              Inr (Some _) \<Rightarrow> Some (c, q, first_error)
            | _ \<Rightarrow> (case kill_reap c q of
                  None \<Rightarrow> None
                | Some (c, q, Inl e) \<Rightarrow> Some (c, q, get_or_insert e first_error)
                | Some (c, q, Inr _) \<Rightarrow> Some (c, q, first_error))) of
        None \<Rightarrow> None
      | Some (c, q, first_error) \<Rightarrow>
          (case reap_pairs c qs first_error of
             None \<Rightarrow> None
           | Some (c, qs, e) \<Rightarrow> Some (c, q # qs, e)))"

text \<open>\<open>pairs.clear()\<close> drops every process.\<close>

fun drop_pairs :: "clock \<Rightarrow> PairProcess list \<Rightarrow> (clock \<times> PairProcess list) option" where
  "drop_pairs c [] = Some (c, [])"
| "drop_pairs c (q # qs) =
     (case drop_pair c q of
        None \<Rightarrow> None
      | Some (c, q) \<Rightarrow> map_option (\<lambda>(c, qs). (c, q # qs)) (drop_pairs c qs))"

text \<open>
  \<open>round_close\<close>: reap, close, wipe. The last component are the processes as they were dropped;
  the list the caller sees is empty.
\<close>

record close_end =
  ce_clock :: clock
  ce_round :: RoundState
  ce_pairs :: "PairProcess list"
  ce_secret :: PairingSecret
  ce_qr :: string
  ce_reason :: CloseReason
  ce_result :: "WirelessError + unit"
  ce_dropped :: "PairProcess list"

definition round_close :: "clock \<Rightarrow> RoundState \<Rightarrow> PairProcess list \<Rightarrow> PairingSecret \<Rightarrow> string \<Rightarrow> RoundEvent \<Rightarrow> close_end option" where
  "round_close c r qs secret qr event =
     (case reap_pairs c qs None of
        None \<Rightarrow> None
      | Some (c, qs, first_error) \<Rightarrow>
     (case drop_pairs c qs of
        None \<Rightarrow> None
      | Some (c, dropped) \<Rightarrow>
          (let (r, action) = observe event (r\<lparr>pair_in_flight := False\<rparr>);
               (r, reason) =
                 (case action of
                    Close reason \<Rightarrow> (r, reason)
                  | IgnoredAfterClose \<Rightarrow> (r, CCancelled)
                  | WaitForPair \<Rightarrow> (fst (close_round CServiceLost r), CServiceLost))
           in Some \<lparr>ce_clock = c, ce_round = r, ce_pairs = [], ce_secret = wipe secret, ce_qr = wipe_string qr,
                ce_reason = reason,
                ce_result = (case first_error of Some e \<Rightarrow> Inl e | None \<Rightarrow> Inr ()),
                ce_dropped = dropped\<rparr>)))"

section \<open>The command pair-qr\<close>

text \<open>What is left when the command ends: the secret, the drawn code, the round, the answer.\<close>

record pair_end =
  pe_host :: host
  pe_shown :: "string list"
  pe_secret :: PairingSecret
  pe_qr :: string
  pe_round :: RoundState
  pe_pairs :: "PairProcess list"
  pe_answer :: "WirelessError + string \<times> nat \<times> CloseReason"

definition poll_cancel :: "(nat \<Rightarrow> bool) \<Rightarrow> host \<Rightarrow> host \<times> bool" where
  "poll_cancel cancel h = (let (c, b) = poll_flag cancel (clk h) in (h\<lparr>clk := c\<rparr>, b))"

text \<open>\<open>round_close(.., Cancelled)\<close>, its results ignored, followed by the error.\<close>

definition cancelled_end :: "host \<Rightarrow> pair_end \<Rightarrow> WirelessError \<Rightarrow> pair_end option" where
  "cancelled_end h e error =
     (case round_close (clk h) (pe_round e) (pe_pairs e) (pe_secret e) (pe_qr e) EvCancelled of
        None \<Rightarrow> None
      | Some x \<Rightarrow>
          Some (e\<lparr>pe_host := h\<lparr>clk := ce_clock x\<rparr>, pe_round := ce_round x, pe_pairs := ce_pairs x,
            pe_secret := ce_secret x, pe_qr := ce_qr x, pe_answer := Inl error\<rparr>))"

text \<open>
  Waiting for the device to come up, with the explicit \<open>connect\<close> as second try. \<open>Inl\<close> is an
  error together with whether it leaves through a cancelled \<open>round_close\<close>.
\<close>

definition bring_up ::
  "string \<Rightarrow> string \<Rightarrow> (nat \<Rightarrow> bool) \<Rightarrow> (nat \<Rightarrow> 8 word) \<Rightarrow> host \<Rightarrow> (host \<times> ((WirelessError \<times> bool) + string)) option" where
  "bring_up adb guid cancel signals h =
     (let deadline = now (clk h) + ROUND_TIMEOUT in
      case wait_for_guid_with_cancel adb guid (deadline - now (clk h)) cancel signals h of
        None \<Rightarrow> None
      | Some (h, Inr s) \<Rightarrow> Some (h, Inr s)
      | Some (h, Inl error) \<Rightarrow>
     (let (h, cancelled) = poll_cancel cancel h in
      if cancelled
      then (let (h, cancelled) = poll_cancel cancel h in Some (h, Inl (error, cancelled)))
      else case adb_mdns_services adb h of
          None \<Rightarrow> None
        | Some (h, Inl e) \<Rightarrow> Some (h, Inl (e, False))
        | Some (h, Inr services) \<Rightarrow>
     (case connect_service_for_guid services guid of
        None \<Rightarrow> Some (h, Inl (NoMatchingService, False))
      | Some service \<Rightarrow>
     (let (h, cancelled) = poll_cancel cancel h in
      if cancelled then Some (h, Inl (WCancelled, True))
      else case wl_connect adb (endpoint_text service) h of
          None \<Rightarrow> None
        | Some (h, Inl e) \<Rightarrow> Some (h, Inl (e, False))
        | Some (h, Inr _) \<Rightarrow>
     (let (h, cancelled) = poll_cancel cancel h in
      if cancelled then Some (h, Inl (WCancelled, True))
      else case wait_for_guid_with_cancel adb guid (deadline - now (clk h)) cancel signals h of
          None \<Rightarrow> None
        | Some (h, Inr s) \<Rightarrow> Some (h, Inr s)
        | Some (h, Inl error) \<Rightarrow>
            (let (h, cancelled) = poll_cancel cancel h in Some (h, Inl (error, cancelled))))))))"

text \<open>After the device is up: the list of visible devices, merged.\<close>

definition count_visible :: "string \<Rightarrow> host \<Rightarrow> (host \<times> (WirelessError + nat)) option" where
  "count_visible adb h =
     (case devices adb h of
        None \<Rightarrow> None
      | Some (h, Inl e) \<Rightarrow> Some (h, Inl (Devices (scrcpy_error_text e)))
      | Some (h, Inr listed) \<Rightarrow>
          map_option (\<lambda>(h, ps). (h, Inr (length (deduplicate_devices listed ps)))) (identity_pairs adb listed h))"

definition after_round ::
  "string \<Rightarrow> (nat \<Rightarrow> bool) \<Rightarrow> (nat \<Rightarrow> 8 word) \<Rightarrow> string \<Rightarrow> CloseReason \<Rightarrow> pair_end \<Rightarrow> pair_end option" where
  "after_round adb cancel signals guid reason e =
     (let (h, cancelled) = poll_cancel cancel (pe_host e) in
      if cancelled then cancelled_end h e WCancelled
      else case bring_up adb guid cancel signals h of
          None \<Rightarrow> None
        | Some (h, Inl (error, True)) \<Rightarrow> cancelled_end h e error
        | Some (h, Inl (error, False)) \<Rightarrow> Some (e\<lparr>pe_host := h, pe_answer := Inl error\<rparr>)
        | Some (h, Inr s) \<Rightarrow>
            (let (h, cancelled) = poll_cancel cancel h in
             if cancelled then cancelled_end h e WCancelled
             else case count_visible adb h of
                 None \<Rightarrow> None
               | Some (h, Inl error) \<Rightarrow> Some (e\<lparr>pe_host := h, pe_answer := Inl error\<rparr>)
               | Some (h, Inr n) \<Rightarrow> Some (e\<lparr>pe_host := h, pe_answer := Inr (s, n, reason)\<rparr>)))"

definition reap_failed_text :: "WirelessError \<Rightarrow> WirelessError \<Rightarrow> string" where
  "reap_failed_text failed reap =
     wireless_error_text failed @ ([CHR 0xEF, CHR 0xBC, CHR 0x88, CHR 0xE5, CHR 0x8F, CHR 0xA6, CHR 0xE5, CHR 0xA4, CHR 0x96, CHR 0xEF,
      CHR 0xBC, CHR 0x9A, CHR 0xE5, CHR 0x9B, CHR 0x9E, CHR 0xE6, CHR 0x94, CHR 0xB6, CHR 0xE5, CHR 0x9C,
      CHR 0xA8, CHR 0xE9, CHR 0xA3, CHR 0x9E, CHR 0xE8, CHR 0xBF, CHR 0x9B, CHR 0xE7, CHR 0xA8, CHR 0x8B,
      CHR 0xE5, CHR 0xA4, CHR 0xB1, CHR 0xE8, CHR 0xB4, CHR 0xA5, CHR 0xEF, CHR 0xBC, CHR 0x9A]) @ wireless_error_text reap @ ([CHR 0xEF, CHR 0xBC, CHR 0x89])"

definition pair_qr_command_with_cancel ::
  "qr_encoder \<Rightarrow> string \<Rightarrow> PairingSecret \<Rightarrow> (nat \<Rightarrow> bool) \<Rightarrow> (nat \<Rightarrow> 8 word) \<Rightarrow> host \<Rightarrow> pair_end option" where
  "pair_qr_command_with_cancel enc adb secret cancel signals h =
     (case check_adb adb h of
        None \<Rightarrow> None
      | Some (h, Inl e) \<Rightarrow>
          Some \<lparr>pe_host = h, pe_shown = [], pe_secret = wipe secret, pe_qr = [], pe_round = round_new 1, pe_pairs = [],
            pe_answer = Inl e\<rparr>
      | Some (h, Inr _) \<Rightarrow>
     (case render_qr enc (payload secret) of
        Inl e \<Rightarrow>
          map_option (\<lambda>x. \<lparr>pe_host = h\<lparr>clk := ce_clock x\<rparr>, pe_shown = [], pe_secret = ce_secret x, pe_qr = ce_qr x,
              pe_round = ce_round x, pe_pairs = ce_pairs x, pe_answer = Inl e\<rparr>)
            (round_close (clk h) (round_new 1) [] secret [] EvPairFailed)
      | Inr qr \<Rightarrow>
     (case run_pairing_round_with_cancel adb secret (round_new 1) [] cancel signals h of
        None \<Rightarrow> None
      | Some (h, v, event, outcome) \<Rightarrow>
     (case round_close (clk h) (rv_round v) (rv_pairs v) secret qr event of
        None \<Rightarrow> None
      | Some x \<Rightarrow>
          (let e = \<lparr>pe_host = h\<lparr>clk := ce_clock x\<rparr>, pe_shown = [qr], pe_secret = ce_secret x, pe_qr = ce_qr x,
                 pe_round = ce_round x, pe_pairs = ce_pairs x, pe_answer = Inl WCancelled\<rparr>
           in case (outcome, ce_result x) of
                (Inl failed, Inl reap) \<Rightarrow> Some (e\<lparr>pe_answer := Inl (WCommandFailed (reap_failed_text failed reap))\<rparr>)
              | (Inl failed, Inr _) \<Rightarrow> Some (e\<lparr>pe_answer := Inl failed\<rparr>)
              | (Inr _, Inl reap) \<Rightarrow> Some (e\<lparr>pe_answer := Inl reap\<rparr>)
              | (Inr guid, Inr _) \<Rightarrow> after_round adb cancel signals guid (ce_reason x) e)))))"

definition pair_qr_command_with_secret ::
  "qr_encoder \<Rightarrow> string \<Rightarrow> PairingSecret \<Rightarrow> (nat \<Rightarrow> 8 word) \<Rightarrow> host \<Rightarrow> pair_end option" where
  "pair_qr_command_with_secret enc adb secret signals h =
     pair_qr_command_with_cancel enc adb secret (\<lambda>_. False) signals h"

definition pair_qr_command ::
  "qr_encoder \<Rightarrow> (nat \<Rightarrow> 8 word list) \<Rightarrow> string \<Rightarrow> (nat \<Rightarrow> 8 word) \<Rightarrow> host \<Rightarrow> pair_end option" where
  "pair_qr_command enc blocks adb signals h =
     (case generate_pairing_secret blocks of
        None \<Rightarrow> None
      | Some secret \<Rightarrow> pair_qr_command_with_secret enc adb secret signals h)"

section \<open>Properties of the end of a round\<close>

lemma wipe_string_Nil [simp]: "wipe_string s = []"
  by (simp add: wipe_string_def)

lemma wipe_empty: "service_name (wipe s) = [] \<and> password (wipe s) = [] \<and> payload (wipe s) = []"
  by (simp add: wipe_def)

lemma join_both_returns:
  assumes "exited_by (now c) p" "tame d p"
  obtains c' where "join_both a b c p = Some c'" "now c \<le> now c'" "now c' \<le> now c + d" "lag c' = lag c"
proof -
  from assms have e: "exited_by (now c) p" "pipe_eof p = Some d" by (simp_all add: tame_def)
  obtain c1 c2 where j: "join_pipe (out_chunks p) c p = Some c1" "join_pipe (err_chunks p) c1 p = Some c2"
    "lag c2 = lag c" "now c \<le> now c1" "now c1 \<le> now c + d" "now c \<le> now c2" "now c2 \<le> now c + d"
    by (rule join_pipes_exited [OF e])
  obtain c3 c4 where k: "join_pipe (err_chunks p) c p = Some c3" "now c \<le> now c3" "now c3 \<le> now c + d"
    by (rule join_pipes_exited [OF e])
  have l: "lag c1 = lag c" "lag c3 = lag c" using join_pipe_mono j(1) k(1) by blast+
  show thesis
  proof (cases a)
    case True
    then have "join_both a b c p = Some (if b then c2 else c1)" using j by (simp add: join_both_def)
    then show thesis by (rule that) (use j l in auto)
  next
    case False
    then have "join_both a b c p = Some (if b then c3 else c)" using k by (simp add: join_both_def)
    then show thesis by (rule that) (use k l in auto)
  qed
qed

lemma kill_wait_join_returns:
  assumes "tame d p"
  obtains c' p' where "kill_wait_join a b c p = Some (c', p', Inr (), Inr (snd (the (exit_at p'))))"
    "tame d p'" "gone c' p'" "now c \<le> now c'" "now c' \<le> now c + d" "lag c' = lag c"
proof -
  let ?p = "os_kill_group SIGKILL (now c) p"
  have ex: "exited_by (now c) ?p" by (rule SIGKILL_exits)
  then obtain e k where e: "exit_at ?p = Some (e, k)" "e \<le> now c" by (auto simp: exited_by_def split: option.splits)
  let ?q = "?p\<lparr>reaped := True\<rparr>"
  have w: "os_wait c ?p = Some (c, ?q, Inr k)" using assms e by (simp add: os_wait_def tame_def max_def)
  have q: "exited_by (now c) ?q" "tame d ?q" using ex assms by (simp_all add: exited_by_def tame_def)
  obtain c' where j: "join_both a b c ?q = Some c'" "now c \<le> now c'" "now c' \<le> now c + d" "lag c' = lag c"
    by (rule join_both_returns [OF q])
  have "kill_wait_join a b c p = Some (c', ?q, Inr (), Inr (snd (the (exit_at ?q))))"
    using assms w j e by (simp add: kill_wait_join_def os_kill_def tame_def)
  moreover have "gone c' ?q" using q(1) j(2) exited_by_mono by (auto simp: gone_def)
  ultimately show thesis using that q(2) j by blast
qed

definition tame_pair :: "nat \<Rightarrow> PairProcess \<Rightarrow> bool" where
  "tame_pair d q \<longleftrightarrow> tame d (pp_child q)"

lemma kill_reap_returns:
  assumes "tame_pair d q"
  shows "\<exists>c' q'. kill_reap c q = Some (c', q', Inr ()) \<and> tame_pair d q' \<and> gone c' (pp_child q') \<and> now c \<le> now c'"
proof -
  obtain c' p' where "kill_wait_join (pp_out q) (pp_err q) c (pp_child q) = Some (c', p', Inr (), Inr (snd (the (exit_at p'))))"
    "tame d p'" "gone c' p'" "now c \<le> now c'"
    by (rule kill_wait_join_returns [OF assms [unfolded tame_pair_def]])
  then show ?thesis by (simp add: kill_reap_def tame_pair_def)
qed

lemma drop_gone:
  assumes "tame_pair d q" "gone c (pp_child q)"
  shows "\<exists>c' q'. drop_pair c q = Some (c', q') \<and> gone c' (pp_child q') \<and> now c \<le> now c'"
proof -
  obtain p r where tw: "os_try_wait c (pp_child q) = (p, r)" by (cases "os_try_wait c (pp_child q)")
  have t: "tame d p" "exit_at p = exit_at (pp_child q)" "reaped p" "saw_exit r"
    using tame_try_wait [OF tw, of d] assms by (auto simp: tame_pair_def gone_def saw_exit_def)
  then have ex: "exited_by (now c) p" using assms(2) by (simp add: gone_def exited_by_def)
  obtain c' where j: "join_both (pp_out q) (pp_err q) c p = Some c'" "now c \<le> now c'"
    by (rule join_both_returns [OF ex t(1)])
  with tw t ex exited_by_mono [OF ex j(2)] show ?thesis by (simp add: drop_pair_def gone_def)
qed

lemma gone_later: "gone c p \<Longrightarrow> now c \<le> now c' \<Longrightarrow> gone c' p"
  using exited_by_mono by (auto simp: gone_def)

lemma reap_pairs_returns:
  "\<forall>q \<in> set qs. tame_pair d q \<Longrightarrow>
   \<exists>c' qs'. reap_pairs c qs err = Some (c', qs', err) \<and> now c \<le> now c' \<and>
     (\<forall>q \<in> set qs'. tame_pair d q \<and> gone c' (pp_child q)) \<and> length qs' = length qs"
proof (induction qs arbitrary: c)
  case (Cons q qs)
  obtain p r where tw: "os_try_wait c (pp_child q) = (p, r)" by (cases "os_try_wait c (pp_child q)")
  from Cons.prems have t: "tame d (pp_child q)" by (simp add: tame_pair_def)
  note w = tame_try_wait [OF tw t]
  have "\<exists>c1 q1. (case r of Inr (Some _) \<Rightarrow> Some (c, q\<lparr>pp_child := p\<rparr>, err)
      | _ \<Rightarrow> (case kill_reap c (q\<lparr>pp_child := p\<rparr>) of None \<Rightarrow> None
          | Some (c, q, Inl e) \<Rightarrow> Some (c, q, get_or_insert e err) | Some (c, q, Inr _) \<Rightarrow> Some (c, q, err))) =
      Some (c1, q1, err) \<and> now c \<le> now c1 \<and> tame_pair d q1 \<and> gone c1 (pp_child q1)"
  proof (cases "exited_by (now c) (pp_child q)")
    case True
    with w show ?thesis by (auto simp: tame_pair_def gone_def exited_by_def)
  next
    case False
    have "tame_pair d (q\<lparr>pp_child := p\<rparr>)" using w by (simp add: tame_pair_def)
    from kill_reap_returns [OF this, of c] w False show ?thesis by auto
  qed
  then obtain c1 q1 where s: "(case r of Inr (Some _) \<Rightarrow> Some (c, q\<lparr>pp_child := p\<rparr>, err)
      | _ \<Rightarrow> (case kill_reap c (q\<lparr>pp_child := p\<rparr>) of None \<Rightarrow> None
          | Some (c, q, Inl e) \<Rightarrow> Some (c, q, get_or_insert e err) | Some (c, q, Inr _) \<Rightarrow> Some (c, q, err))) =
      Some (c1, q1, err)" "now c \<le> now c1" "tame_pair d q1" "gone c1 (pp_child q1)" by blast
  from Cons.IH [of c1] Cons.prems obtain c2 qs2 where "reap_pairs c1 qs err = Some (c2, qs2, err)" "now c1 \<le> now c2"
    "\<forall>q \<in> set qs2. tame_pair d q \<and> gone c2 (pp_child q)" "length qs2 = length qs" by auto
  with s tw gone_later [OF s(4)] show ?case by (simp add: Let_def)
qed simp

lemma drop_pairs_returns:
  "\<forall>q \<in> set qs. tame_pair d q \<and> gone c (pp_child q) \<Longrightarrow>
   \<exists>c' qs'. drop_pairs c qs = Some (c', qs') \<and> now c \<le> now c' \<and> (\<forall>q \<in> set qs'. gone c' (pp_child q)) \<and> length qs' = length qs"
proof (induction qs arbitrary: c)
  case (Cons q qs)
  from Cons.prems obtain c1 q1 where d: "drop_pair c q = Some (c1, q1)" "gone c1 (pp_child q1)" "now c \<le> now c1"
    using drop_gone by (meson list.set_intros(1))
  from Cons.prems d(3) gone_later have "\<forall>q \<in> set qs. tame_pair d q \<and> gone c1 (pp_child q)" by auto
  from Cons.IH [OF this] obtain c2 qs2 where "drop_pairs c1 qs = Some (c2, qs2)" "now c1 \<le> now c2"
    "\<forall>q \<in> set qs2. gone c2 (pp_child q)" "length qs2 = length qs" by blast
  with d gone_later [OF d(2)] show ?case by simp
qed simp

text \<open>
  The single exit of a round: \<open>round_close\<close> returns, every pairing process it was given is
  then dead and reaped and none is listed, the secret and the drawn code are erased, and the
  round is closed for good, for the reason of the event it was told (of an open round): a lost
  service does not leave it waiting, as no process is in flight any more.
\<close>

theorem round_close_cleans_up:
  assumes "\<forall>q \<in> set qs. tame (d) (pp_child q)"
  shows "\<exists>x. round_close c r qs secret qr event = Some x \<and>
    ce_pairs x = [] \<and> length (ce_dropped x) = length qs \<and>
    (\<forall>q \<in> set (ce_dropped x). reaped (pp_child q) \<and> exited_by (now (ce_clock x)) (pp_child q)) \<and>
    ce_result x = Inr () \<and>
    service_name (ce_secret x) = [] \<and> password (ce_secret x) = [] \<and> payload (ce_secret x) = [] \<and> ce_qr x = [] \<and>
    rd_closed (ce_round x) \<and> (\<not> rd_closed r \<longrightarrow> ce_reason x = cause event \<and> rd_id (ce_round x) = rd_id r + 1)"
proof -
  from reap_pairs_returns [of qs d c None] assms obtain c1 qs1 where
    r: "reap_pairs c qs None = Some (c1, qs1, None)" "\<forall>q \<in> set qs1. tame_pair d q \<and> gone c1 (pp_child q)"
      "length qs1 = length qs" by (auto simp: tame_pair_def)
  from drop_pairs_returns [OF r(2)] obtain c2 qs2 where
    d: "drop_pairs c1 qs1 = Some (c2, qs2)" "\<forall>q \<in> set qs2. gone c2 (pp_child q)" "length qs2 = length qs1" by blast
  obtain s a where o: "observe event (r\<lparr>pair_in_flight := False\<rparr>) = (s, a)"
    by (cases "observe event (r\<lparr>pair_in_flight := False\<rparr>)")
  have cases: "rd_closed r \<and> s = r\<lparr>pair_in_flight := False\<rparr> \<and> a = IgnoredAfterClose \<or>
      \<not> rd_closed r \<and> a = Close (cause event) \<and> rd_closed s \<and> rd_id s = rd_id r + 1"
    using o by (auto simp: observe_def close_round_def cause_def split: if_splits RoundEvent.splits)
  show ?thesis
    using cases r(3) d by (auto simp: round_close_def r(1) o wipe_empty gone_def Let_def)
qed

theorem round_close_cleans_up_witness:
  "\<exists>x. round_close clock0 (round_new 1)
      [\<lparr>pp_child = stubborn, pp_out = True, pp_err = True, pp_started = 0\<rparr>]
      \<lparr>service_name = ''studio-x'', password = ''pw'', payload = ''p''\<rparr> ''qr'' EvServiceLost = Some x \<and>
    ce_pairs x = [] \<and>
    length (ce_dropped x) = length [\<lparr>pp_child = stubborn, pp_out = True, pp_err = True, pp_started = 0\<rparr>] \<and>
    (\<forall>q \<in> set (ce_dropped x). reaped (pp_child q) \<and> exited_by (now (ce_clock x)) (pp_child q)) \<and>
    ce_result x = Inr () \<and>
    service_name (ce_secret x) = [] \<and> password (ce_secret x) = [] \<and> payload (ce_secret x) = [] \<and> ce_qr x = [] \<and>
    rd_closed (ce_round x) \<and>
    (\<not> rd_closed (round_new 1) \<longrightarrow> ce_reason x = cause EvServiceLost \<and> rd_id (ce_round x) = rd_id (round_new 1) + 1)"
  by (rule round_close_cleans_up [where d = 0]) (simp add: tame_def stubborn_def)

end
