(* ===== verification/PairingFlow.thy ===== *)
theory PairingFlow
  imports PairingRound
begin

text \<open>
  Properties of the whole pairing flow of \<open>wireless.rs\<close>: which commands a round issues, how its
  event and its answer agree, what the command \<open>pair-qr\<close> leaves behind and what it reports, and
  what its second way of connecting is worth.
\<close>

section \<open>The commands a round issues\<close>

text \<open>From \<open>h\<close> to \<open>h'\<close> only commands that satisfy \<open>P\<close> were issued.\<close>

definition issues :: "(string \<times> (string \<times> string) list \<times> string list \<Rightarrow> bool) \<Rightarrow> host \<Rightarrow> host \<Rightarrow> bool" where
  "issues P h h' \<longleftrightarrow> (\<exists>cs. issued h' = issued h @ cs \<and> list_all P cs)"

lemma issues_refl [simp, intro]: "issued h' = issued h \<Longrightarrow> issues P h h'"
  by (simp add: issues_def)

lemma issues_trans [trans]: "issues P h1 h2 \<Longrightarrow> issues P h2 h3 \<Longrightarrow> issues P h1 h3"
  by (fastforce simp: issues_def)

lemma issues_one: "issued h' = issued h @ [c] \<Longrightarrow> P c \<Longrightarrow> issues P h h'"
  by (auto simp: issues_def)

lemma issues_clk [simp]: "issues P (h\<lparr>clk := c\<rparr>) h' = issues P h h'" "issues P h (h'\<lparr>clk := c\<rparr>) = issues P h h'"
  by (simp_all add: issues_def)

definition pairing_call :: "string \<Rightarrow> string \<times> (string \<times> string) list \<times> string list \<Rightarrow> bool" where
  "pairing_call adb call = (case call of (path, env, args) \<Rightarrow>
     path = adb \<and> env = [] \<and> (args = [''mdns'', ''services''] \<or> (length args = 2 \<and> hd args = ''pair'')))"

lemma run_adb_issued: "run_adb adb argv h = Some (h', r) \<Longrightarrow> issued h' = issued h @ [(adb, [], argv)]"
  by (auto simp: run_adb_def split: prod.splits sum.splits dest!: os_spawn_eq)

lemma pair_spawn_issued: "pair_spawn adb e pw h = Some (h', r) \<Longrightarrow> issued h' = issued h @ [(adb, [], [''pair'', e])]"
  by (auto simp: pair_spawn_def split: prod.splits sum.splits option.splits dest!: os_spawn_eq)

lemma query_services_issues:
  "query_services adb h v = Some (Inr (h', v', f)) \<Longrightarrow> issues (pairing_call adb) h h'"
  "query_services adb h v = Some (Inl (h', e)) \<Longrightarrow> issues (pairing_call adb) h h'"
  by (auto simp: query_services_def adb_mdns_services_def failed_round_def pairing_call_def
      split: option.splits if_splits sum.splits prod.splits dest!: run_adb_issued intro!: issues_one)

lemma spawn_pairs_issues:
  "spawn_pairs adb pw h es qs sp r w = Some (h', x) \<Longrightarrow> issues (pairing_call adb) h h'"
proof (induction es arbitrary: h qs sp r w)
  case (Cons e es)
  show ?case
  proof (cases "e \<in> set sp")
    case False
    with Cons.prems obtain h1 y where y: "pair_spawn adb e pw h = Some (h1, y)" by (auto split: option.splits)
    have i: "issues (pairing_call adb) h h1"
      by (rule issues_one [OF pair_spawn_issued [OF y]]) (simp add: pairing_call_def)
    show ?thesis
    proof (cases y)
      case (Inl error)
      with Cons.prems False y i show ?thesis by (auto split: if_splits)
    next
      case (Inr q)
      with Cons.prems False y have "spawn_pairs adb pw h1 es (qs @ [q]) (sp @ [e]) (r\<lparr>pair_in_flight := True\<rparr>) w = Some (h', x)"
        by simp
      from issues_trans [OF i Cons.IH [OF this]] show ?thesis .
    qed
  qed (use Cons in simp)
qed simp

lemma discover_issues:
  "discover adb secret i found h v = Some (Inr (h', v')) \<Longrightarrow> issues (pairing_call adb) h h'"
  "discover adb secret i found h v = Some (Inl (h', e)) \<Longrightarrow> issues (pairing_call adb) h h'"
  by (auto simp: discover_def Let_def failed_round_def split: option.splits if_splits prod.splits dest!: spawn_pairs_issues)

lemma round_turn_issues:
  "round_turn adb secret i found h v = Some (Inr (h', v')) \<Longrightarrow> issues (pairing_call adb) h h'"
  "round_turn adb secret i found h v = Some (Inl (h', e)) \<Longrightarrow> issues (pairing_call adb) h h'"
  by (auto simp: round_turn_def Let_def failed_round_def split: option.splits if_splits sum.splits prod.splits
      dest!: discover_issues)

section \<open>The invariant of the loop\<close>

text \<open>
  Between two turns the round is open, and whenever a process was started one is running.
\<close>

definition round_inv :: "round_vars \<Rightarrow> bool" where
  "round_inv v \<longleftrightarrow> \<not> rd_closed (rv_round v) \<and>
     (rv_spawned v \<noteq> [] \<longrightarrow> rv_pairs v \<noteq> [] \<and> pair_in_flight (rv_round v)) \<and> paired (rv_watch v) = None"

definition agree :: "RoundEvent \<Rightarrow> WirelessError + string \<Rightarrow> bool" where
  "agree event outcome \<longleftrightarrow> (\<forall>g. outcome = Inr g \<longleftrightarrow> event = EvPairSucceeded g)"

lemma agree_simps [simp]:
  "agree (EvPairSucceeded g) (Inr g)" "agree EvCancelled (Inl e)" "agree EvTimeout (Inl e)"
  by (simp_all add: agree_def)

lemma failed_round_agree: "failed_round h v e = (h', v', event, r) \<Longrightarrow> h' = h \<and> v' = v \<and> agree event r"
  by (auto simp: failed_round_def agree_def classify_round_failure_def Let_def split: if_splits)

lemma poll_pairs_ends:
  "poll_pairs pw c qs w = Some (c', qs', w') \<Longrightarrow> paired w = None \<Longrightarrow>
   (failure w \<noteq> None \<longrightarrow> failure w' \<noteq> None) \<and> (qs \<noteq> [] \<and> qs' = [] \<longrightarrow> failure w' \<noteq> None)"
proof (induction qs arbitrary: c w c' qs' w')
  case (Cons q qs)
  obtain c1 q1 r where p: "pair_poll c q = Some (c1, q1, r)"
    using Cons.prems by (cases "pair_poll c q") (auto simp: poll_pairs.simps)
  have rm: ?case if "poll_pairs pw c2 qs v = Some (c', qs', w')" "failure v \<noteq> None" "paired v = None" for c2 v
    using Cons.IH [OF that(1,3)] that(2) by simp
  have g: "get_or_insert x y \<noteq> None" for x :: WirelessError and y by (simp add: get_or_insert_def split: option.splits)
  show ?case
  proof (cases r)
    case (Inl e)
    with p Cons.prems rm g show ?thesis by (auto simp: poll_pairs.simps split: if_splits option.splits)
  next
    case (Inr st)
    show ?thesis
    proof (cases st)
      case None
      with p Inr Cons.prems obtain qs2 where "poll_pairs pw c1 qs w = Some (c', qs2, w')" "qs' \<noteq> []"
        by (auto simp: poll_pairs.simps split: option.splits)
      with Cons.IH [OF this(1) Cons.prems(2)] show ?thesis by simp
    next
      case (Some x)
      with p Inr Cons.prems rm g show ?thesis
        by (cases x) (auto simp: poll_pairs.simps Let_def split: if_splits option.splits)
    qed
  qed
qed simp

lemma spawn_pairs_inv:
  "spawn_pairs adb pw h es qs sp r w = Some (h', qs', sp', r', w', err) \<Longrightarrow> \<not> rd_closed r \<Longrightarrow>
   (sp \<noteq> [] \<longrightarrow> qs \<noteq> [] \<and> pair_in_flight r) \<Longrightarrow>
   \<not> rd_closed r' \<and> (sp' \<noteq> [] \<longrightarrow> qs' \<noteq> [] \<and> pair_in_flight r') \<and> paired w' = paired w"
proof (induction es arbitrary: h qs sp r w)
  case (Cons e es)
  show ?case
  proof (cases "e \<in> set sp")
    case True
    with Cons show ?thesis by simp
  next
    case False
    with Cons.prems obtain h1 y where y: "pair_spawn adb e pw h = Some (h1, y)" by (auto split: option.splits)
    show ?thesis
    proof (cases y)
      case (Inl error)
      with Cons.prems False y show ?thesis by (auto split: if_splits)
    next
      case (Inr q)
      with Cons.prems False y have s: "spawn_pairs adb pw h1 es (qs @ [q]) (sp @ [e]) (r\<lparr>pair_in_flight := True\<rparr>) w =
          Some (h', qs', sp', r', w', err)" by simp
      have "\<not> rd_closed (r\<lparr>pair_in_flight := True\<rparr>)"
        "sp @ [e] \<noteq> [] \<longrightarrow> qs @ [q] \<noteq> [] \<and> pair_in_flight (r\<lparr>pair_in_flight := True\<rparr>)" using Cons.prems by simp_all
      from Cons.IH [OF s this] show ?thesis .
    qed
  qed
qed simp

lemma observe_lost: "\<not> rd_closed r \<Longrightarrow> pair_in_flight r \<Longrightarrow>
    \<not> rd_closed (fst (observe_for_round i EvServiceLost r)) \<and> pair_in_flight (fst (observe_for_round i EvServiceLost r))"
  by (auto simp: observe_for_round_def observe_def split: if_splits)

lemma discover_inv:
  assumes "discover adb secret i found h v = Some x" "round_inv v"
  shows "case x of Inl (h', v', event, r) \<Rightarrow> \<not> rd_closed (rv_round v') \<and> agree event r | Inr (h', v') \<Rightarrow> round_inv v'"
proof (cases found)
  case None
  with assms show ?thesis by (auto simp: discover_def)
next
  case (Some services)
  let ?m = "find_pairing_services services (service_name secret)"
  from assms(1) Some obtain h1 qs sp r w e where
    s: "spawn_pairs adb (password secret) h (map endpoint_text ?m) (rv_pairs v) (rv_spawned v) (rv_round v) (rv_watch v) =
      Some (h1, qs, sp, r, w, e)" by (auto simp: discover_def Let_def split: option.splits)
  have i: "\<not> rd_closed r \<and> (sp \<noteq> [] \<longrightarrow> qs \<noteq> [] \<and> pair_in_flight r) \<and> paired w = None"
    using spawn_pairs_inv [OF s] assms(2) by (simp add: round_inv_def)
  show ?thesis
  proof (cases e)
    case None
    with assms(1) Some s i observe_lost [of r] show ?thesis
      by (auto simp: discover_def Let_def round_inv_def split: if_splits)
  next
    case (Some error)
    with assms(1) \<open>found = Some services\<close> s i show ?thesis
      by (auto simp: discover_def Let_def dest!: failed_round_agree split: prod.splits)
  qed
qed

lemma round_turn_inv:
  assumes "round_turn adb secret i found h v = Some x" "round_inv v"
  shows "case x of Inl (h', v', event, r) \<Rightarrow> \<not> rd_closed (rv_round v') \<and> agree event r | Inr (h', v') \<Rightarrow> round_inv v'"
proof -
  from assms(1) obtain y where d: "discover adb secret i found h v = Some y" by (auto simp: round_turn_def split: option.splits)
  note di = discover_inv [OF d assms(2)]
  show ?thesis
  proof (cases y)
    case (Inl e)
    with assms(1) d di show ?thesis by (auto simp: round_turn_def)
  next
    case (Inr z)
    obtain h1 v1 where z: "z = (h1, v1)" by (cases z)
    with di Inr have v1: "round_inv v1" by simp
    from assms(1) d Inr z obtain c qs w where
      p: "poll_pairs (password secret) (clk h1) (rv_pairs v1) (rv_watch v1) = Some (c, qs, w)"
      by (auto simp: round_turn_def split: option.splits)
    have f: "rv_pairs v1 \<noteq> [] \<and> qs = [] \<longrightarrow> failure w \<noteq> None"
      using poll_pairs_ends [OF p] v1 by (simp add: round_inv_def)
    have t: "round_turn adb secret i found h v =
        (let h = h1\<lparr>clk := c\<rparr>; v = v1\<lparr>rv_pairs := qs, rv_watch := w\<rparr> in
                case paired w of
                  Some guid \<Rightarrow> Some (Inl (h, v, EvPairSucceeded guid, Inr guid))
                | None \<Rightarrow>
                    if qs = []
                    then (let v = v\<lparr>rv_round := (rv_round v)\<lparr>pair_in_flight := False\<rparr>\<rparr> in
                          case failure w of
                            Some error \<Rightarrow> Some (Inl (failed_round h v error))
                          | None \<Rightarrow> Some (Inr (h, v)))
                    else Some (Inr (h, v)))"
      by (simp add: round_turn_def d Inr z p)
    show ?thesis
      using assms(1) v1 f unfolding t
      by (auto simp: round_inv_def Let_def dest!: failed_round_agree split: option.splits if_splits prod.splits)
  qed
qed

lemma query_services_inv:
  assumes "query_services adb h v = Some x" "round_inv v"
  shows "case x of Inl (h', v', event, r) \<Rightarrow> \<not> rd_closed (rv_round v') \<and> agree event r | Inr (h', v', f) \<Rightarrow> round_inv v'"
  using assms by (auto simp: query_services_def round_inv_def dest!: failed_round_agree
      split: option.splits sum.splits if_splits prod.splits)


lemma round_loop_end:
  "round_loop adb secret i deadline cancel signals h v = Some (h', v', event, r) \<Longrightarrow> round_inv v \<Longrightarrow>
   \<not> rd_closed (rv_round v') \<and> agree event r \<and> issues (pairing_call adb) h h'"
proof (induction adb secret i deadline cancel signals h v rule: round_loop.induct)
  case (1 adb secret i deadline cancel signals h v)
  obtain c stopped where ps: "poll_stop cancel signals (clk h) = (c, stopped)"
    by (cases "poll_stop cancel signals (clk h)")
  note unf = round_loop.simps [of adb secret i deadline cancel signals h v]
  show ?case
  proof (cases "stopped \<or> deadline \<le> now c")
    case True
    with 1 ps show ?thesis by (auto simp: unf round_inv_def split: if_splits)
  next
    case False
    then have ns: "\<not> stopped" "\<not> deadline \<le> now c" by simp_all
    from 1(2) ps ns obtain q where q: "query_services adb (h\<lparr>clk := c\<rparr>) v = Some q"
      by (auto simp: unf split: option.splits)
    note qi = query_services_inv [OF q 1(3)]
    show ?thesis
    proof (cases q)
      case (Inl e)
      with 1(2) ps ns q qi query_services_issues(2) [of adb "h\<lparr>clk := c\<rparr>" v h' "(v', event, r)"] show ?thesis
        by (simp add: unf)
    next
      case (Inr y)
      obtain h1 v1 found where y: "y = (h1, v1, found)" by (cases y)
      have v1: "round_inv v1" using qi Inr y by simp
      from q Inr y have i1: "issues (pairing_call adb) h h1" using query_services_issues(1) by fastforce
      from 1(2) ps ns q Inr y obtain t where t: "round_turn adb secret i found h1 v1 = Some t"
        by (auto simp: unf split: option.splits)
      note ti = round_turn_inv [OF t v1]
      show ?thesis
      proof (cases t)
        case (Inl e)
        with 1(2) ps ns q \<open>q = Inr y\<close> y t have e: "e = (h', v', event, r)" by (simp add: unf)
        with t Inl have "issues (pairing_call adb) h1 h'" using round_turn_issues(2) by blast
        with ti Inl e issues_trans [OF i1] show ?thesis by auto
      next
        case (Inr z)
        obtain h2 v2 where z: "z = (h2, v2)" by (cases z)
        from 1(2) ps ns q \<open>q = Inr y\<close> y t Inr z
        have l: "round_loop adb secret i deadline cancel signals (h2\<lparr>clk := os_sleep 250 (clk h2)\<rparr>) v2 = Some (h', v', event, r)"
          by (simp add: unf)
        have v2: "round_inv v2" using ti Inr z by simp
        from t Inr z have i2: "issues (pairing_call adb) h1 h2" using round_turn_issues(1) by blast
        have "\<not> rd_closed (rv_round v') \<and> agree event r \<and> issues (pairing_call adb) (h2\<lparr>clk := os_sleep 250 (clk h2)\<rparr>) h'"
          by (rule 1(1) [OF ps [symmetric] refl ns q \<open>q = Inr y\<close> y [symmetric] refl t \<open>t = Inr z\<close> z [symmetric] l v2])
        with issues_trans [OF i1 issues_trans [OF i2]] show ?thesis by simp
      qed
    qed
  qed
qed



section \<open>Waiting for the device\<close>

lemma wait_guid_sound:
  "wait_guid_loop adb guid started timeout cancel signals h = Some (h', Inr s) \<Longrightarrow>
   serial_matches_guid s guid \<and> started + timeout > now (clk h)"
proof (induction adb guid started timeout cancel signals h rule: wait_guid_loop.induct)
  case (1 adb guid started timeout cancel signals h)
  note unf = wait_guid_loop.simps [of adb guid started timeout cancel signals h]
  from 1(2) have lt: "elapsed started (clk h) < timeout" by (auto simp: unf split: if_splits)
  then have l: "now (clk h) < started + timeout" by (simp add: elapsed_def)
  obtain c stopped where ps: "poll_stop cancel signals (clk h) = (c, stopped)" by (cases "poll_stop cancel signals (clk h)")
  from 1(2) lt ps have ns: "\<not> stopped" by (auto simp: unf)
  from 1(2) lt ps ns obtain h1 st out err ds where
    r: "run_adb adb [''devices'', ''-l''] (h\<lparr>clk := c\<rparr>) = Some (h1, Inr (st, out, err))" "st = 0" "parse_devices out = Inr ds"
    by (auto simp: unf split: option.splits sum.splits if_splits)
  show ?case
  proof (cases "device_for_guid guid ds")
    case (Some t)
    with 1(2) lt ps ns r have "s = t" by (simp add: unf)
    with Some l show ?thesis by (auto simp: device_for_guid_def find_Some_iff)
  next
    case None
    from 1(2) lt ps ns r None
    have "wait_guid_loop adb guid started timeout cancel signals (h1\<lparr>clk := os_sleep 250 (clk h1)\<rparr>) = Some (h', Inr s)"
      by (simp add: unf)
    from 1(1) [OF lt ps [symmetric] refl ns r(1) refl refl refl refl _ r(3) None this] r(2) l show ?thesis by simp
  qed
qed

lemma wait_guid_no_time: "wait_guid_loop adb guid started 0 cancel signals h = Some (h, Inl WTimedOut)"
  by (simp add: wait_guid_loop.simps [of adb guid started 0])

text \<open>
  What the second way of connecting is worth. After a pairing the device is awaited, and if
  that fails it is connected to explicitly and awaited again; both waits share one deadline. So
  when the first wait ended because that deadline passed, the second way cannot succeed any
  more: whatever \<open>adb\<close> then does, and even if the device is listed, the command fails.
\<close>

theorem bring_up_fallback_in_vain:
  assumes "wait_for_guid_with_cancel adb guid ROUND_TIMEOUT cancel signals h = Some (h1, Inl e)"
    and "now (clk h) + ROUND_TIMEOUT \<le> now (clk h1)"
    and "bring_up adb guid cancel signals h = Some (h', r)"
  shows "\<not> isOk r"
proof -
  let ?d = "now (clk h) + ROUND_TIMEOUT"
  have late: "?d - now c = 0" if "now (clk h1) \<le> now c" for c using that assms(2) by simp
  have pc: "now (clk (fst (poll_cancel cancel g))) = now (clk g)" for g by (simp add: poll_cancel_def poll_flag_def)
  have w: "wait_for_guid_with_cancel adb guid 0 cancel signals g = Some (g, Inl WTimedOut)" for g
    by (simp add: wait_for_guid_with_cancel_def wait_guid_no_time)
  obtain h2 b2 where p2: "poll_cancel cancel h1 = (h2, b2)" by (cases "poll_cancel cancel h1")
  with pc [of h1] have n2: "now (clk h2) = now (clk h1)" by simp
  show ?thesis
  proof (cases b2)
    case True
    with assms(1,3) p2 show ?thesis by (auto simp: bring_up_def split: prod.splits)
  next
    case False
    from assms(1,3) p2 False obtain h3 m where m: "adb_mdns_services adb h2 = Some (h3, m)"
      by (auto simp: bring_up_def split: option.splits)
    have n3: "now (clk h2) \<le> now (clk h3)" using m
      by (auto simp: adb_mdns_services_def split: option.splits sum.splits if_splits dest!: run_adb_mono)
    show ?thesis
    proof (cases "\<exists>services service. m = Inr services \<and> connect_service_for_guid services guid = Some service")
      case False
      with assms(1,3) p2 \<open>\<not> b2\<close> m show ?thesis
        by (auto simp: bring_up_def split: sum.splits option.splits)
    next
      case True
      then obtain services service where sv: "m = Inr services" "connect_service_for_guid services guid = Some service" by blast
      obtain h4 b4 where p4: "poll_cancel cancel h3 = (h4, b4)" by (cases "poll_cancel cancel h3")
      with pc [of h3] have n4: "now (clk h4) = now (clk h3)" by simp
      show ?thesis
      proof (cases b4)
        case True
        with assms(1,3) p2 \<open>\<not> b2\<close> m sv p4 show ?thesis by (auto simp: bring_up_def)
      next
        case False
        from assms(1,3) p2 \<open>\<not> b2\<close> m sv p4 False obtain h5 k where k: "wl_connect adb (endpoint_text service) h4 = Some (h5, k)"
          by (auto simp: bring_up_def split: option.splits)
        have n5: "now (clk h4) \<le> now (clk h5)" using k
          by (auto simp: wl_connect_def split: option.splits sum.splits if_splits dest!: run_adb_mono)
        obtain h6 b6 where p6: "poll_cancel cancel h5 = (h6, b6)" by (cases "poll_cancel cancel h5")
        with pc [of h5] have n6: "now (clk h6) = now (clk h5)" by simp
        have "?d - now (clk h6) = 0" using n2 n3 n4 n5 n6 by (intro late) simp
        with assms(1,3) p2 \<open>\<not> b2\<close> m sv p4 False k p6 w show ?thesis
          by (auto simp: bring_up_def split: sum.splits if_splits prod.splits)
      qed
    qed
  qed
qed

text \<open>A machine that was asleep while the first listing of the devices ran.\<close>

definition sleepy_host :: host where
  "sleepy_host = (host0 stubborn)\<lparr>clk := clock0\<lparr>lag := (\<lambda>_. 300000)\<rparr>\<rparr>"

lemma run_adb_hangs: "launch h (length (issued h)) adb [] argv = Inr stubborn \<Longrightarrow> lag (clk h) = (\<lambda>_. 300000) \<Longrightarrow>
   run_adb adb argv h = Some (h\<lparr>clk := os_sleep 10 (clk h), issued := issued h @ [(adb, [], argv)]\<rparr>, Inl WTimedOut)"
  by (simp add: run_adb_def os_spawn_env_def collect_loop.simps stubborn_def os_try_wait_def elapsed_def WL_COMMAND_TIMEOUT_def
      kill_wait_join_def os_kill_def os_kill_group_def exited_by_def reaction_def os_wait_def join_both_def join_pipe_def os_join_reader_def)

theorem bring_up_fallback_in_vain_witness:
  "case bring_up ''adb'' ''adb-G7'' (\<lambda>_. False) (\<lambda>_. 0) sleepy_host of None \<Rightarrow> False | Some (_, r) \<Rightarrow> \<not> isOk r"
proof -
  let ?w = "wait_for_guid_with_cancel ''adb'' ''adb-G7'' ROUND_TIMEOUT (\<lambda>_. False) (\<lambda>_. 0) sleepy_host"
  note ev = wait_for_guid_with_cancel_def wait_guid_loop.simps poll_stop_def poll_flag_def signal_requested_def sleepy_host_def
    host0_def clock0_def run_adb_hangs elapsed_def ROUND_TIMEOUT_def
  have 1: "\<exists>h1. ?w = Some (h1, Inl WTimedOut) \<and> now (clk sleepy_host) + ROUND_TIMEOUT \<le> now (clk h1)"
    by (simp add: ev)
  have "\<exists>h' r. bring_up ''adb'' ''adb-G7'' (\<lambda>_. False) (\<lambda>_. 0) sleepy_host = Some (h', r)"
    by (simp add: bring_up_def poll_cancel_def adb_mdns_services_def ev)
  then obtain h' r where 2: "bring_up ''adb'' ''adb-G7'' (\<lambda>_. False) (\<lambda>_. 0) sleepy_host = Some (h', r)" by blast
  from 1 bring_up_fallback_in_vain [OF _ _ 2] have "\<not> isOk r" by blast
  with 2 show ?thesis by simp
qed

section \<open>The whole command\<close>

text \<open>Nothing of the pairing is left: no process is listed, and secret and drawn code are erased.\<close>

definition clean :: "pair_end \<Rightarrow> bool" where
  "clean e \<longleftrightarrow> pe_pairs e = [] \<and> pe_qr e = [] \<and> service_name (pe_secret e) = [] \<and> password (pe_secret e) = [] \<and>
     payload (pe_secret e) = []"

lemma round_close_clean:
  "round_close c r qs secret qr event = Some x \<Longrightarrow>
   ce_pairs x = [] \<and> ce_qr x = [] \<and> service_name (ce_secret x) = [] \<and> password (ce_secret x) = [] \<and> payload (ce_secret x) = []"
  by (auto simp: round_close_def wipe_empty split: option.splits prod.splits)

lemma round_close_event:
  "round_close c r qs secret qr (EvPairSucceeded g) = Some x \<Longrightarrow> \<not> rd_closed r \<Longrightarrow>
   ce_reason x = CSuccess \<and> rd_guid (ce_round x) = Some g \<and> rd_closed (ce_round x)"
  by (auto simp: round_close_def observe_def close_round_def Let_def split: option.splits prod.splits)

lemma cancelled_end_clean: "cancelled_end h e err = Some e' \<Longrightarrow> clean e' \<and> pe_answer e' = Inl err"
  by (auto simp: cancelled_end_def clean_def dest!: round_close_clean split: option.splits)

lemma bring_up_sound: "bring_up adb guid cancel signals h = Some (h', Inr s) \<Longrightarrow> serial_matches_guid s guid"
  by (auto simp: bring_up_def wait_for_guid_with_cancel_def Let_def dest: wait_guid_sound
      split: option.splits sum.splits prod.splits if_splits)

lemma after_round_end:
  assumes "after_round adb cancel signals guid reason e = Some e'" "clean e"
  shows "clean e' \<and> (\<forall>s n w. pe_answer e' = Inr (s, n, w) \<longrightarrow>
    w = reason \<and> serial_matches_guid s guid \<and> pe_round e' = pe_round e)"
  using assms by (auto simp: after_round_def clean_def Let_def dest!: cancelled_end_clean bring_up_sound
      split: option.splits sum.splits prod.splits if_splits bool.splits)



lemma finish_output_errors: "finish_output c p st = Some (c', Inl e) \<Longrightarrow> e \<noteq> WCommandFailed t"
  by (auto simp: finish_output_def capture_all_def mapErr_Inl_iff split: option.splits sum.splits prod.splits if_splits)

lemma kill_reap_errors: "kill_reap c q = Some (c', q', Inl e) \<Longrightarrow> e \<noteq> WCommandFailed t"
  by (auto simp: kill_reap_def split: option.splits sum.splits prod.splits if_splits)

lemma pair_poll_errors: "pair_poll c q = Some (c', q', Inl e) \<Longrightarrow> e \<noteq> WCommandFailed t"
  by (auto simp: pair_poll_def pair_finish_def andThen_Inl_iff split: prod.splits sum.splits option.splits if_splits
      dest: finish_output_errors kill_reap_errors)

lemma pair_loop_hides:
  assumes "pw \<noteq> []" "CHR ''['' \<notin> set pw" "CHR '']'' \<notin> set pw" "\<not> str_contains pw ''redacted''"
  shows "pair_loop pw c q = Some (c', q', Inl (WCommandFailed t)) \<Longrightarrow> \<not> str_contains pw t"
  using assms
proof (induction pw c q rule: pair_loop.induct)
  case (1 pw c q)
  obtain c1 q1 r where p: "pair_poll c q = Some (c1, q1, r)"
    using "1.prems"(1) by (auto simp: pair_loop.simps [of pw c q] split: option.splits)
  show ?case
  proof (cases r)
    case (Inl e)
    with p "1.prems"(1) pair_poll_errors [of c q c1 q1 e t] show ?thesis by (simp add: pair_loop.simps [of pw c q])
  next
    case (Inr s)
    show ?thesis
    proof (cases s)
      case None
      with Inr p "1.prems" have "pair_loop pw (os_sleep 10 c1) q1 = Some (c', q', Inl (WCommandFailed t))"
        by (simp add: pair_loop.simps [of pw c q])
      with "1.IH" [OF p refl refl Inr None] "1.prems" show ?thesis by blast
    next
      case (Some out)
      obtain st o1 e1 where out: "out = (st, o1, e1)" by (cases out)
      with Some Inr p "1.prems"(1) have "t = stderr_summary e1 pw"
        by (cases "find_guid o1") (auto simp: pair_loop.simps [of pw c q] split: if_splits option.splits)
      with "1.prems" summary_hides show ?thesis by blast
    qed
  qed
qed




end
