(* ===== verification/ScrcpyCli.thy ===== *)
theory ScrcpyCli
  imports PairingFlow
begin

text \<open>
  The program \<open>quadcontrol-scrcpy\<close> (\<open>quadcontrol-android\<close>, \<open>main.rs\<close>): its arguments, the
  commands \<open>pair-qr\<close>, \<open>pair-code\<close> and \<open>connect\<close>, and mirroring a device. The help text, the
  environment, the standard input and the random source are parameters.
\<close>

section \<open>Arguments\<close>

definition remove_at :: "nat \<Rightarrow> 'a list \<Rightarrow> 'a list" where
  "remove_at i xs = take i xs @ drop (Suc i) xs"

definition take_value :: "string list \<Rightarrow> string \<Rightarrow> string + string list \<times> string option" where
  "take_value args flag =
     (case position (\<lambda>a. a = flag) args of
        Some i \<Rightarrow>
          (if length args \<le> i + 1 then Inl (flag @ '' requires a value'')
           else Inr (remove_at i (remove_at (i + 1) args), Some (args ! (i + 1))))
      | None \<Rightarrow> Inr (args, None))"

definition take_flag :: "string list \<Rightarrow> string \<Rightarrow> string list \<times> bool" where
  "take_flag args flag =
     (case position (\<lambda>a. a = flag) args of
        Some i \<Rightarrow> (remove_at i args, True)
      | None \<Rightarrow> (args, False))"

definition cli_adb_path :: "(string \<Rightarrow> string option) \<Rightarrow> string list \<Rightarrow> string" where
  "cli_adb_path env args =
     (case position (\<lambda>a. a = ''--adb'') args of
        Some i \<Rightarrow> if i + 1 < length args then args ! (i + 1) else resolve_adb env None
      | None \<Rightarrow> resolve_adb env None)"

definition cli_endpoint :: "string list \<Rightarrow> string + string" where
  "cli_endpoint args = (case args of a # _ \<Rightarrow> Inr a | [] \<Rightarrow> Inl ([CHR 0xE9, CHR 0x9C, CHR 0x80, CHR 0xE8, CHR 0xA6, CHR 0x81] @ '' ip:port '' @ [CHR 0xE5, CHR 0x8F,
      CHR 0x82, CHR 0xE6, CHR 0x95, CHR 0xB0]))"

section \<open>Console\<close>

text \<open>
  The machine, the lines printed on the two streams, and the buffers that held a code. An
  answer is an error, whose text is what \<open>main\<close> returns, or an exit code.
\<close>

record console =
  cn_host :: host
  cn_out :: "string list"
  cn_err :: "string list"
  cn_code :: string
  cn_trimmed :: string

definition console_new :: "host \<Rightarrow> console" where
  "console_new h = \<lparr>cn_host = h, cn_out = [], cn_err = [], cn_code = [], cn_trimmed = []\<rparr>"

definition say :: "string \<Rightarrow> console \<Rightarrow> console" where
  "say s k = k\<lparr>cn_out := cn_out k @ [s]\<rparr>"

definition complain :: "string \<Rightarrow> console \<Rightarrow> console" where
  "complain s k = k\<lparr>cn_err := cn_err k @ [s]\<rparr>"

type_synonym cli_end = "console \<times> (string + int)"

definition show_version :: "adb_version \<Rightarrow> string" where
  "show_version v = (case v of (a, b, c) \<Rightarrow> show_nat a @ ''.'' @ show_nat b @ ''.'' @ show_nat c)"

definition warn_if_below_baseline :: "AdbPrecheck \<Rightarrow> console \<Rightarrow> console" where
  "warn_if_below_baseline precheck k =
     (if below_tested_baseline precheck
      then complain (([CHR 0xE6, CHR 0x8F, CHR 0x90, CHR 0xE7, CHR 0xA4, CHR 0xBA] @ '':adb '') @ show_version (pc_version precheck) @ ('' '' @ [CHR 0xE4, CHR 0xBD, CHR 0x8E, CHR 0xE4, CHR 0xBA, CHR 0x8E, CHR 0xE6, CHR 0x9C, CHR 0xAC,
      CHR 0xE9, CHR 0xA1, CHR 0xB9, CHR 0xE7, CHR 0x9B, CHR 0xAE, CHR 0xE5, CHR 0xAE, CHR 0x9E, CHR 0xE6,
      CHR 0xB5, CHR 0x8B, CHR 0xE5, CHR 0x9F, CHR 0xBA, CHR 0xE7, CHR 0xBA, CHR 0xBF] @ '' '') @ show_version TESTED_BASELINE @
             ('','' @ [CHR 0x0A, CHR 0xE5, CHR 0x8A, CHR 0x9F, CHR 0xE8, CHR 0x83, CHR 0xBD, CHR 0xE5, CHR 0xBA,
      CHR 0x94, CHR 0xE5, CHR 0x8F, CHR 0xAF, CHR 0xE7, CHR 0x94, CHR 0xA8, CHR 0xE4, CHR 0xBD, CHR 0x86,
      CHR 0xE6, CHR 0x9C, CHR 0xAA, CHR 0xE5, CHR 0x9C, CHR 0xA8, CHR 0xE8, CHR 0xAF, CHR 0xA5, CHR 0xE7,
      CHR 0x89, CHR 0x88, CHR 0xE6, CHR 0x9C, CHR 0xAC, CHR 0xE4, CHR 0xB8, CHR 0x8A, CHR 0xE5, CHR 0xAE,
      CHR 0x9E, CHR 0xE6, CHR 0xB5, CHR 0x8B, CHR 0xE8, CHR 0xBF, CHR 0x87] @
      '' / adb below tested baseline.'')) k
      else k)"

section \<open>The commands\<close>

definition cli_restart :: "string \<Rightarrow> string list \<Rightarrow> console \<Rightarrow> (console \<times> (string + unit)) option" where
  "cli_restart adb args k =
     (if ''--restart-adb-server'' \<in> set args
      then map_option (\<lambda>(h, r). ((complain ([CHR 0xE6, CHR 0xAD, CHR 0xA3, CHR 0xE5, CHR 0x9C, CHR 0xA8, CHR 0xE9, CHR 0x87, CHR 0x8D, CHR 0xE5,
      CHR 0x90, CHR 0xAF] @ '' adb server('' @ [CHR 0xE4, CHR 0xBC, CHR 0x9A, CHR 0xE7, CHR 0x9F, CHR 0xAD,
      CHR 0xE6, CHR 0x9A, CHR 0x82, CHR 0xE6, CHR 0x96, CHR 0xAD, CHR 0xE5, CHR 0xBC, CHR 0x80, CHR 0xE6,
      CHR 0x9C, CHR 0xAC, CHR 0xE6, CHR 0x9C, CHR 0xBA, CHR 0xE5, CHR 0x85, CHR 0xB6, CHR 0xE4, CHR 0xBB,
      CHR 0x96] @ '' adb '' @ [CHR 0xE4, CHR 0xBC, CHR 0x9A, CHR 0xE8, CHR 0xAF, CHR 0x9D] @ '')'' @
      [CHR 0xE2, CHR 0x80, CHR 0xA6]) k)\<lparr>cn_host := h\<rparr>, mapErr wireless_error_text r))
             (restart_adb_server adb (cn_host k))
      else Some (k, Inr ()))"

definition cli_pair_qr :: "qr_encoder \<Rightarrow> (nat \<Rightarrow> 8 word list) \<Rightarrow> (string \<Rightarrow> string option) \<Rightarrow> (nat \<Rightarrow> 8 word) \<Rightarrow>
    string list \<Rightarrow> console \<Rightarrow> cli_end option" where
  "cli_pair_qr enc blocks env signals args k =
     (let adb = cli_adb_path env args in
      case cli_restart adb args k of
        None \<Rightarrow> None
      | Some (k, Inl e) \<Rightarrow> Some (k, Inl e)
      | Some (k, Inr _) \<Rightarrow>
     (case check_adb adb (cn_host k) of
        None \<Rightarrow> None
      | Some (h, Inl e) \<Rightarrow> Some (k\<lparr>cn_host := h\<rparr>, Inl (wireless_error_text e))
      | Some (h, Inr precheck) \<Rightarrow>
          (let k = warn_if_below_baseline precheck (k\<lparr>cn_host := h\<rparr>) in
           case pair_qr_command enc blocks adb signals (cn_host k) of
             None \<Rightarrow> None
           | Some e \<Rightarrow>
               (let k = foldl (\<lambda>k qr. say ([CHR 0xE7, CHR 0xAD, CHR 0x89, CHR 0xE5, CHR 0xBE, CHR 0x85, CHR 0xE6, CHR 0x89, CHR 0x8B, CHR 0xE6,
      CHR 0x9C, CHR 0xBA, CHR 0xE6, CHR 0x89, CHR 0xAB, CHR 0xE7, CHR 0xA0, CHR 0x81, CHR 0xE9, CHR 0x85,
      CHR 0x8D, CHR 0xE5, CHR 0xAF, CHR 0xB9, CHR 0xE2, CHR 0x80, CHR 0xA6] @
      '' / Waiting for the phone to pair'' @ [CHR 0xE2, CHR 0x80, CHR 0xA6])
                            (say pairing_instructions (say qr k))) (k\<lparr>cn_host := pe_host e\<rparr>) (pe_shown e)
                in case pe_answer e of
                     Inl err \<Rightarrow> Some (k, Inl (wireless_error_text err))
                   | Inr (ser, visible, _) \<Rightarrow>
                       Some (say (([CHR 0xE5, CHR 0xBD, CHR 0x93, CHR 0xE5, CHR 0x89, CHR 0x8D, CHR 0xE5, CHR 0x8F, CHR 0xAF, CHR 0xE8,
      CHR 0xA7, CHR 0x81, CHR 0xE8, CHR 0xAE, CHR 0xBE, CHR 0xE5, CHR 0xA4, CHR 0x87] @
      '' / Visible devices: '') @ show_nat visible)
                              (say (([CHR 0xE9, CHR 0x85, CHR 0x8D, CHR 0xE5, CHR 0xAF, CHR 0xB9, CHR 0xE5, CHR 0xB9, CHR 0xB6, CHR 0xE8,
      CHR 0xBF, CHR 0x9E, CHR 0xE6, CHR 0x8E, CHR 0xA5, CHR 0xE6, CHR 0x88, CHR 0x90, CHR 0xE5, CHR 0x8A,
      CHR 0x9F] @ '' / Paired and connected: '') @ ser) k), Inr 0)))))"

text \<open>
  \<open>pair-code\<close>. \<open>flushed\<close> is the result of flushing the prompt; \<open>line\<close> is what \<open>read_line\<close> put
  into the buffer, with its result.
\<close>

definition port_ok :: "string \<Rightarrow> bool" where
  "port_ok endpoint = (case rsplit_once CHR '':'' endpoint of None \<Rightarrow> False | Some (_, p) \<Rightarrow> parse_uint u16_max p \<noteq> None)"

definition six_digits :: "string \<Rightarrow> bool" where
  "six_digits s \<longleftrightarrow> length s = 6 \<and> list_all is_ascii_digit s"

definition enter_code :: "string \<Rightarrow> string \<Rightarrow> (io_error + unit) \<Rightarrow> string \<times> (io_error + unit) \<Rightarrow> console \<Rightarrow> cli_end option" where
  "enter_code adb endpoint flushed line k =
     (let k = say ([CHR 0xE8, CHR 0xAF, CHR 0xB7, CHR 0xE8, CHR 0xBE, CHR 0x93, CHR 0xE5, CHR 0x85, CHR 0xA5, CHR 0xE6,
      CHR 0x89, CHR 0x8B, CHR 0xE6, CHR 0x9C, CHR 0xBA, CHR 0xE6, CHR 0x98, CHR 0xBE, CHR 0xE7, CHR 0xA4,
      CHR 0xBA, CHR 0xE7, CHR 0x9A, CHR 0x84] @ '' 6 '' @ [CHR 0xE4, CHR 0xBD, CHR 0x8D, CHR 0xE9,
      CHR 0x85, CHR 0x8D, CHR 0xE5, CHR 0xAF, CHR 0xB9, CHR 0xE7, CHR 0xA0, CHR 0x81] @
      '' / Enter the 6-digit pairing code: '') k in
      case flushed of
        Inl e \<Rightarrow> Some (k, Inl (io_text e))
      | Inr _ \<Rightarrow>
     (let k = k\<lparr>cn_code := fst line\<rparr> in
      case snd line of
        Inl e \<Rightarrow> Some (k, Inl (io_text e))
      | Inr _ \<Rightarrow>
     (let trimmed = str_trim (cn_code k);
          k = k\<lparr>cn_code := wipe_secret_string (cn_code k), cn_trimmed := trimmed\<rparr> in
      if \<not> six_digits trimmed
      then Some (k\<lparr>cn_trimmed := wipe_secret_string trimmed\<rparr>, Inl ([CHR 0xE9, CHR 0x85, CHR 0x8D, CHR 0xE5, CHR 0xAF, CHR 0xB9, CHR 0xE7, CHR 0xA0, CHR 0x81, CHR 0xE5,
      CHR 0xBF, CHR 0x85, CHR 0xE9, CHR 0xA1, CHR 0xBB, CHR 0xE6, CHR 0x98, CHR 0xAF] @ '' 6 '' @
      [CHR 0xE4, CHR 0xBD, CHR 0x8D, CHR 0xE6, CHR 0x95, CHR 0xB0, CHR 0xE5, CHR 0xAD, CHR 0x97]))
      else case wl_pair adb endpoint trimmed (cn_host k) of
          None \<Rightarrow> None
        | Some (h, r) \<Rightarrow>
            (let k = k\<lparr>cn_host := h, cn_trimmed := wipe_secret_string trimmed\<rparr> in
             case r of
               Inl e \<Rightarrow> Some (k, Inl (wireless_error_text e))
             | Inr _ \<Rightarrow> Some (say ([CHR 0xE9, CHR 0x85, CHR 0x8D, CHR 0xE5, CHR 0xAF, CHR 0xB9, CHR 0xE6, CHR 0x88, CHR 0x90, CHR 0xE5,
      CHR 0x8A, CHR 0x9F] @ '' / Pairing succeeded'') k, Inr 0)))))"

definition cli_pair_code :: "(string \<Rightarrow> string option) \<Rightarrow> (io_error + unit) \<Rightarrow> string \<times> (io_error + unit) \<Rightarrow>
    string list \<Rightarrow> console \<Rightarrow> cli_end option" where
  "cli_pair_code env flushed line args k =
     (case cli_endpoint args of
        Inl e \<Rightarrow> Some (k, Inl e)
      | Inr endpoint \<Rightarrow>
     (if \<not> port_ok endpoint then Some (k, Inl (''endpoint '' @ [CHR 0xE5, CHR 0xBF, CHR 0x85, CHR 0xE9, CHR 0xA1, CHR 0xBB, CHR 0xE6, CHR 0x98,
      CHR 0xAF] @ '' ip:port''))
      else let adb = cli_adb_path env args in
        case check_adb adb (cn_host k) of
          None \<Rightarrow> None
        | Some (h, Inr precheck) \<Rightarrow> enter_code adb endpoint flushed line (warn_if_below_baseline precheck (k\<lparr>cn_host := h\<rparr>))
        | Some (h, Inl e) \<Rightarrow>
            (if e = MdnsUnavailable then enter_code adb endpoint flushed line (k\<lparr>cn_host := h\<rparr>)
             else Some (k\<lparr>cn_host := h\<rparr>, Inl (wireless_error_text e)))))"

definition cli_connect :: "(string \<Rightarrow> string option) \<Rightarrow> string list \<Rightarrow> console \<Rightarrow> cli_end option" where
  "cli_connect env args k =
     (case cli_endpoint args of
        Inl e \<Rightarrow> Some (k, Inl e)
      | Inr endpoint \<Rightarrow>
     (case wl_connect (cli_adb_path env args) endpoint (cn_host k) of
        None \<Rightarrow> None
      | Some (h, Inl e) \<Rightarrow> Some (k\<lparr>cn_host := h\<rparr>, Inl (wireless_error_text e))
      | Some (h, Inr _) \<Rightarrow> Some (say (([CHR 0xE8, CHR 0xBF, CHR 0x9E, CHR 0xE6, CHR 0x8E, CHR 0xA5, CHR 0xE6, CHR 0x88, CHR 0x90, CHR 0xE5,
      CHR 0x8A, CHR 0x9F] @ '' / Connected: '') @ endpoint) (k\<lparr>cn_host := h\<rparr>), Inr 0)))"

section \<open>Mirroring\<close>

text \<open>What the arguments ask for: the options of the wrapper are taken out, in this order.\<close>

record cli_options =
  co_adb :: "string option"
  co_serial :: "string option"
  co_bit_rate :: string
  co_screen_off :: bool
  co_audio :: bool
  co_rest :: "string list"

definition cli_options :: "string list \<Rightarrow> string + cli_options" where
  "cli_options args =
     andThen (take_value args ''--adb'') (\<lambda>(args, adb).
     andThen (take_value args ''--serial'') (\<lambda>(args, ser).
     andThen (take_value args ''--bit-rate'') (\<lambda>(args, rate).
     (let (args, off) = take_flag args ''--screen-off'';
          (args, no_audio) = take_flag args ''--no-audio''
      in Inr \<lparr>co_adb = adb, co_serial = ser, co_bit_rate = (case rate of Some r \<Rightarrow> r | None \<Rightarrow> ''8M''),
              co_screen_off = off, co_audio = \<not> no_audio, co_rest = args\<rparr>))))"

definition cli_report :: "int \<Rightarrow> string \<Rightarrow> console \<Rightarrow> console" where
  "cli_report status stderr k =
     (if status \<noteq> 0
      then complain ''Check device authorization and connection ownership; see https://github.com/Genymobile/scrcpy/releases.''
             (if str_trim stderr \<noteq> []
              then complain (''scrcpy failed (stderr tail):'' @ [CHR 0x0A] @ str_trim_end stderr) k else k)
      else k)"

definition cli_mirror :: "(string \<Rightarrow> string option) \<Rightarrow> (nat \<Rightarrow> 8 word) \<Rightarrow> (nat \<Rightarrow> nat) \<Rightarrow> string list \<Rightarrow> console \<Rightarrow> cli_end option" where
  "cli_mirror env signals progress args k =
     (case cli_options args of
        Inl e \<Rightarrow> Some (k, Inl e)
      | Inr o1 \<Rightarrow>
     (case filtered_args (co_rest o1) of
        Inl e \<Rightarrow> Some (k, Inl (scrcpy_error_text e))
      | Inr _ \<Rightarrow>
     (let adb = resolve_adb env (co_adb o1) in
      case devices adb (cn_host k) of
        None \<Rightarrow> None
      | Some (h, Inl e) \<Rightarrow> Some (k\<lparr>cn_host := h\<rparr>, Inl (scrcpy_error_text e))
      | Some (h, Inr listed) \<Rightarrow>
     (case select_device listed (co_serial o1) of
        Inl e \<Rightarrow> Some (k\<lparr>cn_host := h\<rparr>, Inl (scrcpy_error_text e))
      | Inr selected \<Rightarrow>
     (case session_start \<lparr>lo_adb = adb, lo_scrcpy = resolve_scrcpy env None, lo_serial = selected, bit_rate = co_bit_rate o1,
              screen_off = co_screen_off o1, audio_on_computer = co_audio o1, passthrough = co_rest o1, scrcpy_env = []\<rparr>
              progress h of
        None \<Rightarrow> None
      | Some (h, Inl e) \<Rightarrow> Some (k\<lparr>cn_host := h\<rparr>, Inl (scrcpy_error_text e))
      | Some (h, Inr s) \<Rightarrow>
     (case wait_or_stop_on_signal_with_stderr signals (clk h) s of
        None \<Rightarrow> None
      | Some (c, _, Inl e) \<Rightarrow> Some (k\<lparr>cn_host := h\<lparr>clk := c\<rparr>\<rparr>, Inl (scrcpy_error_text e))
      | Some (c, _, Inr (status, stderr)) \<Rightarrow>
          Some (cli_report status stderr (k\<lparr>cn_host := h\<lparr>clk := c\<rparr>\<rparr>), Inr status)))))))"

definition cli_main :: "string \<Rightarrow> qr_encoder \<Rightarrow> (nat \<Rightarrow> 8 word list) \<Rightarrow> (string \<Rightarrow> string option) \<Rightarrow> (nat \<Rightarrow> 8 word) \<Rightarrow> (nat \<Rightarrow> nat) \<Rightarrow>
    (io_error + unit) \<Rightarrow> string \<times> (io_error + unit) \<Rightarrow> string list \<Rightarrow> console \<Rightarrow> cli_end option" where
  "cli_main HELP enc blocks env signals progress flushed line args k =
     (if args \<noteq> [] \<and> hd args = ''pair-qr'' then cli_pair_qr enc blocks env signals (tl args) k
      else if args \<noteq> [] \<and> hd args = ''pair-code'' then cli_pair_code env flushed line (tl args) k
      else if args \<noteq> [] \<and> hd args = ''connect'' then cli_connect env (tl args) k
      else if ''--help'' \<in> set args \<or> ''-h'' \<in> set args then Some (say HELP k, Inr 0)
      else cli_mirror env signals progress args k)"

section \<open>Properties\<close>

lemma take_value_takes:
  assumes "flag \<notin> set xs"
  shows "take_value (xs @ flag # v # ys) flag = Inr (xs @ ys, Some v)"
  using assms by (simp add: take_value_def position_split remove_at_def nth_append)

lemma take_value_absent: "flag \<notin> set xs \<Longrightarrow> take_value xs flag = Inr (xs, None)"
  using position_None [of "\<lambda>a. a = flag" xs] by (auto simp: take_value_def split: option.splits)

lemma take_value_keeps: "take_value xs flag = Inr (ys, v) \<Longrightarrow> set ys \<subseteq> set xs"
  by (auto simp: take_value_def remove_at_def split: option.splits if_splits dest!: in_set_takeD in_set_dropD)

lemma check_adb_issues:
  "check_adb adb h = Some (h', r) \<Longrightarrow> issues (\<lambda>call. call \<in> {(adb, [], [''version'']), (adb, [], [''mdns'', ''check''])}) h h'"
  by (auto simp: check_adb_def issues_def split: option.splits sum.splits if_splits dest!: run_adb_issued)

lemma wl_pair_issued: "wl_pair adb endpoint pw h = Some (h', r) \<Longrightarrow> issued h' = issued h @ [(adb, [], [''pair'', endpoint])]"
  by (auto simp: wl_pair_def split: option.splits sum.splits dest!: pair_spawn_issued)

lemma enter_code_end:
  assumes "enter_code adb endpoint flushed (text, Inr ()) k = Some (k', r)" "cn_code k = []" "cn_trimmed k = []"
  shows "cn_code k' = [] \<and> cn_trimmed k' = [] \<and>
    (issued (cn_host k') = issued (cn_host k) \<or>
     issued (cn_host k') = issued (cn_host k) @ [(adb, [], [''pair'', endpoint])] \<and> six_digits (str_trim text))"
  using assms by (auto simp: enter_code_def say_def wipe_secret_string_def Let_def
      split: option.splits sum.splits if_splits dest!: wl_pair_issued)

text \<open>
  Pairing by code: on every way out after the code was read, success or error, both buffers
  that held it are erased, and the commands that were issued are the two checks of \<open>adb\<close> and at
  most one \<open>adb pair\<close> with the endpoint, and this only when six digits were entered: the code is
  in no argument.
\<close>

theorem pair_code_leaves_no_code:
  assumes "cli_pair_code env flushed (text, Inr ()) args (console_new h) = Some (k, r)"
  shows "cn_code k = [] \<and> cn_trimmed k = [] \<and>
    (\<exists>calls. issued (cn_host k) = issued h @ calls \<and>
       list_all (\<lambda>(path, vars, argv). path = cli_adb_path env args \<and> vars = [] \<and>
         (argv \<in> {[''version''], [''mdns'', ''check'']} \<or> argv = [''pair'', hd args] \<and> six_digits (str_trim text))) calls)"
proof -
  let ?P = "\<lambda>(path, vars, argv). path = cli_adb_path env args \<and> vars = [] \<and>
         (argv \<in> {[''version''], [''mdns'', ''check'']} \<or> argv = [''pair'', hd args] \<and> six_digits (str_trim text))"
  have entered: ?thesis if e: "enter_code (cli_adb_path env args) (hd args) flushed (text, Inr ()) k1 = Some (k, r)"
    and "issues ?P h (cn_host k1)" "cn_code k1 = []" "cn_trimmed k1 = []" for k1
  proof -
    have "issues ?P (cn_host k1) (cn_host k)" using enter_code_end [OF e that(3,4)] by (auto simp: issues_def)
    with issues_trans [OF that(2)] have "issues ?P h (cn_host k)" by blast
    with enter_code_end [OF e that(3,4)] show ?thesis by (simp add: issues_def)
  qed
  show ?thesis
  proof (cases "args \<noteq> [] \<and> port_ok (hd args)")
    case False
    with assms show ?thesis
      by (cases args) (auto simp: cli_pair_code_def cli_endpoint_def console_new_def)
  next
    case True
    then obtain rest where args: "args = hd args # rest" by (cases args) auto
    have ep: "cli_endpoint args = Inr (hd args)" by (subst args) (simp add: cli_endpoint_def)
    from assms True ep obtain h1 a where ca: "check_adb (cli_adb_path env args) h = Some (h1, a)"
      by (cases "check_adb (cli_adb_path env args) h") (auto simp: cli_pair_code_def console_new_def Let_def)
    have i: "issues ?P h h1" using check_adb_issues [OF ca] by (auto simp: issues_def list_all_iff)
    show ?thesis
    proof (cases a)
      case (Inr precheck)
      have "enter_code (cli_adb_path env args) (hd args) flushed (text, Inr ())
          (warn_if_below_baseline precheck ((console_new h)\<lparr>cn_host := h1\<rparr>)) = Some (k, r)"
        using assms True ep ca Inr by (simp add: cli_pair_code_def console_new_def Let_def)
      then show ?thesis
        by (rule entered) (use i in \<open>simp_all add: warn_if_below_baseline_def complain_def console_new_def\<close>)
    next
      case (Inl e)
      show ?thesis
      proof (cases "e = MdnsUnavailable")
        case True
        have "enter_code (cli_adb_path env args) (hd args) flushed (text, Inr ()) ((console_new h)\<lparr>cn_host := h1\<rparr>) = Some (k, r)"
          using assms \<open>args \<noteq> [] \<and> port_ok (hd args)\<close> ep ca Inl True by (simp add: cli_pair_code_def console_new_def Let_def)
        then show ?thesis by (rule entered) (use i in \<open>simp_all add: console_new_def\<close>)
      next
        case False
        with assms \<open>args \<noteq> [] \<and> port_ok (hd args)\<close> ep ca Inl i show ?thesis
          by (auto simp: cli_pair_code_def console_new_def Let_def issues_def)
      qed
    qed
  qed
qed

theorem pair_code_leaves_no_code_witness:
  "\<exists>k r. cli_pair_code (\<lambda>_. None) (Inr ()) (''12345'', Inr ()) [''10.0.0.7:4444''] (console_new sleepy_host) = Some (k, r) \<and>
    cn_code k = [] \<and> cn_trimmed k = [] \<and>
    (\<exists>calls. issued (cn_host k) = issued sleepy_host @ calls \<and>
       list_all (\<lambda>(path, vars, argv). path = cli_adb_path (\<lambda>_. None) [''10.0.0.7:4444''] \<and> vars = [] \<and>
         (argv \<in> {[''version''], [''mdns'', ''check'']} \<or>
          argv = [''pair'', hd [''10.0.0.7:4444'']] \<and> six_digits (str_trim ''12345''))) calls)"
proof -
  have "\<exists>k r. cli_pair_code (\<lambda>_. None) (Inr ()) (''12345'', Inr ()) [''10.0.0.7:4444''] (console_new sleepy_host) = Some (k, r)"
    by (simp add: cli_pair_code_def cli_endpoint_def check_adb_def sleepy_host_def host0_def clock0_def console_new_def run_adb_hangs Let_def)
  then obtain k r where "cli_pair_code (\<lambda>_. None) (Inr ()) (''12345'', Inr ()) [''10.0.0.7:4444''] (console_new sleepy_host) = Some (k, r)"
    by blast
  from this pair_code_leaves_no_code [OF this] show ?thesis by blast
qed

text \<open>
  Arguments are judged before any device is touched: when an option lacks its value, or the
  options to pass on violate the policy, the program ends with an error and has launched nothing.
\<close>

theorem bad_arguments_touch_nothing:
  assumes "args = [] \<or> hd args \<notin> {''pair-qr'', ''pair-code'', ''connect''}" "''--help'' \<notin> set args" "''-h'' \<notin> set args"
    and "\<And>o1. cli_options args = Inr o1 \<Longrightarrow> \<not> isOk (filtered_args (co_rest o1))"
  shows "\<exists>e. cli_main HELP enc blocks env signals progress flushed line args k = Some (k, Inl e)"
proof (cases "cli_options args")
  case (Inl e)
  with assms show ?thesis by (auto simp: cli_main_def cli_mirror_def)
next
  case (Inr o1)
  with assms(4) obtain e where "filtered_args (co_rest o1) = Inl e" by (cases "filtered_args (co_rest o1)") auto
  with Inr assms(1-3) show ?thesis by (auto simp: cli_main_def cli_mirror_def)
qed

theorem bad_arguments_touch_nothing_witness:
  "\<exists>e. cli_main [] (\<lambda>_. Inl []) (\<lambda>_. []) (\<lambda>_. None) (\<lambda>_. 0) (\<lambda>_. 0) (Inr ()) ([], Inr ()) [''--serial''] (console_new sleepy_host) =
     Some (console_new sleepy_host, Inl e)"
  by (rule bad_arguments_touch_nothing) (auto simp: cli_options_def take_value_def)

text \<open>
  The endpoint of \<open>connect\<close> is its first argument whatever that is: an option written before it
  is taken for the endpoint.
\<close>

lemma connect_reads_option_as_endpoint:
  "cli_connect env [''--adb'', p, e] k = Some (k', r) \<Longrightarrow>
   issued (cn_host k') = issued (cn_host k) @ [(p, [], [''connect'', ''--adb''])]"
  by (auto simp: cli_connect_def cli_endpoint_def cli_adb_path_def wl_connect_def say_def
      split: option.splits sum.splits dest!: run_adb_issued)

end
