(* ===== verification/IosLib.thy ===== *)
theory IosLib
  imports Complex_Main WirelessData
begin

text \<open>
  The crate \<open>quadcontrol-ios\<close>, \<open>lib.rs\<close> and \<open>devices.rs\<close>: the stable error codes, the version
  check of \<open>go-ios\<close>, the bounded listing of installed applications and the list of devices. The
  JSON parser (\<open>serde_json\<close>) is a parameter; \<open>json\<close> has the constructors of its \<open>Value\<close>.
\<close>

section \<open>JSON values\<close>

datatype json_number = PosInt nat | NegInt int | Float rat

datatype json =
    JNull
  | JBool bool
  | JNumber json_number
  | JString string
  | JArray "json list"
  | JObject "(string \<times> json) list"

type_synonym json_parser = "string \<Rightarrow> string + json"

text \<open>\<open>Value::get\<close>, \<open>as_str\<close>, \<open>as_array\<close>, \<open>as_bool\<close>.\<close>

fun json_get :: "string \<Rightarrow> json \<Rightarrow> json option" where
  "json_get k (JObject fs) = map_of fs k"
| "json_get k _ = None"

fun json_str :: "json \<Rightarrow> string option" where
  "json_str (JString s) = Some s"
| "json_str _ = None"

fun json_array :: "json \<Rightarrow> json list option" where
  "json_array (JArray xs) = Some xs"
| "json_array _ = None"

fun json_bool :: "json \<Rightarrow> bool option" where
  "json_bool (JBool b) = Some b"
| "json_bool _ = None"

section \<open>Errors\<close>

datatype IosError =
    IosNotFound string
  | IosVersion string
  | UsbmuxdUnavailable string
  | TunnelPortBusy nat
  | TunnelFailed string
  | WdaNotInstalled string
  | WdaSignatureExpired string
  | WdaUnreachable string
  | WdaSessionFailed string
  | ForwardFailed string
  | ProxyFailed string
  | DeviceLocked
  | TextUnconfirmed
  | NoActiveElement
  | ScreenshotFailed string
  | ActivateAppFailed string
  | AlreadyRunning
  | WindowsSessionUnsupported
  | IosProcess io_error

fun ios_error_code :: "IosError \<Rightarrow> string" where
  "ios_error_code (IosNotFound _) = ''ios_not_found''"
| "ios_error_code (IosVersion _) = ''ios_version''"
| "ios_error_code (UsbmuxdUnavailable _) = ''usbmuxd_unavailable''"
| "ios_error_code (TunnelPortBusy _) = ''tunnel_port_busy''"
| "ios_error_code (TunnelFailed _) = ''tunnel_failed''"
| "ios_error_code (WdaNotInstalled _) = ''wda_not_installed''"
| "ios_error_code (WdaSignatureExpired _) = ''wda_signature_expired''"
| "ios_error_code (WdaUnreachable _) = ''wda_unreachable''"
| "ios_error_code (WdaSessionFailed _) = ''wda_session_failed''"
| "ios_error_code (ForwardFailed _) = ''forward_failed''"
| "ios_error_code (ProxyFailed _) = ''proxy_failed''"
| "ios_error_code DeviceLocked = ''device_locked''"
| "ios_error_code TextUnconfirmed = ''text_unconfirmed''"
| "ios_error_code NoActiveElement = ''no_active_element''"
| "ios_error_code (ScreenshotFailed _) = ''screenshot_failed''"
| "ios_error_code (ActivateAppFailed _) = ''activate_app_failed''"
| "ios_error_code AlreadyRunning = ''ios_session_already_running''"
| "ios_error_code WindowsSessionUnsupported = ''windows_session_unsupported''"
| "ios_error_code (IosProcess _) = ''ios_process_error''"

fun ios_error_text :: "IosError \<Rightarrow> string" where
  "ios_error_text (IosNotFound path) =
     ''go-ios was not found at '' @ path @ ''. Install go-ios 1.2.1 or newer, then try again.''"
| "ios_error_text (IosVersion s) = s"
| "ios_error_text (UsbmuxdUnavailable s) = s"
| "ios_error_text (TunnelPortBusy port) =
     ''the go-ios tunnel info port '' @ show_nat port @ '' is already in use; stop the other go-ios tunnel first''"
| "ios_error_text (TunnelFailed s) = s"
| "ios_error_text (WdaNotInstalled s) = s"
| "ios_error_text (WdaSignatureExpired s) = s"
| "ios_error_text (WdaUnreachable s) = s"
| "ios_error_text (WdaSessionFailed s) = s"
| "ios_error_text (ForwardFailed s) = s"
| "ios_error_text (ProxyFailed s) = s"
| "ios_error_text (ScreenshotFailed s) = s"
| "ios_error_text (ActivateAppFailed s) = s"
| "ios_error_text DeviceLocked = ''the iPhone is locked; unlock it on the device''"
| "ios_error_text TextUnconfirmed = ''the text could not be confirmed as delivered; check the iPhone''"
| "ios_error_text NoActiveElement = ''no focused text field on the device; tap into a text field first''"
| "ios_error_text AlreadyRunning = ''an iOS session is already running''"
| "ios_error_text WindowsSessionUnsupported = ''iOS sessions are not supported on Windows yet''"
| "ios_error_text (IosProcess e) = ''process error: '' @ io_text e"

section \<open>The version of go-ios\<close>

definition resolve_ios :: "(string \<Rightarrow> string option) \<Rightarrow> string option \<Rightarrow> string" where
  "resolve_ios env explicit =
     (case explicit of Some p \<Rightarrow> p | None \<Rightarrow> (case env ''IOS_BIN'' of Some p \<Rightarrow> p | None \<Rightarrow> ''ios''))"

type_synonym ios_version = "nat \<times> nat \<times> nat"

definition MIN_GO_IOS :: ios_version where "MIN_GO_IOS = (1, 2, 1)"

record Version =
  v_major :: nat
  v_minor :: nat
  v_patch :: nat
  newer_than_verified :: bool

definition version_display :: "Version \<Rightarrow> string" where
  "version_display v = show_nat (v_major v) @ ''.'' @ show_nat (v_minor v) @ ''.'' @ show_nat (v_patch v)"

text \<open>The closure \<open>next\<close> reads one part and leaves the others.\<close>

definition next_part :: "string \<Rightarrow> string \<Rightarrow> string list \<Rightarrow> IosError + nat \<times> string list" where
  "next_part raw name parts =
     (case parts of
        p # ps \<Rightarrow>
          (case parse_uint u64_max p of
             Some n \<Rightarrow> Inr (n, ps)
           | None \<Rightarrow> Inl (IosVersion (''go-ios version '' @ raw @ '' has no '' @ name)))
      | [] \<Rightarrow> Inl (IosVersion (''go-ios version '' @ raw @ '' has no '' @ name)))"

definition last_part :: "string list \<Rightarrow> nat" where
  "last_part parts = (case parts of p # _ \<Rightarrow> (case parse_uint u64_max p of Some n \<Rightarrow> n | None \<Rightarrow> 0) | [] \<Rightarrow> 0)"

definition clamp_version :: "string \<Rightarrow> IosError + Version" where
  "clamp_version raw =
     (let token = trim_start_matches CHR ''v'' (str_trim raw) in
      if CHR ''-'' \<in> set token
      then Inl (IosVersion (''go-ios prerelease '' @ raw @ '' is not supported; install stable go-ios 1.2.1 or newer''))
      else
        andThen (next_part raw ''major'' (str_split CHR ''.'' token)) (\<lambda>(major, ps).
        andThen (next_part raw ''minor'' ps) (\<lambda>(minor, ps).
        (let patch = last_part ps; found = (major, minor, patch) in
         if version_less found MIN_GO_IOS
         then Inl (IosVersion (''go-ios '' @ raw @ '' is too old; install go-ios 1.2.1 or newer''))
         else Inr \<lparr>v_major = major, v_minor = minor, v_patch = patch,
                newer_than_verified = version_less MIN_GO_IOS found\<rparr>))))"

definition parse_ios_version :: "json_parser \<Rightarrow> string \<Rightarrow> IosError + Version" where
  "parse_ios_version parse stdout =
     andThen (mapErr (\<lambda>e. IosVersion (''could not parse `ios version` output: '' @ e)) (parse (str_trim stdout))) (\<lambda>value.
     andThen (okOr (IosVersion ''`ios version` output has no version field'')
                (Option.bind (json_get ''version'' value) json_str)) (\<lambda>raw. clamp_version raw))"

definition ios_spawn_error :: "string \<Rightarrow> io_error \<Rightarrow> IosError" where
  "ios_spawn_error ios e = (if io_kind e = KNotFound then IosNotFound ios else IosProcess e)"

definition check_version :: "json_parser \<Rightarrow> string \<Rightarrow> host \<Rightarrow> (host \<times> (IosError + Version)) option" where
  "check_version parse ios h =
     (let (h, child) = os_spawn ios [''version''] h in
      case child of
        Inl e \<Rightarrow> Some (h, Inl (ios_spawn_error ios e))
      | Inr p \<Rightarrow>
          map_option (\<lambda>(c, r). (h\<lparr>clk := c\<rparr>,
              andThen (mapErr (ios_spawn_error ios) r) (\<lambda>(status, out, _).
                if status \<noteq> Some 0
                then Inl (IosVersion (''`ios version` exited with '' @ show_int (code_or (- 1) status)))
                else parse_ios_version parse (from_utf8_lossy out))))
            (os_output (clk h) p))"

section \<open>The list of devices\<close>

record IosDevice =
  id_udid :: string
  id_name :: string

definition short_ios_name :: "string \<Rightarrow> string" where
  "short_ios_name udid = (''iPhone '' @ [CHR 0xC2, CHR 0xB7, CHR 0xC2, CHR 0xB7, CHR 0xC2, CHR 0xB7, CHR 0xC2, CHR 0xB7]) @ concat (rev (take 4 (rev (str_chars udid))))"

text \<open>\<open>fmt::Debug\<close>; \<open>esc\<close> is the escaping of a debug string.\<close>

definition ios_device_debug :: "(string \<Rightarrow> string) \<Rightarrow> IosDevice \<Rightarrow> string" where
  "ios_device_debug esc d =
     ''IosDevice { id: '' @ esc (short_ios_name (id_udid d)) @ '', name: '' @ esc (id_name d) @ '' }''"

definition QUOTE :: char where "QUOTE = CHR 0x22"

definition extract_device_list :: "string \<Rightarrow> string list option" where
  "extract_device_list text =
     (case str_find ([QUOTE] @ ''deviceList'' @ [QUOTE]) text of
        None \<Rightarrow> None
      | Some start \<Rightarrow>
     (case str_find ''['' (drop start text) of
        None \<Rightarrow> None
      | Some k \<Rightarrow>
     (let opened = k + start in
      case str_find '']'' (drop opened text) of
        None \<Rightarrow> None
      | Some m \<Rightarrow>
          (let closed = m + opened in
           Some (filter (\<lambda>item. item \<noteq> [])
             (map (\<lambda>item. trim_matches QUOTE (str_trim item))
               (str_split CHR '','' (drop (opened + 1) (take closed text)))))))))"

definition lines_of_list :: "string \<Rightarrow> string list" where
  "lines_of_list text =
     map (\<lambda>line. str_trim (case strip_prefix ''UDID:'' line of Some r \<Rightarrow> r | None \<Rightarrow> line))
       (filter (\<lambda>line. \<not> eq_ignore_ascii_case line ''list of attached devices:'')
         (filter (\<lambda>line. line \<noteq> []) (map str_trim (str_lines text))))"

text \<open>Collecting into a \<open>Result\<close>: the first unusable identifier decides.\<close>

fun ios_devices_of :: "string list \<Rightarrow> string + IosDevice list" where
  "ios_devices_of [] = Inr []"
| "ios_devices_of (udid # us) =
     (if udid = [] \<or> has_whitespace udid then Inl ''go-ios returned an unparsable device list''
      else andThen (ios_devices_of us) (\<lambda>ds. Inr (\<lparr>id_udid = udid, id_name = short_ios_name udid\<rparr> # ds)))"

definition parse_ios_devices :: "string \<Rightarrow> string + IosDevice list" where
  "parse_ios_devices text =
     ios_devices_of (case extract_device_list text of Some list \<Rightarrow> list | None \<Rightarrow> lines_of_list text)"

definition looks_like_usbmuxd_failure :: "string \<Rightarrow> bool" where
  "looks_like_usbmuxd_failure stderr =
     list_ex (\<lambda>needle. str_contains needle (to_ascii_lowercase stderr))
       [''usbmuxd'', ''connection refused'', ''no such file or directory'']"

definition list_devices :: "string \<Rightarrow> host \<Rightarrow> (host \<times> (IosError + IosDevice list)) option" where
  "list_devices ios h =
     (let (h, child) = os_spawn ios [''list''] h in
      case child of
        Inl e \<Rightarrow> Some (h, Inl (ios_spawn_error ios e))
      | Inr p \<Rightarrow>
          map_option (\<lambda>(c, r). (h\<lparr>clk := c\<rparr>,
              andThen (mapErr (ios_spawn_error ios) r) (\<lambda>(status, out, err).
                if status \<noteq> Some 0
                then Inl (UsbmuxdUnavailable
                  (if looks_like_usbmuxd_failure (from_utf8_lossy err)
                   then ''usbmuxd is not reachable; make sure the usbmuxd service is running''
                   else ''`ios list` exited with '' @ show_int (code_or (- 1) status)))
                else mapErr (\<lambda>reason. IosProcess (IoError KInvalidData (''go-ios output rejected: '' @ reason)))
                       (parse_ios_devices (from_utf8_lossy out)))))
            (os_output (clk h) p))"

section \<open>Installed applications\<close>

record InstalledApp =
  bundle_id :: string
  app_name :: string

definition APPS_LIST_TIMEOUT :: nat where "APPS_LIST_TIMEOUT = 10000"
definition APPS_LIST_STDOUT_LIMIT :: nat where "APPS_LIST_STDOUT_LIMIT = 1024 * 1024"

definition installed_app_of :: "string \<Rightarrow> InstalledApp option" where
  "installed_app_of line =
     (let tokens = str_split_ws line in
      if length tokens < 2 then None
      else if CHR ''.'' \<notin> set (tokens ! 0) then None
      else Some \<lparr>bundle_id = tokens ! 0,
             app_name = str_join '' '' (drop 1 (take (length tokens - 1) tokens))\<rparr>)"

definition parse_installed_apps :: "string \<Rightarrow> InstalledApp list" where
  "parse_installed_apps stdout = List.map_filter installed_app_of (str_lines stdout)"

text \<open>
  The reader thread stores at most \<open>APPS_LIST_STDOUT_LIMIT\<close> bytes and stops at an error or at
  the limit; otherwise it ends at the end of file of the pipe.
\<close>

definition apps_buffer :: "proc \<Rightarrow> string" where
  "apps_buffer p = take APPS_LIST_STDOUT_LIMIT (concat (chunks_before_stop (out_chunks p)))"

definition join_apps :: "clock \<Rightarrow> proc \<Rightarrow> clock option" where
  "join_apps c p =
     (if APPS_LIST_STDOUT_LIMIT \<le> length (concat (chunks_before_stop (out_chunks p))) then Some c
      else join_pipe (out_chunks p) c p)"

function capture_until :: "nat \<Rightarrow> clock \<Rightarrow> proc \<Rightarrow> (clock \<times> proc \<times> (io_error + bool \<times> int option)) option" where
  "capture_until deadline c p =
     (case os_try_wait c p of
        (p, Inl e) \<Rightarrow> Some (c, p, Inl e)
      | (p, Inr (Some status)) \<Rightarrow> Some (c, p, Inr (False, status))
      | (p, Inr None) \<Rightarrow>
          (if deadline \<le> now c
           then (let (p, _) = os_kill (now c) p in
                 map_option (\<lambda>(c, p, r). (c, p, andThen r (\<lambda>status. Inr (True, status)))) (os_wait c p))
           else capture_until deadline (os_sleep 50 c) p))"
  by pat_completeness auto
termination
  by (relation "measure (\<lambda>(deadline, c, p). deadline - now c)") auto

declare capture_until.simps [simp del]

text \<open>
  \<open>run_capture_stdout\<close>. When waiting fails the child is dropped as it is: neither killed nor
  joined. The last component is the child at the end.
\<close>

definition run_capture_stdout :: "string \<Rightarrow> string list \<Rightarrow> nat \<Rightarrow> host \<Rightarrow>
    (host \<times> (io_error + bool \<times> int option \<times> string) \<times> proc option) option" where
  "run_capture_stdout ios args timeout h =
     (let (h, child) = os_spawn ios args h in
      case child of
        Inl e \<Rightarrow> Some (h, Inl e, None)
      | Inr p \<Rightarrow>
          (case capture_until (now (clk h) + timeout) (clk h) p of
             None \<Rightarrow> None
           | Some (c, p, Inl e) \<Rightarrow> Some (h\<lparr>clk := c\<rparr>, Inl e, Some p)
           | Some (c, p, Inr (timed_out, status)) \<Rightarrow>
               map_option (\<lambda>c. (h\<lparr>clk := c\<rparr>, Inr (timed_out, status, apps_buffer p), Some p)) (join_apps c p)))"

definition installed_apps :: "string \<Rightarrow> string \<Rightarrow> host \<Rightarrow> (host \<times> (IosError + InstalledApp list)) option" where
  "installed_apps ios udid h =
     map_option (\<lambda>(h, r, _). (h,
         andThen (mapErr (ios_spawn_error ios) r) (\<lambda>(timed_out, status, stdout).
           if timed_out
           then Inl (IosProcess (IoError KTimedOut ''`ios apps --list` did not finish within the time budget''))
           else if status \<noteq> Some 0
           then Inl (IosProcess (IoError KOther (''`ios apps --list` exited with '' @ show_int (code_or (- 1) status))))
           else Inr (parse_installed_apps (from_utf8_lossy stdout)))))
       (run_capture_stdout ios [''apps'', ''--list'', ''--udid='' @ udid] APPS_LIST_TIMEOUT h)"

section \<open>Properties of the version check\<close>

lemma dropWhile_vs: "s = [] \<or> hd s \<noteq> c \<Longrightarrow> dropWhile (\<lambda>x. x = c) (replicate k c @ s) = s"
  by (induction k) (auto simp: dropWhile_hd)

lemma clamp_version_parts:
  assumes "\<forall>c \<in> set s. is_ascii_digit c \<or> c = CHR ''.''" "s \<noteq> []"
  shows "trim_start_matches CHR ''v'' (str_trim (replicate k CHR ''v'' @ s)) = s" "CHR ''-'' \<notin> set s"
proof -
  let ?t = "replicate k CHR ''v'' @ s"
  have dot: "\<not> is_ws CHR ''.''" "\<not> digit7 CHR ''.''" by (simp_all add: is_ws_def ws_ascii_def)
  have nv: "\<not> is_ascii_digit CHR ''v''" by (simp add: is_ascii_digit_def)
  have ws: "\<not> is_ws c \<and> \<not> digit7 c \<and> c \<noteq> CHR ''-'' \<and> c \<noteq> CHR ''v''" if "c \<in> set s" for c
  proof (cases "c = CHR ''.''")
    case False
    with assms(1) that have "is_ascii_digit c" by blast
    with digit_plain nv show ?thesis by blast
  qed (use dot in simp)
  have v: "\<not> is_ws CHR ''v''" "\<not> digit7 CHR ''v''" by (simp_all add: is_ws_def ws_ascii_def)
  have asc: "ascii ?t" using ws v(2) unfolding ascii_def by (metis UnE in_set_replicate set_append)
  have n: "\<forall>c \<in> set ?t. \<not> is_ws c" using ws v(1) by (metis UnE in_set_replicate set_append)
  have nt: "?t \<noteq> []" using assms(2) by simp
  have "\<not> is_ws (hd ?t)" by (rule bspec [OF n hd_in_set [OF nt]])
  moreover have "\<not> is_ws (last ?t)" by (rule bspec [OF n last_in_set [OF nt]])
  ultimately have "str_trim ?t = ?t" using asc nt by (intro str_trim_no_ws)
  moreover have "hd s \<noteq> CHR ''v''" using ws assms(2) by simp
  ultimately show "trim_start_matches CHR ''v'' (str_trim ?t) = s" by (simp add: trim_start_matches_def dropWhile_vs)
  show "CHR ''-'' \<notin> set s" using ws by blast
qed

text \<open>
  What the version check of \<open>go-ios\<close> decides: for a version of two or three numbers, with
  any number of leading \<open>v\<close>, the missing patch number counting as 0, exactly the versions from
  1.2.1 on are accepted, as they are, and exactly the later ones are marked as not verified.
\<close>

theorem clamp_version_decides:
  assumes "M \<le> u64_max" "m \<le> u64_max" "p \<le> u64_max"
    and "t = show_nat M @ ''.'' @ show_nat m @ ''.'' @ show_nat p \<or> p = 0 \<and> t = show_nat M @ ''.'' @ show_nat m"
  shows "(if version_less (M, m, p) (1, 2, 1) then \<not> isOk (clamp_version (replicate k CHR ''v'' @ t))
          else clamp_version (replicate k CHR ''v'' @ t) =
            Inr \<lparr>v_major = M, v_minor = m, v_patch = p, newer_than_verified = ((M, m, p) \<noteq> (1, 2, 1))\<rparr>)"
proof -
  have nodot: "\<forall>c \<in> set (show_nat n). c \<noteq> CHR ''.''" for n using show_nat_plain(3) digit_plain by blast
  have dig: "\<forall>c \<in> set t. is_ascii_digit c \<or> c = CHR ''.''" using assms(4) show_nat_plain(3) by auto
  have ne: "t \<noteq> []" using assms(4) show_nat_digits by auto
  have sp: "str_split CHR ''.'' t = [show_nat M, show_nat m, show_nat p] \<or> p = 0 \<and> str_split CHR ''.'' t = [show_nat M, show_nat m]"
  proof -
    have 2: "splitBy (\<lambda>x. x = CHR ''.'') (show_nat M @ CHR ''.'' # s) = show_nat M # splitBy (\<lambda>x. x = CHR ''.'') s" for M s
      by (rule splitBy_append [OF nodot refl])
    have 1: "splitBy (\<lambda>x. x = CHR ''.'') (show_nat n) = [show_nat n]" for n by (rule splitBy_id [OF nodot])
    from assms(4) show ?thesis by (elim disjE conjE) (simp_all add: str_split_def 1 2)
  qed
  note cv = clamp_version_parts(1) [OF dig ne, of k] clamp_version_parts(2) [OF dig ne]
  from sp show ?thesis
  proof (elim disjE conjE)
    assume "str_split CHR ''.'' t = [show_nat M, show_nat m, show_nat p]"
    with assms(1-3) cv(2) show ?thesis
      by (simp add: clamp_version_def cv(1) next_part_def last_part_def MIN_GO_IOS_def version_less_def; force)
  next
    assume "str_split CHR ''.'' t = [show_nat M, show_nat m]" "p = 0"
    with assms(1-3) cv(2) show ?thesis
      by (simp add: clamp_version_def cv(1) next_part_def last_part_def MIN_GO_IOS_def version_less_def; force)
  qed
qed

theorem clamp_version_decides_witness:
  "clamp_version (replicate 1 CHR ''v'' @ (show_nat 1 @ ''.'' @ show_nat 3)) =
     Inr \<lparr>v_major = 1, v_minor = 3, v_patch = 0, newer_than_verified = True\<rparr>"
  using clamp_version_decides [of 1 3 0 "show_nat 1 @ ''.'' @ show_nat 3" 1] by (simp add: u64_max_def version_less_def)

text \<open>A patch part that is no number counts as 0, so a release candidate can pass.\<close>

lemma release_candidate_accepted:
  "clamp_version ''1.3.0rc1'' = Inr \<lparr>v_major = 1, v_minor = 3, v_patch = 0, newer_than_verified = True\<rparr>"
proof -
  have "str_trim ''1.3.0rc1'' = ''1.3.0rc1''" by (rule str_trim_no_ws) (simp_all add: ascii_def is_ws_def ws_ascii_def)
  then show ?thesis
    by (simp add: clamp_version_def trim_start_matches_def next_part_def last_part_def str_split_def parse_uint_def
        parse_digits_def digit_val_def code_def is_ascii_digit_def u64_max_def version_less_def MIN_GO_IOS_def)
qed

section \<open>Properties of the listings\<close>

lemma str_find_char: "c \<notin> set xs \<Longrightarrow> str_find [c] (xs @ c # ys) = Some (length xs)"
  by (induction xs) auto

lemma str_split_join: "ws \<noteq> [] \<Longrightarrow> \<forall>w \<in> set ws. c \<notin> set w \<Longrightarrow> str_split c (str_join [c] ws) = ws"
proof (induction ws rule: induct_list012)
  case (3 x y zs)
  then have "\<forall>a \<in> set x. \<not> a = c" by auto
  from splitBy_append [OF this refl] 3 show ?case by (simp add: str_split_def)
qed (auto simp: str_split_def intro!: splitBy_id)

definition quoted :: "string \<Rightarrow> string" where
  "quoted s = [QUOTE] @ s @ [QUOTE]"

lemma trim_quoted:
  assumes "plain s" "QUOTE \<notin> set s"
  shows "trim_matches QUOTE (str_trim (quoted s)) = s"
proof -
  have q: "\<not> is_ws QUOTE" "\<not> digit7 QUOTE" by (simp_all add: QUOTE_def is_ws_def ws_ascii_def)
  have "str_trim (quoted s) = quoted s"
    using assms(1) q by (intro str_trim_no_ws) (auto simp: quoted_def plain_def ascii_def)
  moreover have "s \<noteq> []" using assms(1) by (simp add: plain_def)
  moreover have "hd s \<noteq> QUOTE" "hd (rev s) \<noteq> QUOTE" using assms(2) \<open>s \<noteq> []\<close> by (metis hd_in_set) (metis hd_rev last_in_set assms(2) \<open>s \<noteq> []\<close>)
  ultimately show ?thesis
    by (simp add: quoted_def trim_matches_def trim_start_matches_def trim_end_matches_def dropWhile_hd)
qed

lemma plain_no_whitespace: "plain s \<Longrightarrow> \<not> has_whitespace s"
  by (auto simp: plain_def has_whitespace_def str_chars_ascii list_ex_iff)

lemma ios_devices_of_plain:
  "\<forall>u \<in> set us. plain u \<Longrightarrow> ios_devices_of us = Inr (map (\<lambda>u. \<lparr>id_udid = u, id_name = short_ios_name u\<rparr>) us)"
  by (induction us) (auto simp: plain_no_whitespace plain_def)

text \<open>
  The list of devices is read back: for identifiers without white space, quotes, commas and
  brackets, the listing \<open>go-ios\<close> prints gives these devices, in this order, and an empty list
  gives none.
\<close>

theorem parse_ios_devices_reads_listing:
  assumes "\<forall>u \<in> set us. plain u \<and> QUOTE \<notin> set u \<and> CHR '','' \<notin> set u \<and> CHR '']'' \<notin> set u"
  shows "parse_ios_devices (''{'' @ quoted ''deviceList'' @ '':['' @ str_join '','' (map quoted us) @ '']}'') =
    Inr (map (\<lambda>u. \<lparr>id_udid = u, id_name = short_ios_name u\<rparr>) us)"
proof -
  let ?body = "str_join '','' (map quoted us)"
  define whole where "whole = ''{'' @ quoted ''deviceList'' @ '':['' @ ?body @ '']}''"
  have nb: "CHR '']'' \<notin> set ?body"
    using assms by (induction us rule: induct_list012) (auto simp: quoted_def QUOTE_def)
  have t: "whole = CHR ''{'' # QUOTE # ''deviceList'' @ QUOTE # CHR '':'' # CHR ''['' # ?body @ '']}''" by (simp add: whole_def quoted_def)
  have f1: "str_find ([QUOTE] @ ''deviceList'' @ [QUOTE]) whole = Some 1" unfolding t by (simp add: QUOTE_def)
  have f2: "str_find ''['' (drop 1 whole) = Some 13" unfolding t by (simp add: QUOTE_def)
  have d: "drop 14 whole = CHR ''['' # ?body @ '']}''" unfolding t by simp
  have f3: "str_find '']'' (drop 14 whole) = Some (Suc (length ?body))"
    unfolding d using str_find_char [of "CHR '']''" "CHR ''['' # ?body" "''}''"] nb by simp
  have d15: "drop 15 whole = ?body @ '']}''" unfolding t by simp
  have b: "drop 15 (take (Suc (length ?body) + 14) whole) = ?body" by (simp only: drop_take d15) simp
  have "extract_device_list whole = Some (filter (\<lambda>item. item \<noteq> [])
      (map (\<lambda>item. trim_matches QUOTE (str_trim item)) (str_split CHR '','' ?body)))"
    using f2 f3 b unfolding extract_device_list_def f1 by (simp add: Let_def)
  also have "filter (\<lambda>item. item \<noteq> []) (map (\<lambda>item. trim_matches QUOTE (str_trim item)) (str_split CHR '','' ?body)) = us"
  proof (cases "us = []")
    case True
    then show ?thesis by (simp add: str_split_def str_trim_def trim_matches_def trim_start_matches_def trim_end_matches_def)
  next
    case False
    have "str_split CHR '','' ?body = map quoted us"
      using assms False by (intro str_split_join) (auto simp: quoted_def QUOTE_def)
    moreover have "map (\<lambda>item. trim_matches QUOTE (str_trim item)) (map quoted us) = us"
      using assms trim_quoted by (induction us) auto
    moreover have "filter (\<lambda>item. item \<noteq> []) us = us" using assms by (auto simp: filter_id_conv plain_def)
    ultimately show ?thesis by simp
  qed
  finally show ?thesis unfolding parse_ios_devices_def whole_def [symmetric]
    using assms by (simp add: ios_devices_of_plain)
qed

theorem parse_ios_devices_reads_listing_witness:
  "parse_ios_devices (''{'' @ quoted ''deviceList'' @ '':['' @ str_join '','' (map quoted [''00008101-AA'', ''b7'']) @ '']}'') =
    Inr (map (\<lambda>u. \<lparr>id_udid = u, id_name = short_ios_name u\<rparr>) [''00008101-AA'', ''b7''])"
  by (rule parse_ios_devices_reads_listing) (simp add: plain_def ascii_def is_ws_def ws_ascii_def QUOTE_def)

section \<open>The bounded capture\<close>

lemma capture_until_returns:
  assumes "tame d p" "\<forall>t. lag c t \<le> J"
  shows "\<exists>c' p' b k. capture_until deadline c p = Some (c', p', Inr (b, k)) \<and> gone c' p' \<and> tame d p' \<and>
    now c \<le> now c' \<and> now c' \<le> max (now c) (deadline + 50 + J) \<and> lag c' = lag c"
  using assms
proof (induction deadline c p rule: capture_until.induct)
  case (1 deadline c p)
  obtain p1 r where tw: "os_try_wait c p = (p1, r)" by (cases "os_try_wait c p")
  note t = tame_try_wait [OF tw "1.prems"(1)]
  note unf = capture_until.simps [of deadline c p]
  show ?case
  proof (cases "exited_by (now c) p")
    case True
    with t obtain k where "r = Inr (Some k)" "reaped p1" "exited_by (now c) p1" by (auto simp: exited_by_def)
    with t tw have "capture_until deadline c p = Some (c, p1, Inr (False, k)) \<and> gone c p1 \<and> tame d p1" by (simp add: unf gone_def)
    then show ?thesis by auto
  next
    case False
    with t have r: "r = Inr None" "tame d p1" by simp_all
    show ?thesis
    proof (cases "deadline \<le> now c")
      case True
      obtain p2 k where k: "os_kill (now c) p1 = (os_kill_group SIGKILL (now c) p1, Inr ())"
        "os_wait c (os_kill_group SIGKILL (now c) p1) = Some (c, p2, Inr k)" "exited_by (now c) p2" "reaped p2" "tame d p2"
        by (rule tame_kill_wait [OF r(2)])
      with True tw r have "capture_until deadline c p = Some (c, p2, Inr (True, k)) \<and> gone c p2 \<and> tame d p2"
        by (simp add: unf gone_def)
      then show ?thesis by auto
    next
      case False
      let ?c = "os_sleep 50 c"
      have "\<forall>t. lag ?c t \<le> J" using "1.prems"(2) by simp
      from "1.IH" [OF tw [symmetric] r(1) refl False r(2) this] obtain c' p' b k where
        l: "capture_until deadline ?c p1 = Some (c', p', Inr (b, k))" "gone c' p'" "tame d p'"
          "now ?c \<le> now c'" "now c' \<le> max (now ?c) (deadline + 50 + J)" "lag c' = lag ?c" by blast
      moreover have "now ?c \<le> deadline + 50 + J" using False "1.prems"(2) by (simp add: add_mono)
      ultimately show ?thesis using tw r False by (auto simp: unf)
    qed
  qed
qed

text \<open>
  Listing the installed applications is bounded and leaves nothing behind, whatever
  \<open>go-ios\<close> does (hang, flood its pipe, fail): it returns within the limit plus one poll and the
  time the pipe stays open after the exit, the child is dead and reaped, and at most
  \<open>APPS_LIST_STDOUT_LIMIT\<close> bytes of output are kept.
\<close>

theorem run_capture_stdout_bounded:
  assumes "\<forall>n path env argv q. launch h n path env argv = Inr q \<longrightarrow> tame d q" and "\<forall>t. lag (clk h) t \<le> J"
  shows "\<exists>h' r child. run_capture_stdout ios argv timeout h = Some (h', r, child) \<and>
    now (clk h') \<le> now (clk h) + timeout + 50 + J + d \<and>
    (case child of Some p \<Rightarrow> reaped p \<and> exited_by (now (clk h')) p | None \<Rightarrow> \<not> isOk r) \<and>
    (case r of Inr (_, _, stdout) \<Rightarrow> length stdout \<le> APPS_LIST_STDOUT_LIMIT | Inl _ \<Rightarrow> True)"
proof -
  obtain h1 child where sp: "os_spawn ios argv h = (h1, child)" by (cases "os_spawn ios argv h")
  from os_spawn_eq [OF sp] have h1: "clk h1 = clk h" by simp
  show ?thesis
  proof (cases child)
    case (Inl e)
    with sp h1 show ?thesis by (simp add: run_capture_stdout_def)
  next
    case (Inr p)
    with sp assms(1) have "tame d p" by (auto dest!: os_spawn_child simp: tame_def)
    from capture_until_returns [OF this assms(2), of "now (clk h) + timeout"] obtain c' p' b k where
      l: "capture_until (now (clk h) + timeout) (clk h) p = Some (c', p', Inr (b, k))" "gone c' p'" "tame d p'"
        "now c' \<le> now (clk h) + timeout + 50 + J" by auto
    then have ex: "exited_by (now c') p'" "pipe_eof p' = Some d" by (simp_all add: gone_def tame_def)
    from os_join_reader_exited [OF ex] obtain c'' where "os_join_reader c' p' = Some c''" "now c' \<le> now c''" "now c'' \<le> now c' + d"
      by blast
    then obtain c2 where j: "join_apps c' p' = Some c2" "now c' \<le> now c2" "now c2 \<le> now c' + d"
      by (cases "APPS_LIST_STDOUT_LIMIT \<le> length (concat (chunks_before_stop (out_chunks p')))";
          cases "isOk (pipe_bytes (out_chunks p'))") (auto simp: join_apps_def join_pipe_def)
    have "run_capture_stdout ios argv timeout h = Some (h1\<lparr>clk := c2\<rparr>, Inr (b, k, apps_buffer p'), Some p')"
      using sp Inr h1 l(1) j(1) by (simp add: run_capture_stdout_def)
    then show ?thesis
      using l(2,4) j exited_by_mono [OF ex(1) j(2)] by (simp add: gone_def apps_buffer_def)
  qed
qed

theorem run_capture_stdout_bounded_witness:
  "\<exists>h' r child. run_capture_stdout ''ios'' [''apps''] 10000 (host0 (stubborn\<lparr>pipe_eof := Some 3\<rparr>)) = Some (h', r, child) \<and>
    now (clk h') \<le> now (clk (host0 (stubborn\<lparr>pipe_eof := Some 3\<rparr>))) + 10000 + 50 + 0 + 3 \<and>
    (case child of Some p \<Rightarrow> reaped p \<and> exited_by (now (clk h')) p | None \<Rightarrow> \<not> isOk r) \<and>
    (case r of Inr (_, _, stdout) \<Rightarrow> length stdout \<le> APPS_LIST_STDOUT_LIMIT | Inl _ \<Rightarrow> True)"
  by (rule run_capture_stdout_bounded) (auto simp: host0_def stubborn_def tame_def)

text \<open>The comments promise that no orphan is left; when polling the child fails, one is.\<close>

lemma capture_poll_error_leaves_child:
  assumes "launch h (length (issued h)) ios [] argv = Inr q" "wait_err q = Some e" "exit_at q = None"
  shows "\<exists>h' p. run_capture_stdout ios argv timeout h = Some (h', Inl e, Some p) \<and> \<not> exited_by t p \<and> delivered p = delivered q"
  using assms by (simp add: run_capture_stdout_def os_spawn_env_def capture_until.simps os_try_wait_def exited_by_def)

end
