(* ===== verification/Base64.thy ===== *)
theory Base64
  imports QC_Prelude "HOL-Library.Word"
begin

unbundle bit_operations_syntax

text \<open>
  The crate \<open>quadcontrol-ios\<close>, \<open>wda.rs\<close>: the hand-written base64 decoder of the screenshots,
  with its 32-bit accumulator as in the code, refined by a decoder on numbers and compared with
  the encoding of RFC 4648.
\<close>

section \<open>The decoder\<close>

definition sextet :: "char \<Rightarrow> 32 word option" where
  "sextet c =
     (if is_ascii_upper c then Some (of_nat (code c - 65))
      else if is_ascii_lower c then Some (of_nat (code c - 97) + 26)
      else if is_ascii_digit c then Some (of_nat (code c - 48) + 52)
      else if c = CHR ''+'' then Some 62
      else if c = CHR 0x2F then Some 63
      else None)"

text \<open>\<open>u8::is\_ascii\_whitespace\<close>.\<close>

definition byte_ws :: "char \<Rightarrow> bool" where
  "byte_ws c \<longleftrightarrow> c \<in> {CHR '' '', CHR 0x09, CHR 0x0A, CHR 0x0C, CHR 0x0D}"

definition byte_of :: "32 word \<Rightarrow> char" where
  "byte_of a = char_of (unat (take_bit 8 a))"

text \<open>The loop over the payload: accumulator, number of pending bits, output.\<close>

fun decode_loop :: "32 word \<Rightarrow> nat \<Rightarrow> string \<Rightarrow> string \<Rightarrow> (32 word \<times> nat \<times> string) option" where
  "decode_loop acc bits out [] = Some (acc, bits, out)"
| "decode_loop acc bits out (c # cs) =
     (case sextet c of
        None \<Rightarrow> None
      | Some s \<Rightarrow>
          (let acc = push_bit 6 acc OR s; bits = bits + 6 in
           if 8 \<le> bits
           then decode_loop acc (bits - 8) (out @ [byte_of (drop_bit (bits - 8) acc)]) cs
           else decode_loop acc bits out cs))"

definition PAD :: char where "PAD = CHR 0x3D"

definition split_padding :: "string \<Rightarrow> (string \<times> nat) option" where
  "split_padding cleaned =
     (case position (\<lambda>b. b = PAD) cleaned of
        Some at \<Rightarrow>
          (if list_ex (\<lambda>b. b \<noteq> PAD) (drop at cleaned) \<or> 2 < length cleaned - at then None
           else Some (take at cleaned, length cleaned - at))
      | None \<Rightarrow> Some (cleaned, 0))"

definition decode_base64 :: "string \<Rightarrow> string option" where
  "decode_base64 text =
     (case split_padding (filter (\<lambda>b. \<not> byte_ws b) text) of
        None \<Rightarrow> None
      | Some (payload, padding) \<Rightarrow>
          (if (length payload + padding) mod 4 \<noteq> 0 then None
           else case decode_loop 0 0 [] payload of
               None \<Rightarrow> None
             | Some (acc, bits, out) \<Rightarrow> if acc AND (push_bit bits 1 - 1) \<noteq> 0 then None else Some out))"

section \<open>The reference\<close>

definition ALPHABET :: string where
  "ALPHABET = ''ABCDEFGHIJKLMNOPQRSTUVWXYZabcdefghijklmnopqrstuvwxyz0123456789+'' @ [CHR 0x2F]"

abbreviation e64 :: "nat \<Rightarrow> char" where "e64 n \<equiv> ALPHABET ! n"

text \<open>RFC 4648: three bytes become four characters, the last group is padded.\<close>

fun encode_base64 :: "string \<Rightarrow> string" where
  "encode_base64 [] = []"
| "encode_base64 [a] = [e64 (code a div 4), e64 (code a mod 4 * 16), PAD, PAD]"
| "encode_base64 [a, b] =
     [e64 (code a div 4), e64 (code a mod 4 * 16 + code b div 16), e64 (code b mod 16 * 4), PAD]"
| "encode_base64 (a # b # c # s) =
     e64 (code a div 4) # e64 (code a mod 4 * 16 + code b div 16) # e64 (code b mod 16 * 4 + code c div 64) #
     e64 (code c mod 64) # encode_base64 s"

section \<open>Sextets\<close>

lemma code_less: "code c < 256"
  by (simp add: code_def)

lemma char_of_code_byte [simp]: "char_of (code c) = c"
  by (simp add: code_def)

lemma code_char_of: "n < 256 \<Longrightarrow> code (char_of n) = n"
  by (simp add: code_def)

lemma alphabet_parts: "\<forall>n \<in> {..<26}. e64 n = char_of (65 + n)" "\<forall>n \<in> {..<26}. e64 (26 + n) = char_of (97 + n)"
  "\<forall>n \<in> {..<10}. e64 (52 + n) = char_of (48 + n)"
  by code_simp+

lemma sextet_parts:
  "n < 26 \<Longrightarrow> sextet (char_of (65 + n)) = Some (of_nat n)"
  "n < 26 \<Longrightarrow> sextet (char_of (97 + n)) = Some (of_nat (26 + n))"
  "n < 10 \<Longrightarrow> sextet (char_of (48 + n)) = Some (of_nat (52 + n))"
  by (simp_all add: sextet_def is_ascii_upper_def is_ascii_lower_def is_ascii_digit_def code_def)

lemma sextet_e64: "n < 64 \<Longrightarrow> sextet (e64 n) = Some (of_nat n)"
proof -
  assume "n < 64"
  then consider "n < 26" | "26 \<le> n" "n < 52" | "52 \<le> n" "n < 62" | "n = 62" | "n = 63" by linarith
  then show ?thesis
  proof cases
    case 1
    with alphabet_parts(1) sextet_parts(1) show ?thesis by simp
  next
    case 2
    then have "n = 26 + (n - 26)" "n - 26 < 26" by simp_all
    with alphabet_parts(2) sextet_parts(2) show ?thesis by (metis lessThan_iff)
  next
    case 3
    then have "n = 52 + (n - 52)" "n - 52 < 10" by simp_all
    with alphabet_parts(3) sextet_parts(3) show ?thesis by (metis lessThan_iff)
  qed (simp_all add: ALPHABET_def sextet_def is_ascii_upper_def is_ascii_lower_def is_ascii_digit_def)
qed

lemma sextet_none: "sextet PAD = None" "byte_ws c \<Longrightarrow> sextet c = None"
  by (auto simp: PAD_def byte_ws_def sextet_def is_ascii_upper_def is_ascii_lower_def is_ascii_digit_def)

lemma e64_ok [simp]: "n < 64 \<Longrightarrow> e64 n \<noteq> PAD" "n < 64 \<Longrightarrow> \<not> byte_ws (e64 n)"
  using sextet_e64 sextet_none by (metis option.distinct(1))+

lemma e64_of_range:
  assumes "lo \<le> code c" "code c \<le> hi" "hi < lo + m" "\<forall>n \<in> {..<m}. e64 (k + n) = char_of (lo + n)" "k + m \<le> 64"
  shows "\<exists>n < 64. c = e64 n"
proof -
  have m: "code c - lo < m" using assms(1-3) by linarith
  with assms(5) have l: "k + (code c - lo) < 64" by linarith
  have "lo + (code c - lo) = code c" using assms(1) by simp
  with assms(4) m have "e64 (k + (code c - lo)) = c" by (metis char_of_code_byte lessThan_iff)
  with l show ?thesis by (intro exI [of _ "k + (code c - lo)"]) simp
qed

lemma sextet_cases: "sextet c = None \<or> (\<exists>n < 64. c = e64 n)"
proof -
  have split: "is_ascii_upper c \<or> is_ascii_lower c \<or> is_ascii_digit c \<or> c = CHR ''+'' \<or> c = CHR 0x2F \<or> sextet c = None"
    by (auto simp: sextet_def split: if_splits)
  then show ?thesis
  proof (elim disjE)
    assume "is_ascii_upper c"
    then show ?thesis using e64_of_range [of 65 c 90 26 0] alphabet_parts(1) by (simp add: is_ascii_upper_def code_def)
  next
    assume "is_ascii_lower c"
    then show ?thesis using e64_of_range [of 97 c 122 26 26] alphabet_parts(2) by (simp add: is_ascii_lower_def code_def)
  next
    assume "is_ascii_digit c"
    then show ?thesis using e64_of_range [of 48 c 57 10 52] alphabet_parts(3) by (simp add: is_ascii_digit_def code_def)
  next
    assume "c = CHR ''+''"
    then show ?thesis by (intro disjI2 exI [of _ 62]) (simp add: ALPHABET_def)
  next
    assume "c = CHR 0x2F"
    then show ?thesis by (intro disjI2 exI [of _ 63]) (simp add: ALPHABET_def)
  qed simp
qed

lemma e64_sextet: "sextet c = Some s \<Longrightarrow> unat s < 64 \<and> e64 (unat s) = c"
proof -
  assume s: "sextet c = Some s"
  with sextet_cases [of c] obtain n where n: "n < 64" "c = e64 n" by auto
  with s sextet_e64 [OF n(1)] have "s = of_nat n" by simp
  with n show ?thesis by (simp add: unat_of_nat take_bit_eq_mod)
qed

section \<open>The decoder on numbers\<close>

text \<open>Only the pending bits of the accumulator matter; here they are all there is.\<close>

fun number_loop :: "nat \<Rightarrow> nat \<Rightarrow> string \<Rightarrow> string \<Rightarrow> (nat \<times> nat \<times> string) option" where
  "number_loop p bits out [] = Some (p, bits, out)"
| "number_loop p bits out (c # cs) =
     (case sextet c of
        None \<Rightarrow> None
      | Some s \<Rightarrow>
          (let p = p * 64 + unat s; bits = bits + 6 in
           if 8 \<le> bits
           then number_loop (p mod 2 ^ (bits - 8)) (bits - 8) (out @ [char_of (p div 2 ^ (bits - 8))]) cs
           else number_loop p bits out cs))"

lemma or_low_bits: "(s::nat) < 64 \<Longrightarrow> push_bit 6 x OR s = x * 64 + s"
proof -
  assume s: "s < 64"
  have "push_bit 6 x AND s = 0"
  proof (rule bit_eqI)
    fix n
    have "take_bit 6 s = s" using s by (simp add: take_bit_nat_eq_self_iff)
    then have "bit s n \<Longrightarrow> n < 6" by (metis bit_take_bit_iff)
    then show "bit (push_bit 6 x AND s) n = bit 0 n" by (auto simp: bit_and_iff bit_push_bit_iff)
  qed
  then have "push_bit 6 x OR s = push_bit 6 x + s" by (simp add: disjunctive_add_eq_or)
  then show ?thesis by (simp add: push_bit_eq_mult)
qed

lemma unat_step:
  assumes "unat s < 64" "b \<le> 26"
  shows "take_bit (b + 6) (unat (push_bit 6 acc OR (s :: 32 word))) = take_bit b (unat acc) * 64 + unat s"
proof -
  have "unat (push_bit 6 acc OR s) = take_bit 32 (push_bit 6 (unat acc)) OR unat s"
    by (simp add: unsigned_or_eq unsigned_push_bit_eq)
  then have "take_bit (b + 6) (unat (push_bit 6 acc OR s)) =
      take_bit (b + 6) (push_bit 6 (unat acc)) OR take_bit (b + 6) (unat s)"
    using assms(2) by (simp add: take_bit_or min_def)
  moreover have "take_bit (b + 6) (unat s) = unat s"
  proof -
    have "unat s < 2 ^ (b + 6)" using assms(1) by (rule less_le_trans) (simp add: power_add)
    then show ?thesis by (simp add: take_bit_nat_eq_self_iff)
  qed
  ultimately show ?thesis using assms(1) by (simp add: take_bit_push_bit or_low_bits)
qed

lemma decode_loop_refines:
  "bits \<in> {0, 2, 4, 6} \<Longrightarrow> map_option (\<lambda>(acc, bits, out). (take_bit bits (unat acc), bits, out)) (decode_loop acc bits out cs) =
     number_loop (take_bit bits (unat acc)) bits out cs"
proof (induction acc bits out cs rule: decode_loop.induct)
  case (2 acc bits out c cs)
  show ?case
  proof (cases "sextet c")
    case (Some s)
    have s: "unat s < 64" using e64_sextet Some by simp
    let ?a = "push_bit 6 acc OR s"
    have p: "take_bit (bits + 6) (unat ?a) = take_bit bits (unat acc) * 64 + unat s"
      using s 2(3) by (intro unat_step) auto
    show ?thesis
    proof (cases "8 \<le> bits + 6")
      case False
      then have b: "bits = 0" using 2(3) by auto
      with 2(2) [OF Some refl refl False] Some p show ?thesis by (simp add: Let_def)
    next
      case True
      let ?k = "bits + 6 - 8"
      have k: "?k + 8 = bits + 6" using True by simp
      have byte: "byte_of (drop_bit ?k ?a) = char_of ((take_bit bits (unat acc) * 64 + unat s) div 2 ^ ?k)"
      proof -
        have "unat (take_bit 8 (drop_bit ?k ?a)) = take_bit 8 (drop_bit ?k (unat ?a))"
          by (simp only: unsigned_take_bit_eq unsigned_drop_bit_eq take_bit_nat_eq_self [OF unsigned_less])
        also have "\<dots> = drop_bit ?k (take_bit (bits + 6) (unat ?a))"
          by (metis drop_bit_take_bit k add_diff_cancel_left')
        finally show ?thesis by (simp only: byte_of_def p drop_bit_eq_div)
      qed
      have rest: "take_bit ?k (unat ?a) = (take_bit bits (unat acc) * 64 + unat s) mod 2 ^ ?k"
      proof -
        have "?k \<le> bits + 6" by simp
        then have "take_bit ?k (unat ?a) = take_bit ?k (take_bit (bits + 6) (unat ?a))" by (simp only: take_bit_take_bit min_absorb1)
        then show ?thesis unfolding p by (simp only: take_bit_eq_mod)
      qed
      have "?k \<in> {0, 2, 4, 6}" using 2(3) True by auto
      from 2(1) [OF Some refl refl True this] Some True byte rest show ?thesis by (simp add: Let_def)
    qed
  qed simp
qed simp

section \<open>Groups of four\<close>

definition sx :: "char \<Rightarrow> nat option" where
  "sx c = map_option unat (sextet c)"

lemma sx_e64 [simp]: "n < 64 \<Longrightarrow> sx (e64 n) = Some n"
  by (simp add: sx_def sextet_e64 unat_of_nat take_bit_eq_mod)

lemma sx_Some: "sx c = Some n \<Longrightarrow> n < 64 \<and> e64 n = c"
  using e64_sextet [of c] by (auto simp: sx_def)

lemma number_loop_Cons:
  "number_loop p bits out (c # cs) =
     (case sx c of None \<Rightarrow> None
      | Some s \<Rightarrow> if 8 \<le> bits + 6
          then number_loop ((p * 64 + s) mod 2 ^ (bits - 2)) (bits - 2) (out @ [char_of ((p * 64 + s) div 2 ^ (bits - 2))]) cs
          else number_loop (p * 64 + s) (bits + 6) out cs)"
  by (simp add: sx_def Let_def split: option.splits)

declare number_loop.simps(2) [simp del]

definition group3 :: "nat \<Rightarrow> nat \<Rightarrow> nat \<Rightarrow> nat \<Rightarrow> string" where
  "group3 s1 s2 s3 s4 = map char_of [s1 * 4 + s2 div 16, s2 mod 16 * 16 + s3 div 4, s3 mod 4 * 64 + s4]"

lemma radix: "b < m \<Longrightarrow> (a * m + b) div m = a" "b < m \<Longrightarrow> (a * m + b) mod m = (b::nat)"
  by simp_all

lemma radix64: "(a * 64 + b) div 16 = a * 4 + b div (16::nat)" "(a * 64 + b) mod 16 = b mod (16::nat)"
  "(a * 64 + b) div 4 = a * 16 + b div (4::nat)" "(a * 64 + b) mod 4 = b mod (4::nat)"
proof -
  have e: "a * 64 + b = b + (a * 4) * 16" "a * 64 + b = b + (a * 16) * 4" by simp_all
  show "(a * 64 + b) div 16 = a * 4 + b div 16" "(a * 64 + b) mod 16 = b mod 16"
    by (simp_all only: e(1) div_mult_self1 mod_mult_self1)
  show "(a * 64 + b) div 4 = a * 16 + b div 4" "(a * 64 + b) mod 4 = b mod 4"
    by (simp_all only: e(2) div_mult_self1 mod_mult_self1)
qed

lemma parts_less: "x < 64 \<Longrightarrow> x div 16 < (4::nat)" "x < 64 \<Longrightarrow> x div 4 < (16::nat)"
  "x < 256 \<Longrightarrow> x div 4 < (64::nat)" "x < 256 \<Longrightarrow> x div 16 < (16::nat)" "x < 256 \<Longrightarrow> x div 64 < (4::nat)"
  by (simp_all add: less_mult_imp_div_less)

lemma number_loop_group:
  assumes "sx c1 = Some s1" "sx c2 = Some s2" "sx c3 = Some s3" "sx c4 = Some s4"
  shows "number_loop 0 0 out (c1 # c2 # c3 # c4 # cs) = number_loop 0 0 (out @ group3 s1 s2 s3 s4) cs"
  by (simp add: number_loop_Cons assms radix64 group3_def)

lemma sx_of_code: "(sx c = None) \<or> (\<exists>n < 64. sx c = Some n \<and> c = e64 n)"
  using sx_Some by (cases "sx c") auto

lemma code_group3:
  assumes "s1 < 64" "s2 < 64" "s3 < 64" "s4 < 64"
  shows "encode_base64 (group3 s1 s2 s3 s4 @ s) = e64 s1 # e64 s2 # e64 s3 # e64 s4 # encode_base64 s"
proof -
  have l: "s2 div 16 < 4" "s3 div 4 < 16" "s2 mod 16 < 16" "s3 mod 4 < 4" using assms parts_less by simp_all
  have "s1 * 4 + s2 div 16 < 256" "s2 mod 16 * 16 + s3 div 4 < 256" "s3 mod 4 * 64 + s4 < 256"
    using l assms by linarith+
  then have c: "code (char_of (s1 * 4 + s2 div 16)) = s1 * 4 + s2 div 16"
    "code (char_of (s2 mod 16 * 16 + s3 div 4)) = s2 mod 16 * 16 + s3 div 4"
    "code (char_of (s3 mod 4 * 64 + s4)) = s3 mod 4 * 64 + s4"
    by (simp_all only: code_char_of)
  show ?thesis
    unfolding group3_def by (simp only: list.map append.simps encode_base64.simps c radix l assms div_mult_mod_eq)
qed

lemma group3_of_codes:
  "group3 (code a div 4) (code a mod 4 * 16 + code b div 16) (code b mod 16 * 4 + code c div 64) (code c mod 64) = [a, b, c]"
proof -
  have l: "code b div 16 < 16" "code c div 64 < 4" using code_less parts_less by blast+
  show ?thesis unfolding group3_def
    by (simp only: radix l div_mult_mod_eq list.map char_of_code_byte)
qed

lemma byte_parts: "code a div 4 < 64" "code a mod 4 * 16 + code b div 16 < 64" "code b mod 16 * 4 + code c div 64 < 64"
  "code c mod 64 < 64" "code a mod 4 * 16 < 64" "code b mod 16 * 4 < 64"
proof -
  have l: "code a div 4 < 64" "code b div 16 < 16" "code c div 64 < 4" using code_less parts_less by blast+
  have m: "code a mod 4 < 4" "code b mod 16 < 16" "code c mod 64 < 64" by simp_all
  show "code a div 4 < 64" "code a mod 4 * 16 + code b div 16 < 64" "code b mod 16 * 4 + code c div 64 < 64"
    "code c mod 64 < 64" "code a mod 4 * 16 < 64" "code b mod 16 * 4 < 64" using l m by linarith+
qed

text \<open>What the loop does with an encoding, and what it accepts.\<close>

definition pads :: "string \<Rightarrow> nat" where
  "pads s = (3 - length s mod 3) mod 3"

lemma encode_loop:
  "\<exists>payload bits. encode_base64 s = payload @ replicate (pads s) PAD \<and> number_loop 0 0 out payload = Some (0, bits, out @ s) \<and>
     (length payload + pads s) mod 4 = 0 \<and> (\<forall>c \<in> set payload. c \<noteq> PAD \<and> \<not> byte_ws c)"
proof (induction s arbitrary: out rule: encode_base64.induct)
  case 1
  have "encode_base64 [] = [] @ replicate (pads []) PAD \<and> number_loop 0 0 out [] = Some (0, 0, out @ []) \<and>
     (length ([] :: string) + pads []) mod 4 = 0" by (simp add: pads_def)
  then show ?case by fastforce
next
  case (2 a)
  let ?p = "[e64 (code a div 4), e64 (code a mod 4 * 16)]"
  have r2: "replicate 2 PAD = [PAD, PAD]" by (simp add: numeral_2_eq_2)
  have d: "code a div 4 * 4 + code a mod 4 * 16 div 16 = code a" "code a mod 4 * 16 mod 16 = 0" by simp_all
  have "number_loop 0 0 out ?p = Some (0, 4, out @ [a])"
    using byte_parts(1,5) [of a] by (simp add: number_loop_Cons radix64 d)
  moreover have "encode_base64 [a] = ?p @ replicate (pads [a]) PAD" by (simp add: pads_def r2)
  moreover have "(length ?p + pads [a]) mod 4 = 0" by (simp add: pads_def)
  moreover have "\<forall>c \<in> set ?p. c \<noteq> PAD \<and> \<not> byte_ws c" using byte_parts(1,5) [of a] by simp
  ultimately show ?case by (intro exI [of _ ?p] exI [of _ "4 :: nat"] conjI)
next
  case (3 a b)
  let ?p = "[e64 (code a div 4), e64 (code a mod 4 * 16 + code b div 16), e64 (code b mod 16 * 4)]"
  have m: "code b div 16 < 16" using code_less parts_less by blast
  have d: "code a div 4 * 4 + (code a mod 4 * 16 + code b div 16) div 16 = code a"
    "(code a mod 4 * 16 + code b div 16) mod 16 = code b div 16"
    "code b div 16 * 16 + code b mod 16 * 4 div 4 = code b" "code b mod 16 * 4 mod 4 = 0"
    using m by (simp_all add: radix)
  have m2: "code b div 16 div 16 = 0" "code b div 16 mod 16 = code b div 16" using m by (simp_all only: div_less mod_less)
  have "number_loop 0 0 out ?p = Some (0, 2, out @ [a, b])"
    using byte_parts(1) [of a] byte_parts(2) [of a b] byte_parts(6) [of b] by (simp add: number_loop_Cons radix64 d m2)
  moreover have "encode_base64 [a, b] = ?p @ replicate (pads [a, b]) PAD" by (simp add: pads_def)
  moreover have "(length ?p + pads [a, b]) mod 4 = 0" by (simp add: pads_def)
  moreover have "\<forall>c \<in> set ?p. c \<noteq> PAD \<and> \<not> byte_ws c"
    using byte_parts(1) [of a] byte_parts(2) [of a b] byte_parts(6) [of b] by simp
  ultimately show ?case by (intro exI [of _ ?p] exI [of _ "2 :: nat"] conjI)
next
  case (4 a b c s)
  obtain payload bits where
    p: "encode_base64 s = payload @ replicate (pads s) PAD" "number_loop 0 0 (out @ [a, b, c]) payload = Some (0, bits, (out @ [a, b, c]) @ s)"
      "(length payload + pads s) mod 4 = 0" "\<forall>c \<in> set payload. c \<noteq> PAD \<and> \<not> byte_ws c"
    using "4.IH" [of "out @ [a, b, c]"] by (elim exE conjE) (rule that, assumption+)
  let ?g = "[e64 (code a div 4), e64 (code a mod 4 * 16 + code b div 16), e64 (code b mod 16 * 4 + code c div 64), e64 (code c mod 64)]"
  have "number_loop 0 0 out (?g @ payload) = number_loop 0 0 (out @ [a, b, c]) payload"
    by (simp add: number_loop_group [OF sx_e64 sx_e64 sx_e64 sx_e64, OF byte_parts(1) byte_parts(2) byte_parts(3) byte_parts(4)]
        group3_of_codes)
  moreover have "pads (a # b # c # s) = pads s" by (simp add: pads_def)
  moreover have "(length (?g @ payload) + pads s) mod 4 = 0" using p(3) by simp
  ultimately have "encode_base64 (a # b # c # s) = (?g @ payload) @ replicate (pads (a # b # c # s)) PAD \<and>
     number_loop 0 0 out (?g @ payload) = Some (0, bits, out @ a # b # c # s) \<and>
     (length (?g @ payload) + pads (a # b # c # s)) mod 4 = 0 \<and> (\<forall>c \<in> set (?g @ payload). c \<noteq> PAD \<and> \<not> byte_ws c)"
    using p byte_parts(1) [of a] byte_parts(2) [of a b] byte_parts(3) [of b c] byte_parts(4) [of c] by simp
  then show ?case by (intro exI)
qed

lemma loop_encodes:
  "number_loop 0 0 out payload = Some (0, bits, r) \<Longrightarrow> (length payload + pad) mod 4 = 0 \<Longrightarrow> pad \<le> 2 \<Longrightarrow>
   \<exists>s. r = out @ s \<and> encode_base64 s = payload @ replicate pad PAD"
proof (induction payload arbitrary: out rule: length_induct)
  case (1 payload)
  note prems = 1(2,3,4)
  have pad: "pad = 0 \<or> pad = 1 \<or> pad = 2" using prems(3) by linarith
  consider (nil) "payload = []" | (one) c1 where "payload = [c1]" | (two) c1 c2 where "payload = [c1, c2]"
    | (three) c1 c2 c3 where "payload = [c1, c2, c3]" | (four) c1 c2 c3 c4 cs where "payload = c1 # c2 # c3 # c4 # cs"
    by (metis list.exhaust)
  then show ?case
  proof cases
    case nil
    with prems pad have "pad = 0" by auto
    with nil prems show ?thesis by (intro exI [of _ "[]"]) simp
  next
    case one
    then have "(1 + pad) mod 4 = 0" using prems(2) by (simp only: list.size add_0 One_nat_def add_Suc)
    with pad have False by presburger
    then show ?thesis ..
  next
    case two
    then have "(2 + pad) mod 4 = 0" using prems(2) by (simp only: list.size add_0 One_nat_def add_Suc numeral_2_eq_2)
    then have pd: "pad = 2" using pad by presburger
    from prems(1) two obtain s1 s2 where s: "sx c1 = Some s1" "sx c2 = Some s2"
      by (auto simp: number_loop_Cons split: option.splits)
    note l = sx_Some [OF s(1)] sx_Some [OF s(2)]
    have m: "s2 mod 16 = 0" "r = out @ [char_of (s1 * 4 + s2 div 16)]"
      using prems(1) two s by (simp_all add: number_loop_Cons radix64)
    have x: "s1 * 4 + s2 div 16 < 256" using l parts_less(1) [of s2] by linarith
    have "s2 div 16 * 16 = s2" using m(1) div_mult_mod_eq [of s2 16] by simp
    then have "encode_base64 [char_of (s1 * 4 + s2 div 16)] = [c1, c2, PAD, PAD]"
      using l parts_less(1) [of s2] by (simp only: encode_base64.simps code_char_of [OF x] radix)
    with m two pd show ?thesis by (intro exI [of _ "[char_of (s1 * 4 + s2 div 16)]"]) (simp add: numeral_2_eq_2)
  next
    case three
    then have "(3 + pad) mod 4 = 0" using prems(2) by (simp only: list.size add_0 One_nat_def add_Suc numeral_3_eq_3)
    then have pd: "pad = 1" using pad by presburger
    from prems(1) three obtain s1 s2 s3 where s: "sx c1 = Some s1" "sx c2 = Some s2" "sx c3 = Some s3"
      by (auto simp: number_loop_Cons split: option.splits)
    note l = sx_Some [OF s(1)] sx_Some [OF s(2)] sx_Some [OF s(3)]
    let ?x = "s1 * 4 + s2 div 16" and ?y = "s2 mod 16 * 16 + s3 div 4"
    have m: "s3 mod 4 = 0" "r = out @ [char_of ?x, char_of ?y]"
      using prems(1) three s by (simp_all add: number_loop_Cons radix64)
    have b: "s2 div 16 < 4" "s3 div 4 < 16" "s2 mod 16 < 16" using l parts_less by simp_all
    then have xy: "?x < 256" "?y < 256" using l by linarith+
    have "s3 div 4 * 4 = s3" using m(1) div_mult_mod_eq [of s3 4] by simp
    then have "encode_base64 [char_of ?x, char_of ?y] = [c1, c2, c3, PAD]"
      using l b by (simp only: encode_base64.simps code_char_of [OF xy(1)] code_char_of [OF xy(2)] radix div_mult_mod_eq)
    with m three pd show ?thesis by (intro exI [of _ "[char_of ?x, char_of ?y]"]) simp
  next
    case four
    from prems(1) four obtain s1 s2 s3 s4 where s: "sx c1 = Some s1" "sx c2 = Some s2" "sx c3 = Some s3" "sx c4 = Some s4"
      by (auto simp: number_loop_Cons split: option.splits)
    note l = sx_Some [OF s(1)] sx_Some [OF s(2)] sx_Some [OF s(3)] sx_Some [OF s(4)]
    from prems(1) four have "number_loop 0 0 (out @ group3 s1 s2 s3 s4) cs = Some (0, bits, r)"
      by (simp add: number_loop_group [OF s])
    moreover have "(length cs + pad) mod 4 = 0" "length cs < length payload" using prems(2) four by simp_all
    ultimately obtain t where t: "r = (out @ group3 s1 s2 s3 s4) @ t" "encode_base64 t = cs @ replicate pad PAD"
      using 1(1) [rule_format, of cs "out @ group3 s1 s2 s3 s4"] prems(3) by metis
    have "encode_base64 (group3 s1 s2 s3 s4 @ t) = c1 # c2 # c3 # c4 # encode_base64 t"
      using l by (simp only: code_group3)
    with t four show ?thesis by (intro exI [of _ "group3 s1 s2 s3 s4 @ t"]) simp
  qed
qed

lemma split_padding_Some:
  "split_padding cleaned = Some (p, k) \<longleftrightarrow> cleaned = p @ replicate k PAD \<and> PAD \<notin> set p \<and> k \<le> 2"
proof (cases "PAD \<in> set cleaned")
  case False
  then have "position (\<lambda>b. b = PAD) cleaned = None" by (auto simp: position_None)
  with False show ?thesis by (auto simp: split_padding_def)
next
  case True
  then obtain u v where c: "cleaned = u @ PAD # v" "PAD \<notin> set u" by (meson split_list_first)
  then have "split_padding cleaned =
      (if list_ex (\<lambda>b. b \<noteq> PAD) (PAD # v) \<or> 2 < Suc (length v) then None else Some (u, Suc (length v)))"
    by (simp add: split_padding_def position_split)
  moreover have "list_ex (\<lambda>b. b \<noteq> PAD) (PAD # v) \<longleftrightarrow> v \<noteq> replicate (length v) PAD"
    by (auto simp: list_ex_iff intro: replicate_eqI) (metis in_set_replicate)
  moreover have unique: "p = u \<and> k = Suc (length v) \<and> v = replicate (length v) PAD"
    if "u @ PAD # v = p @ replicate k PAD" "PAD \<notin> set p" for p k
  proof -
    have "takeWhile (\<lambda>b. b \<noteq> PAD) (u @ PAD # v) = u" using c(2) by (simp add: takeWhile_append)
    moreover have "takeWhile (\<lambda>b. b \<noteq> PAD) (p @ replicate k PAD) = p" using that(2) by (cases k) (auto simp: takeWhile_append)
    ultimately have "u = p" using that(1) by simp
    with that(1) have "PAD # v = replicate k PAD" by simp
    with \<open>u = p\<close> show ?thesis by (cases k) auto
  qed
  ultimately have s: "split_padding cleaned =
      (if v \<noteq> replicate (length v) PAD \<or> 1 < length v then None else Some (u, Suc (length v)))" by simp
  have same: "p = u \<and> k = Suc (length v) \<and> v = replicate (length v) PAD"
    if a: "cleaned = p @ replicate k PAD \<and> PAD \<notin> set p \<and> k \<le> 2"
    by (rule unique [OF trans [OF c(1) [symmetric] conjunct1 [OF a]] conjunct1 [OF conjunct2 [OF a]]])
  show ?thesis
  proof (cases "v = replicate (length v) PAD \<and> length v \<le> 1")
    case True
    then have r: "PAD # v = replicate (Suc (length v)) PAD" by (simp only: replicate_Suc)
    have s: "split_padding cleaned = Some (u, Suc (length v))" using True s by simp
    show ?thesis
    proof
      assume "split_padding cleaned = Some (p, k)"
      with s have pu: "p = u" and k: "k = Suc (length v)" by simp_all
      have "cleaned = p @ replicate k PAD" unfolding pu k c(1) by (rule arg_cong [where f = "\<lambda>z. u @ z", OF r])
      moreover have "PAD \<notin> set p" unfolding pu by (rule c(2))
      moreover have "k \<le> 2" using True k by simp
      ultimately show "cleaned = p @ replicate k PAD \<and> PAD \<notin> set p \<and> k \<le> 2" by (intro conjI)
    next
      assume a: "cleaned = p @ replicate k PAD \<and> PAD \<notin> set p \<and> k \<le> 2"
      have "p = u \<and> k = Suc (length v)" using same [OF a] by blast
      with s show "split_padding cleaned = Some (p, k)" by simp
    qed
  next
    case False
    with s have n: "split_padding cleaned = None" by (simp only: linorder_not_le de_Morgan_conj if_True)
    have "\<not> (cleaned = p @ replicate k PAD \<and> PAD \<notin> set p \<and> k \<le> 2)"
    proof
      assume a: "cleaned = p @ replicate k PAD \<and> PAD \<notin> set p \<and> k \<le> 2"
      from same [OF a] a have "v = replicate (length v) PAD" "Suc (length v) \<le> 2" by (blast, simp)
      with False show False by linarith
    qed
    with n show ?thesis by (simp only: option.distinct)
  qed
qed

text \<open>
  C21. The decoder is the inverse of the RFC 4648 encoding, and nothing more: it accepts a text
  exactly when the text, without white space, is the (canonical, padded) encoding of some bytes,
  and then returns these bytes, although its accumulator overflows after the sixth character.
\<close>

theorem decode_base64_inverts:
  "decode_base64 text = Some bytes \<longleftrightarrow> filter (\<lambda>b. \<not> byte_ws b) text = encode_base64 bytes"
proof -
  let ?c = "filter (\<lambda>b. \<not> byte_ws b) text"
  have mask: "acc AND (push_bit bits 1 - 1) = 0 \<longleftrightarrow> take_bit bits (unat acc) = 0" for acc :: "32 word" and bits
  proof -
    have "acc AND (push_bit bits 1 - 1) = take_bit bits acc" by (simp add: take_bit_eq_mask mask_eq_exp_minus_1 push_bit_eq_mult)
    then show ?thesis by (metis unat_eq_zero unsigned_take_bit_eq)
  qed
  have loop: "(\<exists>acc bits. decode_loop 0 0 [] p = Some (acc, bits, r) \<and> acc AND (push_bit bits 1 - 1) = 0) \<longleftrightarrow>
      (\<exists>bits. number_loop 0 0 [] p = Some (0, bits, r))" for p r
    using decode_loop_refines [of 0 0 "[]" p] mask
    by (cases "decode_loop 0 0 [] p") (auto simp: eq_commute [of "Some _" "number_loop 0 0 [] p"] split: prod.splits)
  have "decode_base64 text = Some bytes \<longleftrightarrow>
      (\<exists>p k. split_padding ?c = Some (p, k) \<and> (length p + k) mod 4 = 0 \<and> (\<exists>bits. number_loop 0 0 [] p = Some (0, bits, bytes)))"
    unfolding loop [symmetric] by (auto simp: decode_base64_def split: option.splits prod.splits if_splits)
  also have "\<dots> \<longleftrightarrow> ?c = encode_base64 bytes"
  proof
    assume "\<exists>p k. split_padding ?c = Some (p, k) \<and> (length p + k) mod 4 = 0 \<and> (\<exists>bits. number_loop 0 0 [] p = Some (0, bits, bytes))"
    then obtain p k bits where "?c = p @ replicate k PAD" "k \<le> 2" "(length p + k) mod 4 = 0" "number_loop 0 0 [] p = Some (0, bits, bytes)"
      unfolding split_padding_Some by (elim exE conjE) (rule that, assumption+)
    with loop_encodes [of "[]" p bits bytes k] show "?c = encode_base64 bytes" by simp
  next
    assume e: "?c = encode_base64 bytes"
    obtain p bits where "encode_base64 bytes = p @ replicate (pads bytes) PAD" "number_loop 0 0 [] p = Some (0, bits, [] @ bytes)"
      "(length p + pads bytes) mod 4 = 0" "\<forall>c \<in> set p. c \<noteq> PAD \<and> \<not> byte_ws c"
      using encode_loop [of bytes "[]"] by (elim exE conjE) (rule that, assumption+)
    moreover have "pads bytes \<le> 2" by (simp add: pads_def)
    ultimately show "\<exists>p k. split_padding ?c = Some (p, k) \<and> (length p + k) mod 4 = 0 \<and> (\<exists>bits. number_loop 0 0 [] p = Some (0, bits, bytes))"
      unfolding split_padding_Some e by (intro exI [of _ p] exI [of _ "pads bytes"]) auto
  qed
  finally show ?thesis .
qed

end
