(* ===== verification/WdaClient.thy ===== *)
theory WdaClient
  imports IosLib Base64
begin

text \<open>
  The crate \<open>quadcontrol-ios\<close>, \<open>wda.rs\<close>: the client of WebDriverAgent. The HTTP library and
  the server behind it are a parameter of the state: what a request is answered may depend on
  all requests made so far. A request lasts at most its time limit. The client's state (session
  id, picture settings) is shared by its clones; another clone may replace the session while
  this one waits for the lock of the re-creation (\<open>wd_others\<close>).
\<close>

section \<open>HTTP\<close>

datatype http_method = GET | POST | DELETE

record http_request =
  rq_method :: http_method
  rq_url :: string
  rq_body :: "json option"
  rq_limit :: nat

text \<open>
  The answer: a success or an error status, each with the bytes of the body and the error that
  broken it short, or no answer at all.
\<close>

datatype http_answer =
    HttpOk string "io_error option"
  | HttpStatus nat string "io_error option"
  | HttpTransport string

record wda =
  wd_base :: string
  wd_session :: "string option"
  wd_mjpeg :: "(nat \<times> nat) option"
  wd_clk :: clock
  wd_log :: "http_request list"
  wd_answer :: "http_request list \<Rightarrow> nat \<times> http_answer"
  wd_timed_out :: string
  wd_parse :: json_parser
  wd_others :: "http_request list \<Rightarrow> string option"

type_synonym 'a wda_result = "wda \<times> (IosError + 'a)"
type_synonym 'a wda_raw = "wda \<times> (string + 'a)"

definition REQUEST_TIMEOUT :: nat where "REQUEST_TIMEOUT = 5000"
definition BODY_LIMIT :: nat where "BODY_LIMIT = 8 * 1024 * 1024"
definition DELETE_SESSION_TIMEOUT :: nat where "DELETE_SESSION_TIMEOUT = 1000"
definition UNLOCK_TIMEOUT :: nat where "UNLOCK_TIMEOUT = 12000"
definition UNLOCK_SETTLE_BUDGET :: nat where "UNLOCK_SETTLE_BUDGET = 2000"

definition http_send :: "http_request \<Rightarrow> wda \<Rightarrow> wda \<times> http_answer" where
  "http_send rq w =
     (let log = wd_log w @ [rq]; (d, r) = wd_answer w log in
      if rq_limit rq < d
      then (w\<lparr>wd_log := log, wd_clk := (wd_clk w)\<lparr>now := now (wd_clk w) + rq_limit rq\<rparr>\<rparr>, HttpTransport (wd_timed_out w))
      else (w\<lparr>wd_log := log, wd_clk := (wd_clk w)\<lparr>now := now (wd_clk w) + d\<rparr>\<rparr>, r))"

text \<open>\<open>describe\<close>: errors of reading the body are ignored. \<open>read_json_raw\<close>.\<close>

definition describe :: "string \<Rightarrow> http_answer \<Rightarrow> string" where
  "describe path a =
     (case a of
        HttpStatus status body _ \<Rightarrow>
          ''WDA '' @ path @ '' returned '' @ show_nat status @ '': '' @ str_trim (from_utf8_lossy (take BODY_LIMIT body))
      | HttpTransport t \<Rightarrow> ''WDA '' @ path @ '' is unreachable: '' @ t
      | HttpOk _ _ \<Rightarrow> [])"

definition read_json_raw :: "json_parser \<Rightarrow> string \<Rightarrow> io_error option \<Rightarrow> string \<Rightarrow> string + json" where
  "read_json_raw parse body broken path =
     (if BODY_LIMIT + 1 \<le> length body
      then Inl (''WDA '' @ path @ '' response exceeded the '' @ show_nat BODY_LIMIT @ '' byte limit'')
      else case broken of
          Some e \<Rightarrow> Inl (''WDA '' @ path @ '' body could not be read: '' @ io_text e)
        | None \<Rightarrow>
            if body = [] then Inr JNull
            else mapErr (\<lambda>e. ''WDA '' @ path @ '' returned unparsable JSON: '' @ e) (parse body))"

definition http_json :: "string \<Rightarrow> http_request \<Rightarrow> wda \<Rightarrow> json wda_raw" where
  "http_json path rq w =
     (case http_send rq w of
        (w, HttpOk body broken) \<Rightarrow> (w, read_json_raw (wd_parse w) body broken path)
      | (w, a) \<Rightarrow> (w, Inl (describe path a)))"

definition get_raw :: "string \<Rightarrow> wda \<Rightarrow> json wda_raw" where
  "get_raw path w =
     http_json path \<lparr>rq_method = GET, rq_url = wd_base w @ path, rq_body = None, rq_limit = REQUEST_TIMEOUT\<rparr> w"

definition post_raw :: "string \<Rightarrow> json \<Rightarrow> wda \<Rightarrow> json wda_raw" where
  "post_raw path body w =
     http_json path \<lparr>rq_method = POST, rq_url = wd_base w @ path, rq_body = Some body, rq_limit = REQUEST_TIMEOUT\<rparr> w"

definition wda_get :: "string \<Rightarrow> (string \<Rightarrow> IosError) \<Rightarrow> wda \<Rightarrow> json wda_result" where
  "wda_get path wrap w = (case get_raw path w of (w, r) \<Rightarrow> (w, mapErr wrap r))"

definition wda_post :: "string \<Rightarrow> json \<Rightarrow> (string \<Rightarrow> IosError) \<Rightarrow> wda \<Rightarrow> json wda_result" where
  "wda_post path body wrap w = (case post_raw path body w of (w, r) \<Rightarrow> (w, mapErr wrap r))"

text \<open>Sequencing: the \<open>?\<close> of a fallible step that changes the state.\<close>

definition wda_bind :: "wda \<times> ('e + 'a) \<Rightarrow> ('a \<Rightarrow> wda \<Rightarrow> wda \<times> ('e + 'b)) \<Rightarrow> wda \<times> ('e + 'b)" where
  "wda_bind x f = (case x of (w, Inl e) \<Rightarrow> (w, Inl e) | (w, Inr a) \<Rightarrow> f a w)"

section \<open>Sessions\<close>

definition wda_client :: "string \<Rightarrow> wda \<Rightarrow> wda" where
  "wda_client base w = w\<lparr>wd_base := base, wd_session := None, wd_mjpeg := None\<rparr>"

definition wda_new :: "nat \<Rightarrow> wda \<Rightarrow> wda" where
  "wda_new http_port w = wda_client (''http://127.0.0.1:'' @ show_nat http_port) w"

definition session_of :: "wda \<Rightarrow> IosError + string" where
  "session_of w = okOr (WdaSessionFailed ''no WDA session has been created'') (wd_session w)"

definition is_invalid_session :: "string \<Rightarrow> bool" where
  "is_invalid_session message =
     (let lower = to_ascii_lowercase message in
      str_contains ''returned 404'' lower \<and>
      (str_contains ''invalid session'' lower \<or> str_contains ''session does not exist'' lower))"

definition wda_status :: "wda \<Rightarrow> json wda_result" where
  "wda_status w = wda_get ''/status'' WdaUnreachable w"

text \<open>The first of the two places that has the key decides, whatever is there.\<close>

definition session_id_of :: "json \<Rightarrow> string option" where
  "session_id_of value =
     Option.bind (case json_get ''sessionId'' value of
         Some v \<Rightarrow> Some v
       | None \<Rightarrow> Option.bind (json_get ''value'' value) (json_get ''sessionId'')) json_str"

definition create_session :: "wda \<Rightarrow> string wda_result" where
  "create_session w =
     wda_bind (wda_post ''/session'' (JObject [(''capabilities'', JObject [(''alwaysMatch'', JObject [])])]) WdaSessionFailed w)
       (\<lambda>value w. case session_id_of value of
          None \<Rightarrow> (w, Inl (WdaSessionFailed ''WDA response has no sessionId''))
        | Some i \<Rightarrow> (w\<lparr>wd_session := Some i\<rparr>, Inr i))"

definition configure_mjpeg_once :: "string \<Rightarrow> nat \<Rightarrow> nat \<Rightarrow> wda \<Rightarrow> unit wda_raw" where
  "configure_mjpeg_once session fps quality w =
     wda_bind (post_raw (''/session/'' @ session @ ''/appium/settings'')
         (JObject [(''settings'', JObject [(''mjpegServerFramerate'', JNumber (PosInt fps)),
                                        (''mjpegServerScreenshotQuality'', JNumber (PosInt quality))])]) w)
       (\<lambda>_ w. (w, Inr ()))"

definition recreate_session :: "wda \<Rightarrow> unit wda_result" where
  "recreate_session w =
     wda_bind (create_session w) (\<lambda>_ w.
       case wd_mjpeg w of
         None \<Rightarrow> (w, Inr ())
       | Some (fps, quality) \<Rightarrow>
           (case session_of w of
              Inl e \<Rightarrow> (w, Inl e)
            | Inr session \<Rightarrow> (case configure_mjpeg_once session fps quality w of (w, r) \<Rightarrow> (w, mapErr WdaSessionFailed r))))"

text \<open>Taking the lock: another clone may have replaced the session before.\<close>

definition take_recreate_lock :: "wda \<Rightarrow> wda" where
  "take_recreate_lock w = (case wd_others w (wd_log w) of None \<Rightarrow> w | Some s \<Rightarrow> w\<lparr>wd_session := Some s\<rparr>)"

definition recreate_session_unless_replaced :: "string \<Rightarrow> wda \<Rightarrow> unit wda_result" where
  "recreate_session_unless_replaced stale w =
     (let w = take_recreate_lock w in
      case session_of w of
        Inl e \<Rightarrow> (w, Inl e)
      | Inr s \<Rightarrow> if s \<noteq> stale then (w, Inr ()) else recreate_session w)"

definition session_call :: "(string \<Rightarrow> wda \<Rightarrow> 'a wda_raw) \<Rightarrow> (string \<Rightarrow> IosError) \<Rightarrow> wda \<Rightarrow> 'a wda_result" where
  "session_call call wrap w =
     (case session_of w of
        Inl e \<Rightarrow> (w, Inl e)
      | Inr session \<Rightarrow>
          (case call session w of
             (w, Inr value) \<Rightarrow> (w, Inr value)
           | (w, Inl message) \<Rightarrow>
               (if is_invalid_session message
                then wda_bind (recreate_session_unless_replaced session w) (\<lambda>_ w.
                       case session_of w of
                         Inl e \<Rightarrow> (w, Inl e)
                       | Inr session \<Rightarrow> (case call session w of (w, r) \<Rightarrow> (w, mapErr wrap r)))
                else (w, Inl (wrap message)))))"

definition configure_mjpeg :: "nat \<Rightarrow> nat \<Rightarrow> wda \<Rightarrow> unit wda_result" where
  "configure_mjpeg fps quality w =
     session_call (\<lambda>session. configure_mjpeg_once session fps quality) WdaSessionFailed (w\<lparr>wd_mjpeg := Some (fps, quality)\<rparr>)"

section \<open>Reading the device\<close>

record WindowSize =
  ws_width :: "32 word"
  ws_height :: "32 word"

record ActiveApp =
  aa_bundle_id :: string
  aa_pid :: "32 word"

fun json_u64 :: "json \<Rightarrow> nat option" where
  "json_u64 (JNumber (PosInt n)) = Some n"
| "json_u64 _ = None"

text \<open>\<open>value.get("value").unwrap\_or(\&value)\<close>.\<close>

definition unwrap_value :: "json \<Rightarrow> json" where
  "unwrap_value v = (case json_get ''value'' v of Some x \<Rightarrow> x | None \<Rightarrow> v)"

definition size_field :: "json \<Rightarrow> string \<Rightarrow> IosError + nat" where
  "size_field dims name =
     okOr (WdaSessionFailed (''window size has no '' @ name)) (Option.bind (json_get name dims) json_u64)"

definition window_size :: "wda \<Rightarrow> WindowSize wda_result" where
  "window_size w =
     wda_bind (session_call (\<lambda>s. get_raw (''/session/'' @ s @ ''/window/size'')) WdaSessionFailed w) (\<lambda>value w.
       (w, let dims = unwrap_value value in
           andThen (size_field dims ''width'') (\<lambda>x.
           andThen (size_field dims ''height'') (\<lambda>y. Inr \<lparr>ws_width = of_nat x, ws_height = of_nat y\<rparr>))))"

definition locked :: "wda \<Rightarrow> bool wda_result" where
  "locked w =
     wda_bind (session_call (\<lambda>s. get_raw (''/session/'' @ s @ ''/wda/locked'')) WdaSessionFailed w) (\<lambda>value w.
       (w, okOr (WdaSessionFailed ''locked response has no boolean value'')
             (Option.bind (json_get ''value'' value) json_bool)))"

definition active_app :: "wda \<Rightarrow> ActiveApp wda_result" where
  "active_app w =
     wda_bind (session_call (\<lambda>s. get_raw (''/session/'' @ s @ ''/wda/activeAppInfo'')) WdaSessionFailed w) (\<lambda>value w.
       let info = unwrap_value value in
       case Option.bind (json_get ''bundleId'' info) json_str of
         Some i \<Rightarrow>
           (if i \<noteq> []
            then (w, Inr \<lparr>aa_bundle_id = i,
                      aa_pid = (case Option.bind (json_get ''pid'' info) json_u64 of Some n \<Rightarrow> of_nat n | None \<Rightarrow> 0)\<rparr>)
            else (w, Inl (WdaSessionFailed ''activeAppInfo has no bundleId'')))
       | None \<Rightarrow> (w, Inl (WdaSessionFailed ''activeAppInfo has no bundleId'')))"

section \<open>Acting on the device\<close>

text \<open>An \<open>f64\<close>; what is not finite becomes \<open>null\<close> in JSON. Comparisons only: no rounding occurs.\<close>

datatype f64 = Fin rat | PosInfinity | NegInfinity | NaN

fun f64_json :: "f64 \<Rightarrow> json" where
  "f64_json (Fin r) = JNumber (Float r)"
| "f64_json _ = JNull"

definition SWIPE_MIN_SECS :: rat where "SWIPE_MIN_SECS = 5 / 100"
definition SWIPE_MAX_SECS :: rat where "SWIPE_MAX_SECS = 2"

definition swipe_duration :: "f64 \<Rightarrow> rat" where
  "swipe_duration d =
     (case d of
        Fin r \<Rightarrow> if r < SWIPE_MIN_SECS then SWIPE_MIN_SECS else if SWIPE_MAX_SECS < r then SWIPE_MAX_SECS else r
      | _ \<Rightarrow> SWIPE_MIN_SECS)"

text \<open>A request that is sent only to an unlocked device; its answer is dropped.\<close>

definition unless_locked :: "(wda \<Rightarrow> 'a wda_result) \<Rightarrow> wda \<Rightarrow> 'a wda_result" where
  "unless_locked act w =
     wda_bind (locked w) (\<lambda>is_locked w. if is_locked then (w, Inl DeviceLocked) else act w)"

definition session_post :: "string \<Rightarrow> json \<Rightarrow> (string \<Rightarrow> IosError) \<Rightarrow> wda \<Rightarrow> unit wda_result" where
  "session_post path body wrap w =
     wda_bind (session_call (\<lambda>s. post_raw (''/session/'' @ s @ path) body) wrap w) (\<lambda>_ w. (w, Inr ()))"

definition tap :: "f64 \<Rightarrow> f64 \<Rightarrow> wda \<Rightarrow> unit wda_result" where
  "tap x y = unless_locked
     (session_post ''/wda/tap'' (JObject [(''x'', f64_json x), (''y'', f64_json y)]) WdaSessionFailed)"

definition swipe :: "f64 \<times> f64 \<Rightarrow> f64 \<times> f64 \<Rightarrow> f64 \<Rightarrow> wda \<Rightarrow> unit wda_result" where
  "swipe src dst secs = unless_locked
     (session_post ''/wda/dragfromtoforduration''
        (JObject [(''fromX'', f64_json (fst src)), (''fromY'', f64_json (snd src)), (''toX'', f64_json (fst dst)),
           (''toY'', f64_json (snd dst)), (''duration'', JNumber (Float (swipe_duration secs)))]) WdaSessionFailed)"

definition press_home :: "wda \<Rightarrow> unit wda_result" where
  "press_home w = session_post ''/wda/pressButton'' (JObject [(''name'', JString ''home'')]) WdaSessionFailed w"

definition activate_app :: "string \<Rightarrow> wda \<Rightarrow> unit wda_result" where
  "activate_app bundle w =
     (if bundle = [] then (w, Inl (ActivateAppFailed ''empty bundle id''))
      else unless_locked (session_post ''/wda/apps/activate'' (JObject [(''bundleId'', JString bundle)]) ActivateAppFailed) w)"

section \<open>Waking\<close>

text \<open>
  What a step may do: it issues at most \<open>n\<close> requests, all of which satisfy \<open>P\<close>, and takes no
  longer than their time limits allow. Sequencing adds the bounds.
\<close>

definition reach :: "(http_request \<Rightarrow> bool) \<Rightarrow> nat \<Rightarrow> wda \<Rightarrow> wda \<Rightarrow> bool" where
  "reach P n w w' \<longleftrightarrow> (\<exists>rqs. wd_log w' = wd_log w @ rqs \<and> list_all P rqs \<and> length rqs \<le> n \<and>
     now (wd_clk w) \<le> now (wd_clk w') \<and> now (wd_clk w') \<le> now (wd_clk w) + sum_list (map rq_limit rqs) \<and>
     lag (wd_clk w') = lag (wd_clk w) \<and> polls (wd_clk w') = polls (wd_clk w))"

definition does :: "(http_request \<Rightarrow> bool) \<Rightarrow> nat \<Rightarrow> (wda \<Rightarrow> wda \<times> 'a) \<Rightarrow> bool" where
  "does P n f \<longleftrightarrow> (\<forall>w. reach P n w (fst (f w)))"

lemma reach_refl: "wd_log w' = wd_log w \<Longrightarrow> wd_clk w' = wd_clk w \<Longrightarrow> reach P n w w'"
  by (auto simp: reach_def)

lemma reach_trans: "reach P n w1 w2 \<Longrightarrow> reach P m w2 w3 \<Longrightarrow> n + m \<le> k \<Longrightarrow> reach P k w1 w3"
proof -
  assume "reach P n w1 w2" "reach P m w2 w3" "n + m \<le> k"
  then obtain a b where "wd_log w2 = wd_log w1 @ a" "wd_log w3 = wd_log w2 @ b" "list_all P a" "list_all P b"
    "length a \<le> n" "length b \<le> m" "now (wd_clk w1) \<le> now (wd_clk w2)" "now (wd_clk w2) \<le> now (wd_clk w3)"
    "now (wd_clk w2) \<le> now (wd_clk w1) + sum_list (map rq_limit a)" "lag (wd_clk w2) = lag (wd_clk w1)"
    "now (wd_clk w3) \<le> now (wd_clk w2) + sum_list (map rq_limit b)" "lag (wd_clk w3) = lag (wd_clk w2)"
    "polls (wd_clk w2) = polls (wd_clk w1)" "polls (wd_clk w3) = polls (wd_clk w2)"
    by (auto simp: reach_def)
  with \<open>n + m \<le> k\<close> have "wd_log w3 = wd_log w1 @ (a @ b) \<and> list_all P (a @ b) \<and> length (a @ b) \<le> k \<and>
     now (wd_clk w1) \<le> now (wd_clk w3) \<and> now (wd_clk w3) \<le> now (wd_clk w1) + sum_list (map rq_limit (a @ b)) \<and>
     lag (wd_clk w3) = lag (wd_clk w1) \<and> polls (wd_clk w3) = polls (wd_clk w1)" by simp
  then show ?thesis unfolding reach_def by blast
qed

lemma doesD: "does P n f \<Longrightarrow> f w = (w', r) \<Longrightarrow> reach P n w w'"
  unfolding does_def by (metis fst_conv)

lemma does_weaken: "does P n f \<Longrightarrow> n \<le> m \<Longrightarrow> does P m f"
  unfolding does_def reach_def by (meson le_trans)

lemma does_send: "P rq \<Longrightarrow> does P 1 (http_send rq)"
proof -
  assume "P rq"
  then have "wd_log (fst (http_send rq w)) = wd_log w @ [rq] \<and> list_all P [rq] \<and> length [rq] \<le> 1 \<and>
     now (wd_clk w) \<le> now (wd_clk (fst (http_send rq w))) \<and>
     now (wd_clk (fst (http_send rq w))) \<le> now (wd_clk w) + sum_list (map rq_limit [rq]) \<and>
     lag (wd_clk (fst (http_send rq w))) = lag (wd_clk w) \<and> polls (wd_clk (fst (http_send rq w))) = polls (wd_clk w)" for w
    by (auto simp: http_send_def Let_def split: prod.splits)
  then show ?thesis unfolding does_def reach_def by blast
qed

lemma does_json: "P rq \<Longrightarrow> does P 1 (http_json path rq)"
  using does_send [of P rq] by (auto simp: does_def http_json_def split: prod.splits http_answer.splits) (metis fst_conv)+

lemma does_get: "(\<And>b. P \<lparr>rq_method = GET, rq_url = b @ path, rq_body = None, rq_limit = REQUEST_TIMEOUT\<rparr>) \<Longrightarrow> does P 1 (get_raw path)"
  using does_json unfolding does_def get_raw_def by blast

lemma does_post: "(\<And>b. P \<lparr>rq_method = POST, rq_url = b @ path, rq_body = Some body, rq_limit = REQUEST_TIMEOUT\<rparr>) \<Longrightarrow>
    does P 1 (post_raw path body)"
  using does_json unfolding does_def post_raw_def by blast

lemma does_pure: "does P n (\<lambda>w. (w, r w))"
  by (simp add: does_def reach_refl)

lemma does_bind:
  assumes "does P n f" "\<And>a. does P m (g a)" "n + m \<le> k"
  shows "does P k (\<lambda>w. wda_bind (f w) g)"
  unfolding does_def
proof
  fix w
  obtain w1 r where f: "f w = (w1, r)" by (cases "f w")
  note 1 = doesD [OF assms(1) f]
  show "reach P k w (fst (wda_bind (f w) g))"
  proof (cases r)
    case (Inl e)
    with f 1 assms(3) show ?thesis using reach_trans [OF 1 reach_refl [of w1 w1 P m]] by (simp add: wda_bind_def)
  next
    case (Inr a)
    obtain w2 s where g: "g a w1 = (w2, s)" by (cases "g a w1")
    with f Inr reach_trans [OF 1 doesD [OF assms(2) g] assms(3)] show ?thesis by (simp add: wda_bind_def)
  qed
qed

text \<open>The requests the session handling makes on its own.\<close>

definition own_request :: "http_request \<Rightarrow> bool" where
  "own_request rq \<longleftrightarrow> rq_method rq = POST \<and> rq_limit rq = REQUEST_TIMEOUT \<and>
     (ends_with ''/session'' (rq_url rq) \<or> ends_with ''/appium/settings'' (rq_url rq))"

lemma does_create: "(\<And>rq. own_request rq \<Longrightarrow> P rq) \<Longrightarrow> does P 1 create_session"
proof -
  assume P: "\<And>rq. own_request rq \<Longrightarrow> P rq"
  have "does P 1 (wda_post ''/session'' body wrap)" for body wrap
  proof -
    have "does P 1 (post_raw ''/session'' body)" by (rule does_post, rule P) (simp add: own_request_def ends_with_iff)
    then show ?thesis by (auto simp: does_def wda_post_def split: prod.splits) (metis fst_conv)
  qed
  then show ?thesis unfolding create_session_def
    by (intro does_bind [where n = 1 and m = 0]) (auto simp: does_def reach_refl split: option.splits)
qed

lemma does_configure_once: "(\<And>rq. own_request rq \<Longrightarrow> P rq) \<Longrightarrow> does P 1 (configure_mjpeg_once s fps q)"
  unfolding configure_mjpeg_once_def
  by (intro does_bind [where n = 1 and m = 0] does_post does_pure) (auto simp: own_request_def ends_with_iff)

lemma does_recreate:
  assumes P: "\<And>rq. own_request rq \<Longrightarrow> P rq"
  shows "does P 2 recreate_session"
proof -
  have "reach P 1 w (fst (case wd_mjpeg w of None \<Rightarrow> (w, Inr ())
     | Some (fps, quality) \<Rightarrow> (case session_of w of Inl e \<Rightarrow> (w, Inl e)
            | Inr session \<Rightarrow> (case configure_mjpeg_once session fps quality w of (w, r) \<Rightarrow> (w, mapErr WdaSessionFailed r)))))" for w
    using doesD [OF does_configure_once [OF P]]
    by (auto simp: reach_refl split: option.splits sum.splits prod.splits)
  then have "does P 1 (\<lambda>w. case wd_mjpeg w of None \<Rightarrow> (w, Inr ())
     | Some (fps, quality) \<Rightarrow> (case session_of w of Inl e \<Rightarrow> (w, Inl e)
            | Inr session \<Rightarrow> (case configure_mjpeg_once session fps quality w of (w, r) \<Rightarrow> (w, mapErr WdaSessionFailed r))))"
    unfolding does_def by blast
  then show ?thesis unfolding recreate_session_def
    by (intro does_bind [where n = 1 and m = 1] does_create P) simp_all
qed

lemma does_after: "(\<And>w. reach P 0 w (g w)) \<Longrightarrow> does P n f \<Longrightarrow> does P n (\<lambda>w. f (g w))"
  unfolding does_def using reach_trans [where n = 0] by (metis add_0 order_refl)

lemma does_unless_replaced:
  assumes "\<And>rq. own_request rq \<Longrightarrow> P rq"
  shows "does P 2 (recreate_session_unless_replaced stale)"
proof -
  have "does P 2 (\<lambda>w. case session_of w of Inl e \<Rightarrow> (w, Inl e)
      | Inr s \<Rightarrow> if s \<noteq> stale then (w, Inr ()) else recreate_session w)"
    using does_recreate [OF assms] unfolding does_def by (auto simp: reach_refl split: sum.splits)
  moreover have "reach P 0 w (take_recreate_lock w)" for w
    by (auto simp: take_recreate_lock_def reach_refl split: option.splits)
  ultimately show ?thesis unfolding recreate_session_unless_replaced_def Let_def by (rule does_after [rotated])
qed

lemma does_session_call:
  assumes "\<And>rq. own_request rq \<Longrightarrow> P rq" "\<And>s. does P 1 (call s)"
  shows "does P 4 (session_call call wrap)"
  unfolding does_def
proof
  fix w
  show "reach P 4 w (fst (session_call call wrap w))"
  proof (cases "session_of w")
    case (Inl e)
    then show ?thesis by (simp add: session_call_def reach_refl)
  next
    case (Inr s)
    obtain w1 r where c: "call s w = (w1, r)" by (cases "call s w")
    note 1 = doesD [OF assms(2) c]
    have w4: "reach P 4 w w'" if "reach P 3 w1 w'" for w' using reach_trans [OF 1 that] by simp
    show ?thesis
    proof (cases "case r of Inl m \<Rightarrow> is_invalid_session m | Inr _ \<Rightarrow> False")
      case False
      with Inr c reach_trans [OF 1 reach_refl [of w1 w1 P 0], of 4] show ?thesis
        by (auto simp: session_call_def split: sum.splits)
    next
      case True
      have "does P 1 (\<lambda>w. case session_of w of Inl e \<Rightarrow> (w, Inl e)
                       | Inr session \<Rightarrow> (case call session w of (w, r) \<Rightarrow> (w, mapErr wrap r)))"
        using doesD [OF assms(2)] by (auto simp: does_def reach_refl split: sum.splits prod.splits)
      then have "does P 3 (\<lambda>w. wda_bind (recreate_session_unless_replaced s w) (\<lambda>_ w.
                       case session_of w of Inl e \<Rightarrow> (w, Inl e)
                       | Inr session \<Rightarrow> (case call session w of (w, r) \<Rightarrow> (w, mapErr wrap r))))"
        by - (rule does_bind [OF does_unless_replaced [OF assms(1)], where m = 1], simp_all)
      with Inr c True w4 show ?thesis by (auto simp: session_call_def does_def split: sum.splits)
    qed
  qed
qed

section \<open>Waking\<close>

lemma does_session_get:
  assumes "\<And>rq. own_request rq \<Longrightarrow> P rq"
    and "\<And>b s. P \<lparr>rq_method = GET, rq_url = b @ ''/session/'' @ s @ path, rq_body = None, rq_limit = REQUEST_TIMEOUT\<rparr>"
  shows "does P 4 (session_call (\<lambda>s. get_raw (''/session/'' @ s @ path)) wrap)"
  by (intro does_session_call does_get assms)

lemma does_locked:
  assumes "\<And>rq. own_request rq \<Longrightarrow> P rq"
    and "\<And>b s. P \<lparr>rq_method = GET, rq_url = b @ ''/session/'' @ s @ ''/wda/locked'', rq_body = None, rq_limit = REQUEST_TIMEOUT\<rparr>"
  shows "does P 4 locked"
  unfolding locked_def by (rule does_bind [OF does_session_get [of P, OF assms], where m = 0]) (simp_all add: does_pure)

lemma locked_mono: "locked w = (w', r) \<Longrightarrow> now (wd_clk w) \<le> now (wd_clk w')"
  using doesD [OF does_locked [of "\<lambda>_. True"]] by (auto simp: reach_def)

text \<open>Waiting for the unlock animation: one look every 100 ms until the deadline.\<close>

function wake_loop :: "nat \<Rightarrow> wda \<Rightarrow> unit wda_result" where
  "wake_loop deadline w =
     (case locked w of
        (w', Inl e) \<Rightarrow> (w', Inl e)
      | (w', Inr is_locked) \<Rightarrow>
          (if \<not> is_locked then (w', Inr ())
           else if deadline \<le> now (wd_clk w') then (w', Inl DeviceLocked)
           else wake_loop deadline (w'\<lparr>wd_clk := os_sleep 100 (wd_clk w')\<rparr>)))"
  by pat_completeness auto
termination
  by (relation "measure (\<lambda>(deadline, w). deadline - now (wd_clk w))") (auto dest!: locked_mono [OF sym])

declare wake_loop.simps [simp del]

definition wake :: "wda \<Rightarrow> unit wda_result" where
  "wake w =
     wda_bind (locked w) (\<lambda>is_locked w.
       if \<not> is_locked then (w, Inr ())
       else case session_of w of
           Inl e \<Rightarrow> (w, Inl e)
         | Inr s \<Rightarrow>
             (case http_send \<lparr>rq_method = POST, rq_url = wd_base w @ ''/session/'' @ s @ ''/wda/unlock'',
                  rq_body = Some (JObject []), rq_limit = UNLOCK_TIMEOUT\<rparr> w of
                (w, HttpOk _ _) \<Rightarrow> wake_loop (now (wd_clk w) + UNLOCK_SETTLE_BUDGET) w
              | (w, _) \<Rightarrow>
                  wda_bind (locked w) (\<lambda>is_locked w. (w, if is_locked then Inl DeviceLocked else Inr ()))))"

section \<open>Screenshots and text\<close>

definition screenshot_png :: "wda \<Rightarrow> string wda_result" where
  "screenshot_png w =
     wda_bind (wda_get ''/screenshot'' ScreenshotFailed w) (\<lambda>value w.
       (w, andThen (okOr (ScreenshotFailed ''screenshot response has no value'')
                      (Option.bind (json_get ''value'' value) json_str)) (\<lambda>encoded.
             okOr (ScreenshotFailed ''screenshot was not valid base64'') (decode_base64 encoded))))"

definition element_id :: "json \<Rightarrow> string option" where
  "element_id value =
     findMap (\<lambda>key. Option.bind (json_get key (unwrap_value value)) json_str)
       [''ELEMENT'', ''element-6066-11e4-a52e-4f735466cecf'']"

definition active_error :: "string \<Rightarrow> IosError" where
  "active_error message = (if str_contains ''nosuchelement'' message then NoActiveElement else WdaSessionFailed message)"

definition read_back_text :: "json \<Rightarrow> string" where
  "read_back_text value = (case Option.bind (json_get ''value'' value) json_str of Some s \<Rightarrow> s | None \<Rightarrow> [])"

text \<open>Writing into an element and reading it back, in the session the element belongs to.\<close>

definition write_and_verify :: "string \<Rightarrow> string \<Rightarrow> string \<Rightarrow> wda \<Rightarrow> unit wda_result" where
  "write_and_verify text_sent session element w =
     wda_bind (wda_post (''/session/'' @ session @ ''/element/'' @ element @ ''/value'')
         (JObject [(''value'', JArray [JString text_sent])]) WdaSessionFailed w) (\<lambda>_ w.
     wda_bind (wda_get (''/session/'' @ session @ ''/element/'' @ element @ ''/attribute/value'') WdaSessionFailed w) (\<lambda>read_back w.
       (w, if str_contains text_sent (read_back_text read_back) then Inr () else Inl TextUnconfirmed)))"

definition send_text :: "string \<Rightarrow> wda \<Rightarrow> unit wda_result" where
  "send_text text_sent w =
     (if text_sent = [] then (w, Inl (WdaSessionFailed ''empty text''))
      else unless_locked (\<lambda>w.
        wda_bind (session_call (\<lambda>s. get_raw (''/session/'' @ s @ ''/element/active'')) active_error w) (\<lambda>active w.
          case element_id active of
            None \<Rightarrow> (w, Inl NoActiveElement)
          | Some element \<Rightarrow>
              (case session_of w of
                 Inl e \<Rightarrow> (w, Inl e)
               | Inr session \<Rightarrow> write_and_verify text_sent session element w))) w)"

definition delete_session :: "wda \<Rightarrow> unit wda_result" where
  "delete_session w =
     (case session_of w of
        Inl e \<Rightarrow> (w, Inl e)
      | Inr session \<Rightarrow>
          (fst (http_send \<lparr>rq_method = DELETE, rq_url = wd_base w @ ''/session/'' @ session, rq_body = None,
              rq_limit = DELETE_SESSION_TIMEOUT\<rparr> w), Inr ()))"

text \<open>A device for the concrete instances, which answers by the end of the address.\<close>

definition demo_body :: "string \<Rightarrow> string" where
  "demo_body url =
     (if ends_with ''/wda/locked'' url then ''L'' else if ends_with ''/element/active'' url then ''E''
      else if ends_with ''/attribute/value'' url then ''T'' else [])"

definition demo_wda :: "bool \<Rightarrow> wda" where
  "demo_wda is_locked =
     \<lparr>wd_base = ''http://127.0.0.1:1'', wd_session = Some ''S'', wd_mjpeg = None, wd_clk = clock0, wd_log = [],
      wd_answer = (\<lambda>log. (5, HttpOk (demo_body (rq_url (last log))) None)), wd_timed_out = ''timeout'',
      wd_parse = (\<lambda>s. Inr (JObject [(''value'', if s = ''L'' then JBool is_locked
         else if s = ''T'' then JString ''well, hi there'' else JObject [(''ELEMENT'', JString ''e1'')])])),
      wd_others = (\<lambda>_. None)\<rparr>"

lemma demo_get [simp]:
  "get_raw path w = (w\<lparr>wd_log := wd_log w @ [\<lparr>rq_method = GET, rq_url = wd_base w @ path, rq_body = None, rq_limit = REQUEST_TIMEOUT\<rparr>],
      wd_clk := (wd_clk w)\<lparr>now := now (wd_clk w) + 5\<rparr>\<rparr>,
    let b = demo_body (wd_base w @ path) in if b = [] then Inr JNull else mapErr (\<lambda>e. ''WDA '' @ path @ '' returned unparsable JSON: '' @ e) (wd_parse w b))"
  if "wd_answer w = (\<lambda>log. (5, HttpOk (demo_body (rq_url (last log))) None))"
  using that by (auto simp: get_raw_def http_json_def http_send_def REQUEST_TIMEOUT_def read_json_raw_def Let_def BODY_LIMIT_def demo_body_def)

section \<open>What a success rests on\<close>

text \<open>The last request was answered with this value.\<close>

definition answered :: "wda \<Rightarrow> json \<Rightarrow> bool" where
  "answered w v \<longleftrightarrow> (\<exists>d body. wd_log w \<noteq> [] \<and> wd_answer w (wd_log w) = (d, HttpOk body None) \<and>
     (body = [] \<and> v = JNull \<or> wd_parse w body = Inr v))"

lemma get_raw_answered:
  "get_raw path w = (w', Inr v) \<Longrightarrow> answered w' v \<and> rq_url (last (wd_log w')) = wd_base w' @ path \<and> rq_method (last (wd_log w')) = GET"
  by (auto simp: get_raw_def http_json_def http_send_def read_json_raw_def answered_def Let_def
      split: prod.splits http_answer.splits if_splits option.splits)

lemma session_call_last:
  assumes "\<And>s w w' v. call s w = (w', Inr v) \<Longrightarrow> Q w' v" "session_call call wrap w = (w', Inr v)"
  shows "Q w' v"
  using assms(2) by (auto simp: session_call_def wda_bind_def dest!: assms(1) split: sum.splits prod.splits if_splits)

lemma locked_answered:
  assumes "locked w = (w', Inr b)"
  shows "\<exists>v s. answered w' v \<and> json_get ''value'' v = Some (JBool b) \<and>
    rq_url (last (wd_log w')) = wd_base w' @ ''/session/'' @ s @ ''/wda/locked''"
proof -
  from assms obtain v where c: "session_call (\<lambda>s. get_raw (''/session/'' @ s @ ''/wda/locked'')) WdaSessionFailed w = (w', Inr v)"
    and b: "Option.bind (json_get ''value'' v) json_bool = Some b"
    by (auto simp: locked_def wda_bind_def split: prod.splits sum.splits)
  have "answered w' v \<and> (\<exists>s. rq_url (last (wd_log w')) = wd_base w' @ ''/session/'' @ s @ ''/wda/locked'')"
    by (rule session_call_last [OF _ c]) (use get_raw_answered in blast)
  moreover have "json_get ''value'' v = Some (JBool b)" using b
    by (cases "json_get ''value'' v") (auto elim: json_bool.elims)
  ultimately show ?thesis by blast
qed

lemma wake_loop_success:
  "wake_loop deadline w = (w', Inr ()) \<Longrightarrow> \<exists>w1. locked w1 = (w', Inr False)"
proof (induction deadline w rule: wake_loop.induct)
  case (1 deadline w)
  obtain w1 r where l: "locked w = (w1, r)" by (cases "locked w")
  note unf = wake_loop.simps [of deadline w]
  show ?case
  proof (cases r)
    case (Inl e)
    with 1(2) l show ?thesis by (simp add: unf)
  next
    case (Inr b)
    show ?thesis
    proof (cases "b \<and> \<not> deadline \<le> now (wd_clk w1)")
      case True
      with 1(2) l Inr have "wake_loop deadline (w1\<lparr>wd_clk := os_sleep 100 (wd_clk w1)\<rparr>) = (w', Inr ())"
        by (simp add: unf)
      from 1(1) [OF l [symmetric] Inr _ _ this] True show ?thesis by simp
    next
      case False
      with 1(2) l Inr show ?thesis by (auto simp: unf split: if_splits)
    qed
  qed
qed

lemma write_and_verify_success:
  assumes "write_and_verify t s i w = (w', Inr ())"
  shows "\<exists>v. answered w' v \<and> str_contains t (read_back_text v) \<and>
    rq_url (last (wd_log w')) = wd_base w' @ ''/session/'' @ s @ ''/element/'' @ i @ ''/attribute/value''"
  using assms by (auto simp: write_and_verify_def wda_bind_def wda_get_def dest!: get_raw_answered split: prod.splits sum.splits if_splits)


lemma reach_time:
  assumes "reach (\<lambda>rq. rq_limit rq \<le> m) n w w'"
  shows "now (wd_clk w') \<le> now (wd_clk w) + n * m \<and> lag (wd_clk w') = lag (wd_clk w)"
proof -
  from assms obtain rqs :: "http_request list" where r: "list_all (\<lambda>rq. rq_limit rq \<le> m) rqs" "length rqs \<le> n"
    "now (wd_clk w') \<le> now (wd_clk w) + sum_list (map rq_limit rqs)" "lag (wd_clk w') = lag (wd_clk w)"
    unfolding reach_def by blast
  have "sum_list (map rq_limit rqs) \<le> length rqs * m" using r(1) by (induction rqs) auto
  also have "\<dots> \<le> n * m" using r(2) by simp
  finally show ?thesis using r(3,4) by simp
qed

lemma demo_locked [simp]: "locked (demo_wda b) =
  ((demo_wda b)\<lparr>wd_log := [\<lparr>rq_method = GET, rq_url = ''http://127.0.0.1:1/session/S/wda/locked'', rq_body = None, rq_limit = REQUEST_TIMEOUT\<rparr>],
     wd_clk := clock0\<lparr>now := 5\<rparr>\<rparr>, Inr b)"
  by (simp add: locked_def session_call_def session_of_def wda_bind_def demo_wda_def demo_body_def ends_with_iff clock0_def)


lemma wake_loop_bounded:
  "\<forall>t. lag (wd_clk w) t \<le> J \<Longrightarrow> wake_loop deadline w = (w', r) \<Longrightarrow>
   now (wd_clk w') \<le> max (now (wd_clk w)) (deadline + 100 + J) + 4 * REQUEST_TIMEOUT"
proof (induction deadline w rule: wake_loop.induct)
  case (1 deadline w)
  obtain w1 x where l: "locked w = (w1, x)" by (cases "locked w")
  note unf = wake_loop.simps [of deadline w]
  have "reach (\<lambda>rq. rq_limit rq \<le> REQUEST_TIMEOUT) 4 w w1"
    by (rule doesD [OF does_locked l]) (simp_all add: own_request_def)
  note r = reach_time [OF this]
  have t: "now (wd_clk w1) \<le> now (wd_clk w) + 4 * REQUEST_TIMEOUT" by (rule conjunct1 [OF r])
  show ?case
  proof (cases x)
    case (Inl e)
    with "1.prems"(2) l t show ?thesis by (simp add: unf)
  next
    case (Inr b)
    show ?thesis
    proof (cases "b \<and> \<not> deadline \<le> now (wd_clk w1)")
      case True
      let ?w = "w1\<lparr>wd_clk := os_sleep 100 (wd_clk w1)\<rparr>"
      from "1.prems"(2) l Inr True have s: "wake_loop deadline ?w = (w', r)" by (simp add: unf)
      have "\<forall>t. lag (wd_clk ?w) t \<le> J" using "1.prems"(1) r by simp
      from "1.IH" [OF l [symmetric] Inr _ _ this s] True
      have i: "now (wd_clk w') \<le> max (now (wd_clk ?w)) (deadline + 100 + J) + 4 * REQUEST_TIMEOUT" by simp
      have "now (wd_clk ?w) \<le> deadline + 100 + J" using True "1.prems"(1) r by (simp add: add_mono)
      with i show ?thesis by simp
    next
      case False
      with "1.prems"(2) l Inr t show ?thesis by (auto simp: unf split: if_splits)
    qed
  qed
qed

lemma locked_time: "locked w = (w', r) \<Longrightarrow>
    now (wd_clk w') \<le> now (wd_clk w) + 4 * REQUEST_TIMEOUT \<and> lag (wd_clk w') = lag (wd_clk w)"
  by (rule reach_time, rule doesD [OF does_locked]) (simp_all add: own_request_def)

lemma http_send_time: "http_send rq w = (w', a) \<Longrightarrow>
    now (wd_clk w') \<le> now (wd_clk w) + rq_limit rq \<and> lag (wd_clk w') = lag (wd_clk w)"
  by (auto simp: http_send_def Let_def split: prod.splits if_splits)

text \<open>
  C27. Waking the device is bounded, whatever the device answers: it returns after at most two
  checks of the lock with their repairs, the unlock request, and the time granted to the unlock
  animation (plus one poll and its lateness \<open>J\<close>). It reports success only when the last thing
  it heard was that the device is not locked.
\<close>

theorem wake_bounded_and_verified:
  assumes "wake w = (w', r)" and "\<forall>t. lag (wd_clk w) t \<le> J"
  shows "now (wd_clk w') \<le> now (wd_clk w) + 8 * REQUEST_TIMEOUT + UNLOCK_TIMEOUT + UNLOCK_SETTLE_BUDGET + 100 + J \<and>
    (isOk r \<longrightarrow> (\<exists>v s. answered w' v \<and> json_get ''value'' v = Some (JBool False) \<and>
        rq_url (last (wd_log w')) = wd_base w' @ ''/session/'' @ s @ ''/wda/locked''))"
proof -
  obtain w1 x where l: "locked w = (w1, x)" by (cases "locked w")
  note lt = locked_time [OF l]
  show ?thesis
  proof (cases "x = Inr True \<and> isOk (session_of w1)")
    case False
    with assms(1) l have "w' = w1 \<and> (isOk r \<longrightarrow> x = Inr False)"
      by (cases x; cases "session_of w1") (auto simp: wake_def wda_bind_def split: if_splits)
    with lt l locked_answered [of w w1 False] show ?thesis by auto
  next
    case True
    then obtain s where s: "x = Inr True" "session_of w1 = Inr s" by (cases "session_of w1") auto
    let ?rq = "\<lparr>rq_method = POST, rq_url = wd_base w1 @ ''/session/'' @ s @ ''/wda/unlock'',
        rq_body = Some (JObject []), rq_limit = UNLOCK_TIMEOUT\<rparr>"
    obtain w2 a where a: "http_send ?rq w1 = (w2, a)" by (cases "http_send ?rq w1")
    have t2: "now (wd_clk w2) \<le> now (wd_clk w1) + UNLOCK_TIMEOUT" "lag (wd_clk w2) = lag (wd_clk w1)"
      using http_send_time [OF a] by simp_all
    show ?thesis
    proof (cases "\<exists>body e. a = HttpOk body e")
      case True
      with assms(1) l s a have k: "wake_loop (now (wd_clk w2) + UNLOCK_SETTLE_BUDGET) w2 = (w', r)"
        by (auto simp: wake_def wda_bind_def)
      have "\<forall>t. lag (wd_clk w2) t \<le> J" using assms(2) lt t2 by simp
      from wake_loop_bounded [OF this k] lt t2
      have "now (wd_clk w') \<le> now (wd_clk w) + 8 * REQUEST_TIMEOUT + UNLOCK_TIMEOUT + UNLOCK_SETTLE_BUDGET + 100 + J"
        by simp
      moreover have "\<exists>w1. locked w1 = (w', Inr False)" if "isOk r"
        using wake_loop_success [of _ w2 w'] k that by (cases r) auto
      ultimately show ?thesis using locked_answered by blast
    next
      case False
      obtain w3 y where l3: "locked w2 = (w3, y)" by (cases "locked w2")
      from assms(1) l s a False l3 have r: "w' = w3" "r = (case y of Inl e \<Rightarrow> Inl e | Inr b \<Rightarrow> if b then Inl DeviceLocked else Inr ())"
        by (auto simp: wake_def wda_bind_def split: http_answer.splits sum.splits)
      then have "isOk r \<Longrightarrow> y = Inr False" by (auto split: sum.splits if_splits)
      with r(1) l3 locked_answered locked_time [OF l3] lt t2 show ?thesis by auto
    qed
  qed
qed

section \<open>A locked device is left alone\<close>

lemma recreate_error: "recreate_session w = (w', Inl e) \<Longrightarrow> e \<noteq> DeviceLocked"
  by (auto simp: recreate_session_def create_session_def wda_post_def wda_bind_def session_of_def mapErr_Inl_iff
      split: prod.splits sum.splits option.splits)

lemma session_of_error: "session_of w = Inl e \<Longrightarrow> e \<noteq> DeviceLocked"
  by (auto simp: session_of_def split: option.splits elim: okOr.elims)

lemma session_call_error:
  assumes "\<And>m. wrap m \<noteq> DeviceLocked" "session_call call wrap w = (w', Inl e)"
  shows "e \<noteq> DeviceLocked"
proof -
  have u: "e \<noteq> DeviceLocked" if "recreate_session_unless_replaced s w = (w', Inl e)" for s w w' e
    using that by (auto simp: recreate_session_unless_replaced_def Let_def dest: recreate_error session_of_error
        split: sum.splits if_splits)
  show ?thesis
    using assms by (auto simp: session_call_def wda_bind_def mapErr_Inl_iff dest: u session_of_error
        split: prod.splits sum.splits if_splits)
qed

lemma locked_error: "locked w = (w', Inl e) \<Longrightarrow> e \<noteq> DeviceLocked"
  by (auto simp: locked_def wda_bind_def dest: session_call_error [rotated] elim: okOr.elims split: prod.splits sum.splits)

lemma bind_never:
  "snd x \<noteq> Inl e \<Longrightarrow> (\<And>a w. snd (g a w) \<noteq> Inl e) \<Longrightarrow> snd (wda_bind x g) \<noteq> Inl e"
  by (auto simp: wda_bind_def split: prod.splits sum.splits)

lemma session_call_never: "(\<And>m. wrap m \<noteq> DeviceLocked) \<Longrightarrow> snd (session_call call wrap w) \<noteq> Inl DeviceLocked"
  using session_call_error [of wrap call w] by (cases "session_call call wrap w") auto

lemma session_post_error: "(\<And>m. wrap m \<noteq> DeviceLocked) \<Longrightarrow> snd (session_post path body wrap w) \<noteq> Inl DeviceLocked"
  unfolding session_post_def by (intro bind_never session_call_never) simp_all

lemma write_and_verify_error: "snd (write_and_verify t s i w) \<noteq> Inl DeviceLocked"
  unfolding write_and_verify_def
  by (intro bind_never) (auto simp: wda_post_def wda_get_def mapErr_Inl_iff split: prod.splits)

lemma unless_locked_blocks:
  assumes "\<And>w. snd (act w) \<noteq> Inl DeviceLocked" "unless_locked act w = (w', Inl DeviceLocked)"
  shows "locked w = (w', Inr True)"
  using assms(2) locked_error [of w w'] assms(1)
  by (auto simp: unless_locked_def wda_bind_def split: prod.splits sum.splits if_splits) (metis snd_conv)

datatype action = Tap f64 f64 | Swipe "f64 \<times> f64" "f64 \<times> f64" f64 | Activate string | SendText string

definition perform :: "action \<Rightarrow> wda \<Rightarrow> unit wda_result" where
  "perform a = (case a of Tap x y \<Rightarrow> tap x y | Swipe p q d \<Rightarrow> swipe p q d | Activate b \<Rightarrow> activate_app b | SendText t \<Rightarrow> send_text t)"

lemma send_text_tail_error:
  "snd (wda_bind (session_call (\<lambda>s. get_raw (''/session/'' @ s @ ''/element/active'')) active_error w) (\<lambda>active w.
          case element_id active of None \<Rightarrow> (w, Inl NoActiveElement)
          | Some element \<Rightarrow> (case session_of w of Inl e \<Rightarrow> (w, Inl e)
               | Inr session \<Rightarrow> write_and_verify t session element w))) \<noteq> Inl DeviceLocked"
proof (intro bind_never session_call_never)
  show "active_error m \<noteq> DeviceLocked" for m by (simp add: active_error_def)
  show "snd (case element_id active of None \<Rightarrow> (w, Inl NoActiveElement)
          | Some element \<Rightarrow> (case session_of w of Inl e \<Rightarrow> (w, Inl e)
               | Inr session \<Rightarrow> write_and_verify t session element w)) \<noteq> Inl DeviceLocked" for active w
    using write_and_verify_error session_of_error by (auto split: option.splits sum.splits)
qed


section \<open>Clones\<close>

text \<open>
  Clones of the client do not fight over the session: when the session of a call was
  declared invalid and another clone has replaced it by the time this one holds the lock, this
  one opens no further session (which would invalidate the other's): it only repeats its own
  call, once, in the new session.
\<close>

theorem replaced_session_is_shared:
  assumes "\<And>s. does P 1 (call s)" and "wd_session w = Some stale" and "call stale w = (w1, Inl m)" and "is_invalid_session m"
    and "wd_others w1 (wd_log w1) = Some fresh" and "fresh \<noteq> stale"
  shows "session_call call wrap w = (case call fresh (w1\<lparr>wd_session := Some fresh\<rparr>) of (w2, r) \<Rightarrow> (w2, mapErr wrap r)) \<and>
    reach P 2 w (fst (session_call call wrap w))"
proof -
  let ?w = "w1\<lparr>wd_session := Some fresh\<rparr>"
  obtain w2 r where c: "call fresh ?w = (w2, r)" by (cases "call fresh ?w")
  have s: "session_call call wrap w = (w2, mapErr wrap r)"
    using assms(2-6) c
    by (simp add: session_call_def session_of_def recreate_session_unless_replaced_def take_recreate_lock_def wda_bind_def)
  have "reach P 1 w w1" by (rule doesD [OF assms(1,3)])
  moreover have "reach P 0 w1 ?w" by (rule reach_refl) simp_all
  moreover have "reach P 1 ?w w2" by (rule doesD [OF assms(1) c])
  ultimately have "reach P 2 w w2" using reach_trans [of P 1 w w1 0 ?w 1] reach_trans [of P 1 w ?w 1 w2 2] by simp
  with s c show ?thesis by simp
qed



theorem wake_bounded_and_verified_witness:
  "case wake (demo_wda False) of (w', r) \<Rightarrow>
     now (wd_clk w') \<le> 8 * REQUEST_TIMEOUT + UNLOCK_TIMEOUT + UNLOCK_SETTLE_BUDGET + 100 \<and>
     (\<exists>v s. answered w' v \<and> json_get ''value'' v = Some (JBool False) \<and>
        rq_url (last (wd_log w')) = wd_base w' @ ''/session/'' @ s @ ''/wda/locked'')"
proof -
  have "\<exists>w'. wake (demo_wda False) = (w', Inr ())" by (simp add: wake_def wda_bind_def)
  then obtain w' where w: "wake (demo_wda False) = (w', Inr ())" by blast
  have "\<forall>t. lag (wd_clk (demo_wda False)) t \<le> 0" "now (wd_clk (demo_wda False)) = 0"
    by (simp_all add: demo_wda_def clock0_def)
  with wake_bounded_and_verified [OF w, of 0] w show ?thesis by simp
qed

text \<open>A call in an invalid session that another clone has replaced.\<close>

theorem replaced_session_is_shared_witness:
  "\<exists>(call :: string \<Rightarrow> wda \<Rightarrow> unit wda_raw) w. wd_session w = Some ''old'' \<and> snd (session_call call WdaSessionFailed w) = Inr () \<and>
     reach (\<lambda>rq. rq_method rq = GET) 2 w (fst (session_call call WdaSessionFailed w))"
proof -
  let ?w = "(demo_wda True)\<lparr>wd_session := Some ''old'', wd_others := \<lambda>_. Some ''new''\<rparr>"
  let ?m = "''WDA / returned 404: invalid session id''"
  let ?call = "\<lambda>s w. (fst (get_raw (''/session/'' @ s) w), if s = ''old'' then Inl ?m else Inr ())"
  have "does (\<lambda>rq. rq_method rq = GET) 1 (get_raw path)" for path by (rule does_get) simp
  then have d: "\<And>s. does (\<lambda>rq. rq_method rq = GET) 1 (?call s)" by (simp add: does_def)
  obtain w1 where c: "?call ''old'' ?w = (w1, Inl ?m)" and o: "wd_others w1 = (\<lambda>_. Some ''new'')"
    by (simp add: demo_wda_def)
  have i: "is_invalid_session ?m" by code_simp
  have se: "wd_session ?w = Some ''old''" by simp
  have ne: "''new'' \<noteq> ''old''" by simp
  have o1: "wd_others w1 (wd_log w1) = Some ''new''" by (simp add: o)
  have r: "session_call ?call WdaSessionFailed ?w = (case ?call ''new'' (w1\<lparr>wd_session := Some ''new''\<rparr>) of (w2, r) \<Rightarrow> (w2, mapErr WdaSessionFailed r)) \<and>
    reach (\<lambda>rq. rq_method rq = GET) 2 ?w (fst (session_call ?call WdaSessionFailed ?w))"
    by (rule replaced_session_is_shared [where P = "\<lambda>rq. rq_method rq = GET" and call = ?call, OF d se c i o1 ne])
  from conjunct1 [OF r] have "snd (session_call ?call WdaSessionFailed ?w) = Inr ()" by simp
  with se conjunct2 [OF r] show ?thesis by (intro exI [of _ ?call] exI [of _ ?w] conjI)
qed

end
