(* ===== verification/MjpegProxy.thy ===== *)
theory MjpegProxy
  imports IosLib "HOL-Library.Sublist"
begin

text \<open>
  The crate \<open>quadcontrol-ios\<close>, \<open>mjpeg.rs\<close>: the proxy between the picture stream of the device
  and any number of viewers. First the parser of the upstream, on the bytes the connection will
  deliver (then it ends, or breaks with an error); then the slot with the newest frame, the
  threads that publish into it and read from it, and all their interleavings.
\<close>

section \<open>Lines\<close>

definition MAX_FRAME_BYTES :: nat where "MAX_FRAME_BYTES = 4 * 1024 * 1024"
definition DOWNSTREAM_BOUNDARY :: string where "DOWNSTREAM_BOUNDARY = ''quadcontrolframe''"
definition JOIN_BUDGET :: nat where "JOIN_BUDGET = 2000"
definition ACCEPT_POLL :: nat where "ACCEPT_POLL = 20"
definition UPSTREAM_CONNECT_BUDGET :: nat where "UPSTREAM_CONNECT_BUDGET = 10000"

abbreviation LF :: char where "LF \<equiv> CHR 0x0A"
abbreviation CRLF :: string where "CRLF \<equiv> [CHR 0x0D, CHR 0x0A]"

definition UPSTREAM_REQUEST :: string where
  "UPSTREAM_REQUEST = ''GET / HTTP/1.1'' @ CRLF @ ''Host: 127.0.0.1'' @ CRLF @ CRLF"

function is_utf8 :: "string \<Rightarrow> bool" where
  "is_utf8 [] = True"
| "is_utf8 (b # bs) = (let (k, ok) = utf8_next (b # bs) in ok \<and> is_utf8 (drop k (b # bs)))"
  by pat_completeness auto
termination
proof (relation "measure length", goal_cases)
  case (2 b bs x k ok)
  then have "k > 0" using utf8_next_pos [of b bs] by (metis fst_conv)
  then show ?case by simp
qed simp

declare is_utf8.simps(2) [simp del]

text \<open>
  \<open>BufRead::read\_line\<close>: up to and including the next line feed, or to the end. What was read
  must be UTF-8. \<open>None\<close> is the end of the stream, \<open>broken\<close> the error it ends with.
\<close>

definition take_line :: "string \<Rightarrow> string \<times> string" where
  "take_line bytes =
     (case dropWhile (\<lambda>b. b \<noteq> LF) bytes of
        [] \<Rightarrow> (bytes, [])
      | lf # rest \<Rightarrow> (takeWhile (\<lambda>b. b \<noteq> LF) bytes @ [lf], rest))"

definition read_failed :: "string \<Rightarrow> string" where
  "read_failed e = ''MJPEG upstream read failed: '' @ e"

definition read_line_opt :: "io_error option \<Rightarrow> string \<Rightarrow> string + (string \<times> string) option" where
  "read_line_opt broken bytes =
     (if LF \<notin> set bytes \<and> broken \<noteq> None then Inl (read_failed (io_text (the broken)))
      else if bytes = [] then Inr None
      else let (line, rest) = take_line bytes in
        if is_utf8 line then Inr (Some (line, rest))
        else Inl (read_failed ''stream did not contain valid UTF-8''))"

definition read_header_line :: "io_error option \<Rightarrow> string \<Rightarrow> string + string \<times> string" where
  "read_header_line broken bytes =
     andThen (read_line_opt broken bytes) (okOr ''MJPEG upstream closed while reading headers'')"

lemma take_line_shorter: "bytes \<noteq> [] \<Longrightarrow> take_line bytes = (line, rest) \<Longrightarrow> length rest < length bytes"
proof -
  assume "bytes \<noteq> []" "take_line bytes = (line, rest)"
  moreover have "length (dropWhile (\<lambda>b. b \<noteq> LF) bytes) \<le> length bytes" by (rule length_dropWhile_le)
  ultimately show ?thesis by (auto simp: take_line_def split: list.splits)
qed

lemma read_line_shorter: "read_line_opt broken bytes = Inr (Some (line, rest)) \<Longrightarrow> length rest < length bytes"
  by (auto simp: read_line_opt_def split: if_splits prod.splits dest: take_line_shorter)

lemma read_header_shorter: "read_header_line broken bytes = Inr (line, rest) \<Longrightarrow> length rest < length bytes"
  by (auto simp: read_header_line_def andThen_Inr_iff dest: read_line_shorter)

section \<open>The boundary\<close>

text \<open>\<open>trim\_start\_matches("--")\<close> and \<open>trim\_end\_matches("--")\<close>.\<close>

fun trim_start_dashes :: "string \<Rightarrow> string" where
  "trim_start_dashes (a # b # s) = (if a = CHR ''-'' \<and> b = CHR ''-'' then trim_start_dashes s else a # b # s)"
| "trim_start_dashes s = s"

definition trim_end_dashes :: "string \<Rightarrow> string" where
  "trim_end_dashes s = rev (trim_start_dashes (rev s))"

function header_loop :: "io_error option \<Rightarrow> string \<Rightarrow> string option \<Rightarrow> string + string option \<times> string" where
  "header_loop broken bytes content_type =
     (case read_header_line broken bytes of
        Inl e \<Rightarrow> Inl e
      | Inr (line, rest) \<Rightarrow>
          (if str_trim line = [] then Inr (content_type, rest)
           else header_loop broken rest
             (case split_once CHR '':'' line of
                Some (name, value) \<Rightarrow>
                  if eq_ignore_ascii_case (str_trim name) ''content-type'' then Some (str_trim value) else content_type
              | None \<Rightarrow> content_type)))"
  by pat_completeness auto
termination
  by (relation "measure (\<lambda>(broken, bytes, ct). length bytes)") (auto dest: read_header_shorter)

declare header_loop.simps [simp del]

definition boundary_of :: "string \<Rightarrow> string option" where
  "boundary_of content_type =
     map_option trim_start_dashes
       (findMap (\<lambda>part. map_option (\<lambda>b. trim_matches QUOTE b) (strip_prefix ''boundary='' (str_trim part)))
         (str_split CHR '';'' content_type))"

definition read_upstream_boundary :: "io_error option \<Rightarrow> string \<Rightarrow> string + string \<times> string" where
  "read_upstream_boundary broken bytes =
     andThen (header_loop broken bytes None) (\<lambda>(content_type, rest).
     andThen (okOr ''MJPEG upstream sent no Content-Type'' content_type) (\<lambda>content_type.
     andThen (okOr (''MJPEG upstream Content-Type has no boundary: '' @ content_type) (boundary_of content_type)) (\<lambda>boundary.
     Inr (boundary, rest))))"

section \<open>Frames\<close>

definition is_boundary_line :: "string \<Rightarrow> string \<Rightarrow> bool" where
  "is_boundary_line boundary line \<longleftrightarrow>
     ends_with boundary (trim_end_dashes (str_trim_end line)) \<and> str_contains ''--'' line"

text \<open>The two loops over lines; \<open>None\<close> is the end of the stream.\<close>

function find_boundary :: "io_error option \<Rightarrow> string \<Rightarrow> string \<Rightarrow> string + string option" where
  "find_boundary broken boundary bytes =
     (case read_line_opt broken bytes of
        Inl e \<Rightarrow> Inl e
      | Inr None \<Rightarrow> Inr None
      | Inr (Some (line, rest)) \<Rightarrow>
          (if is_boundary_line boundary line then Inr (Some rest) else find_boundary broken boundary rest))"
  by pat_completeness auto
termination
  by (relation "measure (\<lambda>(broken, boundary, bytes). length bytes)") (auto dest: read_line_shorter)

function part_headers :: "io_error option \<Rightarrow> string \<Rightarrow> nat option \<Rightarrow> string + (nat option \<times> string) option" where
  "part_headers broken bytes len =
     (case read_line_opt broken bytes of
        Inl e \<Rightarrow> Inl e
      | Inr None \<Rightarrow> Inr None
      | Inr (Some (line, rest)) \<Rightarrow>
          (if str_trim line = [] then Inr (Some (len, rest))
           else part_headers broken rest
             (case split_once CHR '':'' line of
                Some (name, value) \<Rightarrow>
                  if eq_ignore_ascii_case (str_trim name) ''content-length'' then parse_uint u64_max (str_trim value) else len
              | None \<Rightarrow> len)))"
  by pat_completeness auto
termination
  by (relation "measure (\<lambda>(broken, bytes, len). length bytes)") (auto dest: read_line_shorter)

declare find_boundary.simps [simp del] part_headers.simps [simp del]

definition drop_newlines :: "string \<Rightarrow> string" where
  "drop_newlines frame = rev (dropWhile (\<lambda>b. b = CHR 0x0D \<or> b = LF) (rev frame))"

text \<open>Without a length: byte by byte until the boundary, which is consumed with its dashes.\<close>

fun scan_to_boundary :: "io_error option \<Rightarrow> string \<Rightarrow> string \<Rightarrow> string \<Rightarrow> string + (string \<times> string) option" where
  "scan_to_boundary broken boundary frame [] =
     (case broken of
        Some e \<Rightarrow> Inl (read_failed (io_text e))
      | None \<Rightarrow> if frame = [] then Inr None else Inr (Some (frame, [])))"
| "scan_to_boundary broken boundary frame (b # bytes) =
     (let frame = frame @ [b]; needle = ''--'' @ boundary in
      if MAX_FRAME_BYTES < length frame
      then Inl (''MJPEG frame exceeded the '' @ show_nat MAX_FRAME_BYTES @ '' byte limit with no boundary in sight'')
      else if ends_with needle frame
      then Inr (Some (drop_newlines (take (length frame - length needle) frame), bytes))
      else scan_to_boundary broken boundary frame bytes)"

definition read_body :: "io_error option \<Rightarrow> string \<Rightarrow> nat option \<Rightarrow> string \<Rightarrow> string + (string \<times> string) option" where
  "read_body broken boundary len bytes =
     (case len of
        Some n \<Rightarrow>
          (if MAX_FRAME_BYTES < n
           then Inl (''MJPEG frame of '' @ show_nat n @ '' bytes exceeds the '' @ show_nat MAX_FRAME_BYTES @ '' byte limit'')
           else if n \<le> length bytes then Inr (Some (take n bytes, drop n bytes))
           else case broken of
               Some e \<Rightarrow> if io_kind e = KUnexpectedEof then Inr None else Inl (read_failed (io_text e))
             | None \<Rightarrow> Inr None)
      | None \<Rightarrow> scan_to_boundary broken boundary [] bytes)"

definition read_frame :: "io_error option \<Rightarrow> string \<Rightarrow> string \<Rightarrow> string + (string \<times> string) option" where
  "read_frame broken boundary bytes =
     (case find_boundary broken boundary bytes of
        Inl e \<Rightarrow> Inl e
      | Inr None \<Rightarrow> Inr None
      | Inr (Some rest) \<Rightarrow>
          (case part_headers broken rest None of
             Inl e \<Rightarrow> Inl e
           | Inr None \<Rightarrow> Inr None
           | Inr (Some (len, rest)) \<Rightarrow> read_body broken boundary len rest))"

section \<open>The thread that reads the device\<close>

text \<open>
  \<open>pump\_upstream\<close>: the connection, as far as the thread sees it (how cloning the socket and
  writing the request end, and what the device then sends), and the stop flag at its \<open>n\<close>-th
  look. The result is what was written, the frames published in order and the \<open>failure\<close>.
\<close>

record upstream =
  up_clone :: "io_error option"
  up_write :: "io_error option"
  up_bytes :: string
  up_broken :: "io_error option"

definition request_stream :: "upstream \<Rightarrow> string \<times> (string + unit)" where
  "request_stream u =
     (case up_clone u of
        Some e \<Rightarrow> ([], Inl (''MJPEG upstream socket could not be cloned: '' @ io_text e))
      | None \<Rightarrow>
          (case up_write u of
             Some e \<Rightarrow> ([], Inl (''MJPEG upstream did not accept the stream request: '' @ io_text e))
           | None \<Rightarrow> (UPSTREAM_REQUEST, Inr ())))"

lemma find_boundary_le: "find_boundary broken b bytes = Inr (Some rest) \<Longrightarrow> length rest \<le> length bytes"
proof (induction broken b bytes rule: find_boundary.induct)
  case (1 broken b bytes)
  from "1.prems" obtain line more where r: "read_line_opt broken bytes = Inr (Some (line, more))"
    by (subst (asm) find_boundary.simps) (auto split: sum.splits option.splits)
  note l = read_line_shorter [OF r]
  show ?case
  proof (cases "is_boundary_line b line")
    case True
    with "1.prems" r l show ?thesis by (subst (asm) find_boundary.simps) simp
  next
    case False
    with "1.prems" r have "find_boundary broken b more = Inr (Some rest)" by (subst (asm) find_boundary.simps) simp
    from "1.IH" [OF r refl refl False this] l show ?thesis by simp
  qed
qed

lemma part_headers_le: "part_headers broken bytes len = Inr (Some (l, rest)) \<Longrightarrow> length rest \<le> length bytes"
proof (induction broken bytes len rule: part_headers.induct)
  case (1 broken bytes len)
  from "1.prems" obtain line more where r: "read_line_opt broken bytes = Inr (Some (line, more))"
    by (subst (asm) part_headers.simps) (auto split: sum.splits option.splits)
  show ?case
  proof (cases "str_trim line = []")
    case True
    with "1.prems" r show ?thesis by (subst (asm) part_headers.simps) (auto dest: read_line_shorter)
  next
    case False
    with "1.prems" r have "part_headers broken more
             (case split_once CHR '':'' line of
                Some (name, value) \<Rightarrow>
                  if eq_ignore_ascii_case (str_trim name) ''content-length'' then parse_uint u64_max (str_trim value) else len
              | None \<Rightarrow> len) = Inr (Some (l, rest))"
      by (subst (asm) part_headers.simps) simp
    from "1.IH" [OF r refl refl False this] read_line_shorter [OF r] show ?thesis by simp
  qed
qed

lemma scan_le: "scan_to_boundary broken b frame bytes = Inr (Some (f, rest)) \<Longrightarrow> length rest \<le> length bytes"
proof (induction bytes arbitrary: frame)
  case (Cons x bytes)
  from Cons.prems Cons.IH [of "frame @ [x]"] show ?case by (auto simp: Let_def split: if_splits)
qed (auto split: option.splits if_splits)

lemma read_body_le: "read_body broken b len bytes = Inr (Some (f, rest)) \<Longrightarrow> length rest \<le> length bytes"
  by (auto simp: read_body_def dest: scan_le split: option.splits if_splits)

lemma read_frame_cases:
  assumes "read_frame broken b bytes = Inr (Some (f, rest))"
  obtains len mid body where "find_boundary broken b bytes = Inr (Some mid)"
    and "part_headers broken mid None = Inr (Some (len, body))" and "read_body broken b len body = Inr (Some (f, rest))"
  using assms by (auto simp: read_frame_def split: sum.splits option.splits)

lemma find_boundary_shorter: "find_boundary broken b bytes = Inr (Some rest) \<Longrightarrow> length rest < length bytes"
proof -
  assume *: "find_boundary broken b bytes = Inr (Some rest)"
  then obtain line more where r: "read_line_opt broken bytes = Inr (Some (line, more))"
    by (subst (asm) find_boundary.simps) (auto split: sum.splits option.splits)
  from * r have "rest = more \<or> find_boundary broken b more = Inr (Some rest)"
    by (subst (asm) find_boundary.simps) (auto split: if_splits)
  with find_boundary_le [of broken b more rest] read_line_shorter [OF r] show ?thesis by auto
qed

lemma read_frame_shorter: "read_frame broken b bytes = Inr (Some (f, rest)) \<Longrightarrow> length rest < length bytes"
  by (erule read_frame_cases) (auto dest!: find_boundary_shorter part_headers_le read_body_le)

function pump_loop :: "(nat \<Rightarrow> bool) \<Rightarrow> io_error option \<Rightarrow> string \<Rightarrow> nat \<Rightarrow> string \<Rightarrow> string list \<times> string option" where
  "pump_loop stopping broken boundary n bytes =
     (if stopping n then ([], None)
      else case read_frame broken boundary bytes of
        Inl reason \<Rightarrow> ([], Some reason)
      | Inr None \<Rightarrow> ([], None)
      | Inr (Some (frame, rest)) \<Rightarrow>
          (let (frames, failure) = pump_loop stopping broken boundary (Suc n) rest in (frame # frames, failure)))"
  by pat_completeness auto
termination
  by (relation "measure (\<lambda>(stopping, broken, boundary, n, bytes). length bytes)") (auto dest: read_frame_shorter)

declare pump_loop.simps [simp del]

definition pump_upstream :: "(nat \<Rightarrow> bool) \<Rightarrow> upstream \<Rightarrow> string \<times> string list \<times> string option" where
  "pump_upstream stopping u =
     (case request_stream u of
        (sent, Inl reason) \<Rightarrow> (sent, [], Some reason)
      | (sent, Inr _) \<Rightarrow>
          (case read_upstream_boundary (up_broken u) (up_bytes u) of
             Inl reason \<Rightarrow> (sent, [], Some reason)
           | Inr (boundary, rest) \<Rightarrow> (sent, pump_loop stopping (up_broken u) boundary 0 rest)))"

text \<open>What \<open>write\_downstream\<close> puts on a viewer's connection: the head once, then a part for each frame.\<close>

definition downstream_head :: string where
  "downstream_head =
     ''HTTP/1.1 200 OK'' @ CRLF @
     ''Access-Control-Allow-Origin: *'' @ CRLF @
     ''Content-Type: multipart/x-mixed-replace; boundary='' @ DOWNSTREAM_BOUNDARY @ CRLF @
     ''Cache-Control: no-store'' @ CRLF @
     ''Connection: close'' @ CRLF @ CRLF"

definition part_head :: "string \<Rightarrow> string" where
  "part_head frame =
     ''--'' @ DOWNSTREAM_BOUNDARY @ CRLF @ ''Content-Type: image/jpeg'' @ CRLF @
     ''Content-Length: '' @ show_nat (length frame) @ CRLF @ CRLF"

definition downstream_bytes :: "string list \<Rightarrow> string" where
  "downstream_bytes frames = downstream_head @ concat (map (\<lambda>frame. part_head frame @ frame @ CRLF) frames)"

section \<open>Reading back what was framed\<close>

lemma is_utf8_ascii: "ascii s \<Longrightarrow> is_utf8 s"
  by (induction s) (simp_all add: ascii_def is_utf8.simps utf8_next_ascii)

definition line_text :: "string \<Rightarrow> bool" where
  "line_text l \<longleftrightarrow> ascii l \<and> LF \<notin> set l"

lemma read_line_text: "line_text l \<Longrightarrow> read_line_opt broken (l @ CRLF @ rest) = Inr (Some (l @ CRLF, rest))"
proof -
  assume l: "line_text l"
  have a: "ascii (l @ CRLF)" using l by (simp add: line_text_def ascii_def)
  have d: "dropWhile (\<lambda>b. b \<noteq> LF) (l @ CRLF @ rest) = LF # rest"
    using l by (subst dropWhile_append2) (auto simp: line_text_def)
  have t: "takeWhile (\<lambda>b. b \<noteq> LF) (l @ CRLF @ rest) = l @ [CHR 0x0D]"
    using l by (subst takeWhile_append2) (auto simp: line_text_def)
  have "take_line (l @ CRLF @ rest) = (l @ CRLF, rest)" unfolding take_line_def d t by simp
  with is_utf8_ascii [OF a] show ?thesis by (simp add: read_line_opt_def)
qed

lemma read_header_text: "line_text l \<Longrightarrow> read_header_line broken (l @ CRLF @ rest) = Inr (l @ CRLF, rest)"
  by (simp only: read_header_line_def read_line_text andThen.simps okOr.simps)

lemma line_text_CRLF: "read_line_opt broken (CRLF @ rest) = Inr (Some (CRLF, rest))"
  using read_line_text [of "[]"] by (simp add: line_text_def)

lemma trim_line: "ascii l \<Longrightarrow> l \<noteq> [] \<Longrightarrow> \<not> is_ws (hd l) \<Longrightarrow> \<not> is_ws (last l) \<Longrightarrow> str_trim (l @ CRLF) = l"
  by (subst str_trim_ascii) (auto simp: ascii_def dropWhile_hd hd_append hd_rev)

lemma trim_CRLF: "str_trim CRLF = []"
  by (subst str_trim_ascii) (simp_all add: ascii_def)

lemma trim_end_line: "ascii l \<Longrightarrow> l \<noteq> [] \<Longrightarrow> \<not> is_ws (last l) \<Longrightarrow> str_trim_end (l @ CRLF) = l"
proof -
  assume *: "ascii l" "l \<noteq> []" "\<not> is_ws (last l)"
  then have c: "str_chars (l @ CRLF) = map (\<lambda>c. [c]) (l @ CRLF)" by (intro str_chars_ascii) (simp add: ascii_def)
  have "dropWhile is_whitespace (rev (str_chars (l @ CRLF))) = map (\<lambda>c. [c]) (rev l)"
    unfolding c rev_map dropWhile_singles using * by (simp add: dropWhile_hd hd_rev)
  then show ?thesis by (simp add: str_trim_end_def rev_map)
qed

text \<open>A boundary a device may choose: letters and digits, which no trimming touches.\<close>

definition token :: "string \<Rightarrow> bool" where
  "token b \<longleftrightarrow> b \<noteq> [] \<and> list_all is_ascii_alnum b"


lemma alnum_plain: "is_ascii_alnum c \<Longrightarrow> \<not> digit7 c \<and> \<not> is_ws c \<and> c \<noteq> CHR ''-'' \<and> c \<noteq> QUOTE \<and> c \<noteq> CHR '';'' \<and> c \<noteq> LF"
  by (auto simp: is_ascii_alnum_def is_ascii_upper_def is_ascii_lower_def is_ascii_digit_def ascii_code code_def
      is_ws_def ws_ascii_def QUOTE_def)

lemma token_set: "token b \<Longrightarrow> c \<in> set b \<Longrightarrow> \<not> digit7 c \<and> \<not> is_ws c \<and> c \<noteq> CHR ''-'' \<and> c \<noteq> QUOTE \<and> c \<noteq> CHR '';'' \<and> c \<noteq> LF"
  using alnum_plain by (auto simp: token_def list_all_iff)

lemma token_text: "token b \<Longrightarrow> ascii b \<and> LF \<notin> set b \<and> \<not> is_ws (hd b) \<and> \<not> is_ws (last b) \<and> b \<noteq> []
    \<and> hd b \<noteq> CHR ''-'' \<and> last b \<noteq> CHR ''-''"
  using token_set [of b "hd b"] token_set [of b "last b"] token_set [of b]
  by (auto simp: ascii_def token_def)

lemma no_dashes: "s = [] \<or> hd s \<noteq> CHR ''-'' \<Longrightarrow> trim_start_dashes s = s"
  by (cases s rule: trim_start_dashes.cases) auto

lemma boundary_line: "token b \<Longrightarrow> is_boundary_line b ((''--'' @ b) @ CRLF)"
  unfolding is_boundary_line_def
  by (subst trim_end_line)
    (use token_text [of b] in \<open>auto simp: trim_end_dashes_def no_dashes hd_append hd_rev ends_with_iff str_contains_def\<close>)

lemma no_boundary_CRLF: "\<not> is_boundary_line b CRLF"
  by (simp add: is_boundary_line_def str_contains_def)

text \<open>The parts a device sends, whatever the spelling of the content type header is.\<close>

definition length_line :: "string \<Rightarrow> string" where
  "length_line frame = ''Content-Length: '' @ show_nat (length frame)"

definition part_of :: "string \<Rightarrow> string \<Rightarrow> string \<Rightarrow> string" where
  "part_of b kind frame = (''--'' @ b) @ CRLF @ kind @ CRLF @ length_line frame @ CRLF @ CRLF @ frame @ CRLF"

definition kind_line :: "string \<Rightarrow> bool" where
  "kind_line kind \<longleftrightarrow> kind \<in> {''Content-type: image/jpeg'', ''Content-Type: image/jpeg''}"

lemma digit_text: "is_ascii_digit c \<Longrightarrow> is_ascii_alnum c" by (simp add: is_ascii_alnum_def)

lemma token_show: "token (show_nat n)"
  using show_nat_digits [of n] by (auto simp: token_def list_all_iff digit_text)

lemma length_line_text: "line_text (length_line f)" 
  using token_text [OF token_show, of "length f"] by (simp add: length_line_def line_text_def)

lemma length_line_split: "split_once CHR '':'' (length_line f @ CRLF) = Some (''Content-Length'', CHR '' '' # show_nat (length f) @ CRLF)"
  by (simp add: length_line_def)

lemma trim_length: "str_trim (CHR '' '' # show_nat n @ CRLF) = show_nat n"
proof -
  have a: "ascii (CHR '' '' # show_nat n @ CRLF)" using token_text [OF token_show, of n] by simp
  show ?thesis unfolding str_trim_ascii [OF a] using token_text [OF token_show, of n]
    by (simp add: dropWhile_hd hd_append hd_rev)
qed

lemma trim_name: "str_trim ''Content-Length'' = ''Content-Length''" "str_trim ''Content-Type'' = ''Content-Type''" "str_trim ''Content-type'' = ''Content-type''"
  by code_simp+

lemma kind_line_reads:
  assumes "kind_line kind"
  shows "read_line_opt broken (kind @ CRLF @ rest) = Inr (Some (kind @ CRLF, rest))"
    and "str_trim (kind @ CRLF) \<noteq> []"
    and "(case split_once CHR '':'' (kind @ CRLF) of
      Some (name, value) \<Rightarrow>
        if eq_ignore_ascii_case (str_trim name) ''content-length'' then parse_uint u64_max (str_trim value) else None
    | None \<Rightarrow> None) = None"
proof -
  consider "kind = ''Content-type: image/jpeg''" | "kind = ''Content-Type: image/jpeg''"
    using assms by (auto simp: kind_line_def)
  then have k: "line_text kind" "str_trim (kind @ CRLF) \<noteq> []"
    "case split_once CHR '':'' (kind @ CRLF) of Some (name, v) \<Rightarrow> \<not> eq_ignore_ascii_case (str_trim name) ''content-length'' | None \<Rightarrow> True"
    by (cases; (hypsubst, code_simp))+
  show "read_line_opt broken (kind @ CRLF @ rest) = Inr (Some (kind @ CRLF, rest))" by (rule read_line_text [OF k(1)])
  show "str_trim (kind @ CRLF) \<noteq> []" by (rule k(2))
  show "(case split_once CHR '':'' (kind @ CRLF) of
      Some (name, value) \<Rightarrow>
        if eq_ignore_ascii_case (str_trim name) ''content-length'' then parse_uint u64_max (str_trim value) else None
    | None \<Rightarrow> None) = None"
    using k(3) by (auto split: option.splits)
qed

lemma part_headers_of:
  assumes "kind_line kind" "length f \<le> u64_max"
  shows "part_headers broken (kind @ CRLF @ length_line f @ CRLF @ CRLF @ rest) None = Inr (Some (Some (length f), rest))"
proof -
  have n: "eq_ignore_ascii_case (str_trim ''Content-Length'') ''content-length''"
    unfolding trim_name by code_simp
  have t: "str_trim (length_line f @ CRLF) \<noteq> []"
    using token_text [OF token_show, of "length f"]
    by (subst trim_line) (auto simp: length_line_def is_ws_def ws_ascii_def)
  have 3: "part_headers broken (CRLF @ rest) (Some (length f)) = Inr (Some (Some (length f), rest))"
    by (subst part_headers.simps) (simp only: line_text_CRLF trim_CRLF sum.case option.case prod.case if_True simp_thms)
  have 2: "part_headers broken (length_line f @ CRLF @ CRLF @ rest) None = Inr (Some (Some (length f), rest))"
    by (subst part_headers.simps)
      (simp only: read_line_text [OF length_line_text] t length_line_split n trim_length parse_show_nat [OF assms(2)] 3
        sum.case option.case prod.case if_True if_False simp_thms)
  show ?thesis
    by (subst part_headers.simps)
      (simp only: kind_line_reads [OF assms(1)] 2 sum.case option.case prod.case if_False)
qed


lemma find_boundary_of: "token b \<Longrightarrow> find_boundary broken b ((''--'' @ b) @ CRLF @ rest) = Inr (Some rest)"
proof -
  assume b: "token b"
  have "line_text (''--'' @ b)" using token_text [OF b] by (simp add: line_text_def)
  from read_line_text [OF this] show ?thesis
    by (subst find_boundary.simps) (simp only: boundary_line [OF b] sum.case option.case prod.case if_True)
qed

lemma find_boundary_CRLF: "find_boundary broken b (CRLF @ rest) = find_boundary broken b rest"
  by (subst find_boundary.simps) (simp only: line_text_CRLF no_boundary_CRLF sum.case option.case prod.case if_False)

lemma max_frame_usize: "MAX_FRAME_BYTES \<le> u64_max" by (simp add: MAX_FRAME_BYTES_def u64_max_def)

lemma read_body_of: "length f \<le> MAX_FRAME_BYTES \<Longrightarrow> read_body broken b (Some (length f)) (f @ rest) = Inr (Some (f, rest))"
  by (simp add: read_body_def)

lemma read_frame_of:
  assumes "token b" "kind_line kind" "length f \<le> MAX_FRAME_BYTES"
  shows "read_frame broken b (part_of b kind f @ rest) = Inr (Some (f, CRLF @ rest))"
proof -
  have *: "part_of b kind f @ rest = (''--'' @ b) @ CRLF @ kind @ CRLF @ length_line f @ CRLF @ CRLF @ f @ CRLF @ rest"
    by (simp only: part_of_def append.assoc)
  have n: "length f \<le> u64_max" using assms(3) max_frame_usize by simp
  show ?thesis unfolding read_frame_def *
    by (simp only: find_boundary_of [OF assms(1)] part_headers_of [OF assms(2) n] read_body_of [OF assms(3)] sum.case option.case prod.case)
qed

lemma read_frame_CRLF: "read_frame broken b (CRLF @ rest) = read_frame broken b rest"
  by (simp only: read_frame_def find_boundary_CRLF)

lemma pump_loop_parts:
  assumes "token b" "kind_line kind" "\<forall>f \<in> set fs. length f \<le> MAX_FRAME_BYTES"
  shows "lead \<in> {[], CRLF} \<Longrightarrow> \<forall>i \<le> n + length fs. stopping i \<longleftrightarrow> k \<le> i \<Longrightarrow>
    pump_loop stopping broken b n (lead @ concat (map (part_of b kind) fs)) =
      (take (k - n) fs, if k \<le> n + length fs then None else map_option (\<lambda>e. read_failed (io_text e)) broken)"
  using assms(3)
proof (induction fs arbitrary: n lead)
  case Nil
  have e: "read_frame broken b [] = (case broken of None \<Rightarrow> Inr None | Some e \<Rightarrow> Inl (read_failed (io_text e)))"
    by (simp add: read_frame_def find_boundary.simps [of _ _ "[]"] read_line_opt_def split: option.splits)
  with Nil read_frame_CRLF [of broken b "[]"] show ?case
    by (subst pump_loop.simps) (auto split: option.splits)
next
  case (Cons f fs)
  have "read_frame broken b (lead @ concat (map (part_of b kind) (f # fs))) = Inr (Some (f, CRLF @ concat (map (part_of b kind) fs)))"
    using Cons.prems read_frame_CRLF read_frame_of [OF assms(1,2), of f broken "concat (map (part_of b kind) fs)"] by auto
  with Cons.IH [of CRLF "Suc n"] Cons.prems show ?case
    by (subst pump_loop.simps) (auto simp: take_Cons' Suc_diff_le not_le)
qed

lemma header_step:
  assumes "line_text l" "str_trim (l @ CRLF) \<noteq> []"
  shows "header_loop broken (l @ CRLF @ rest) ct = header_loop broken rest
    (case split_once CHR '':'' (l @ CRLF) of
       Some (name, value) \<Rightarrow> if eq_ignore_ascii_case (str_trim name) ''content-type'' then Some (str_trim value) else ct
     | None \<Rightarrow> ct)"
  by (subst header_loop.simps) (simp only: read_header_text [OF assms(1)] assms(2) sum.case prod.case if_False)

lemma header_end: "header_loop broken (CRLF @ rest) ct = Inr (ct, rest)"
  by (subst header_loop.simps)
    (simp only: read_header_line_def line_text_CRLF andThen.simps okOr.simps trim_CRLF sum.case prod.case if_True simp_thms)

definition type_line :: "string \<Rightarrow> string" where
  "type_line b = ''Content-Type: multipart/x-mixed-replace; boundary='' @ b"

definition type_value :: "string \<Rightarrow> string" where
  "type_value b = ''multipart/x-mixed-replace; boundary='' @ b"

lemma header_type:
  assumes "token b" "d \<in> {[], ''--''}"
  shows "header_loop broken (type_line (d @ b) @ CRLF @ rest) ct = header_loop broken rest (Some (type_value (d @ b)))"
proof -
  note b = token_text [OF assms(1)]
  have t: "ascii (type_line (d @ b))" "type_line (d @ b) \<noteq> []" "\<not> is_ws (hd (type_line (d @ b)))" "\<not> is_ws (last (type_line (d @ b)))" "LF \<notin> set (type_line (d @ b))"
    using b assms(2) by (auto simp: type_line_def is_ws_def ws_ascii_def)
  have s: "split_once CHR '':'' (type_line (d @ b) @ CRLF) = Some (''Content-Type'', CHR '' '' # type_value (d @ b) @ CRLF)"
    by (simp add: type_line_def type_value_def)
  have a: "ascii (CHR '' '' # type_value (d @ b) @ CRLF)" using b assms(2) by (auto simp: type_value_def)
  have l: "type_value (d @ b) \<noteq> []" "\<not> is_ws (hd (type_value (d @ b)))" "\<not> is_ws (last (type_value (d @ b)))"
    using b assms(2) by (auto simp: type_value_def is_ws_def ws_ascii_def)
  have v: "str_trim (CHR '' '' # type_value (d @ b) @ CRLF) = type_value (d @ b)"
    unfolding str_trim_ascii [OF a] using l by (simp add: dropWhile_hd hd_append hd_rev)
  have n: "eq_ignore_ascii_case (str_trim ''Content-Type'') ''content-type''" by code_simp
  have lt: "line_text (type_line (d @ b))" using t by (simp add: line_text_def)
  show ?thesis
    by (subst header_step [OF lt])
      (simp_all only: s v n trim_line [OF t(1-4)] t(2) option.case prod.case if_True not_False_eq_True)
qed

lemma trim_no_mark: "s = [] \<or> (hd s \<noteq> q \<and> last s \<noteq> q) \<Longrightarrow> trim_matches q s = s"
  by (cases "s = []") (auto simp: trim_matches_def trim_start_matches_def trim_end_matches_def dropWhile_hd hd_rev)

lemma trim_space: "ascii s \<Longrightarrow> s \<noteq> [] \<Longrightarrow> \<not> is_ws (hd s) \<Longrightarrow> \<not> is_ws (last s) \<Longrightarrow> str_trim (CHR '' '' # s) = s"
  by (subst str_trim_ascii) (auto simp: dropWhile_hd hd_rev)

lemma boundary_of_type:
  assumes "token b" "d \<in> {[], ''--''}"
  shows "boundary_of (type_value (d @ b)) = Some b"
proof -
  note b = token_text [OF assms(1)]
  have db: "ascii (d @ b)" "\<forall>c \<in> set (d @ b). c \<noteq> CHR '';'' \<and> c \<noteq> QUOTE" "d @ b \<noteq> []" "\<not> is_ws (last (d @ b))"
    using b assms token_set [OF assms(1)] by (auto simp: QUOTE_def)
  have s: "str_split CHR '';'' (type_value (d @ b)) = [''multipart/x-mixed-replace'', '' boundary='' @ d @ b]"
    unfolding str_split_def type_value_def
    using splitBy_id [of "'' boundary='' @ d @ b" "\<lambda>c. c = CHR '';''"] db(2)
    by simp
  have t: "str_trim ('' boundary='' @ d @ b) = ''boundary='' @ d @ b"
    using trim_space [of "''boundary='' @ d @ b"] db by (simp add: is_ws_def ws_ascii_def)
  have t2: "strip_prefix ''boundary='' (str_trim ''multipart/x-mixed-replace'') = None" by code_simp
  have q: "trim_matches QUOTE (d @ b) = d @ b"
    using db(2,3) by (intro trim_no_mark) (meson hd_in_set last_in_set)
  have p: "strip_prefix ''boundary='' (''boundary='' @ d @ b) = Some (d @ b)" by simp
  have dd: "trim_start_dashes (d @ b) = b" using b assms(2) by (auto simp: no_dashes)
  show ?thesis unfolding boundary_of_def s by (simp only: findMap.simps t t2 p q dd option.map option.case)
qed

lemma header_skip:
  assumes "line_text l" "str_trim (l @ CRLF) \<noteq> []"
    and "case split_once CHR '':'' (l @ CRLF) of None \<Rightarrow> True | Some (name, v) \<Rightarrow> \<not> eq_ignore_ascii_case (str_trim name) ''content-type''"
  shows "header_loop broken (l @ CRLF @ rest) ct = header_loop broken rest ct"
  using assms by (subst header_step) (auto split: option.splits)

lemma skip_lines:
  "header_loop broken (''HTTP/1.0 200 OK'' @ CRLF @ rest) ct = header_loop broken rest ct"
  "header_loop broken (''HTTP/1.1 200 OK'' @ CRLF @ rest) ct = header_loop broken rest ct"
  "header_loop broken (''Access-Control-Allow-Origin: *'' @ CRLF @ rest) ct = header_loop broken rest ct"
  "header_loop broken (''Cache-Control: no-store'' @ CRLF @ rest) ct = header_loop broken rest ct"
  "header_loop broken (''Connection: close'' @ CRLF @ rest) ct = header_loop broken rest ct"
  by (rule header_skip; code_simp)+

text \<open>The response of a device: its boundary is announced with the dashes that precede it in the body.\<close>

definition device_response :: "string \<Rightarrow> string \<Rightarrow> string" where
  "device_response b body = ''HTTP/1.0 200 OK'' @ CRLF @ type_line (''--'' @ b) @ CRLF @ CRLF @ body"

definition device_bytes :: "string \<Rightarrow> string \<Rightarrow> string list \<Rightarrow> string" where
  "device_bytes b kind frames = device_response b (concat (map (part_of b kind) frames))"

lemma boundary_device: "token b \<Longrightarrow> read_upstream_boundary broken (device_response b body) = Inr (b, body)"
  unfolding read_upstream_boundary_def device_response_def
  by (simp only: skip_lines header_type insertI1 insertI2 header_end boundary_of_type andThen.simps prod.case okOr.simps)

lemma downstream_is_stream:
  "downstream_bytes fs = ''HTTP/1.1 200 OK'' @ CRLF @ ''Access-Control-Allow-Origin: *'' @ CRLF @
     type_line ([] @ DOWNSTREAM_BOUNDARY) @ CRLF @ ''Cache-Control: no-store'' @ CRLF @ ''Connection: close'' @ CRLF @ CRLF @
     concat (map (part_of DOWNSTREAM_BOUNDARY ''Content-Type: image/jpeg'') fs)"
proof -
  have "(\<lambda>f. part_head f @ f @ CRLF) = part_of DOWNSTREAM_BOUNDARY ''Content-Type: image/jpeg''"
    by (rule ext) (simp add: part_head_def part_of_def length_line_def)
  then show ?thesis
    unfolding downstream_bytes_def downstream_head_def type_line_def by (simp only: append.assoc append_Nil)
qed

lemma token_downstream: "token DOWNSTREAM_BOUNDARY"
  by (simp add: token_def DOWNSTREAM_BOUNDARY_def is_ascii_alnum_def is_ascii_lower_def)

lemma boundary_downstream:
  "read_upstream_boundary broken (downstream_bytes fs) =
     Inr (DOWNSTREAM_BOUNDARY, concat (map (part_of DOWNSTREAM_BOUNDARY ''Content-Type: image/jpeg'') fs))"
  unfolding read_upstream_boundary_def downstream_is_stream
  by (simp only: skip_lines header_type token_downstream insertI1 header_end boundary_of_type andThen.simps prod.case okOr.simps)

text \<open>
  C13. The framing is exact in both directions: from a device that gives every part a length, in
  either spelling of the type header, and from the proxy's own output to a viewer, the reader
  publishes the frames byte for byte and in order, whatever bytes they hold (line feeds, bytes
  that are not UTF-8, the boundary itself), up to the look at which it is told to stop. A
  stream that just ends is no failure; one that breaks is, with the reason.
\<close>

theorem pump_delivers_the_stream:
  assumes "token b" "kind_line kind" "\<forall>f \<in> set fs. length f \<le> MAX_FRAME_BYTES"
    and "u = \<lparr>up_clone = None, up_write = None, up_bytes = bytes, up_broken = broken\<rparr>"
    and "bytes = device_bytes b kind fs \<or> bytes = downstream_bytes fs"
  shows "pump_upstream (\<lambda>n. k \<le> n) u =
    (UPSTREAM_REQUEST, take k fs,
      if k \<le> length fs then None else map_option (\<lambda>e. read_failed (io_text e)) broken)"
  using assms(5)
proof
  assume *: "bytes = device_bytes b kind fs"
  show ?thesis
    using pump_loop_parts [OF assms(1-3), of "[]" 0 "\<lambda>n. k \<le> n" k broken]
    by (simp add: pump_upstream_def request_stream_def assms(4) * device_bytes_def boundary_device [OF assms(1)])
next
  assume *: "bytes = downstream_bytes fs"
  show ?thesis
    using pump_loop_parts [OF token_downstream _ assms(3), of "''Content-Type: image/jpeg''" "[]" 0 "\<lambda>n. k \<le> n" k broken]
    by (simp add: pump_upstream_def request_stream_def assms(4) * boundary_downstream kind_line_def)
qed

theorem pump_delivers_the_stream_witness:
  "pump_upstream (\<lambda>n. 5 \<le> n) \<lparr>up_clone = None, up_write = None,
      up_bytes = device_bytes ''BoundaryString'' ''Content-type: image/jpeg'' [[CHR 0xFF, CHR 0xD8, CHR 0x0A], ''--BoundaryString''],
      up_broken = None\<rparr>
    = (UPSTREAM_REQUEST, [[CHR 0xFF, CHR 0xD8, CHR 0x0A], ''--BoundaryString''], None)"
proof -
  have t: "token ''BoundaryString''" by (simp add: token_def is_ascii_alnum_def is_ascii_lower_def is_ascii_upper_def)
  have k: "kind_line ''Content-type: image/jpeg''" by (simp add: kind_line_def)
  show ?thesis
    by (subst pump_delivers_the_stream [OF t k _ refl disjI1 [OF refl]]) (simp_all add: MAX_FRAME_BYTES_def)
qed

lemma scan_until:
  assumes "xs \<noteq> []" "ends_with (''--'' @ b) (acc @ xs)" "length (acc @ xs) \<le> MAX_FRAME_BYTES"
    and "\<forall>p q. xs = p @ q \<and> p \<noteq> [] \<and> q \<noteq> [] \<longrightarrow> \<not> ends_with (''--'' @ b) (acc @ p)"
  shows "scan_to_boundary broken b acc (xs @ rest) =
    Inr (Some (drop_newlines (take (length (acc @ xs) - length (''--'' @ b)) (acc @ xs)), rest))"
  using assms
proof (induction xs arbitrary: acc)
  case (Cons x xs)
  show ?case
  proof (cases "xs = []")
    case True
    with Cons.prems show ?thesis by (simp add: Let_def)
  next
    case False
    have n: "\<not> ends_with (''--'' @ b) (acc @ [x])"
      using Cons.prems(4) [rule_format, of "[x]" xs] False by simp
    have r: "\<forall>p q. xs = p @ q \<and> p \<noteq> [] \<and> q \<noteq> [] \<longrightarrow> \<not> ends_with (''--'' @ b) ((acc @ [x]) @ p)"
      using Cons.prems(4) [rule_format, of "x # _"] by auto
    from Cons.IH [of "acc @ [x]"] False r Cons.prems(2,3) n show ?thesis by (auto simp: Let_def)
  qed
qed simp

definition bare_part :: "string \<Rightarrow> string \<Rightarrow> string \<Rightarrow> string" where
  "bare_part b kind frame = (''--'' @ b) @ CRLF @ kind @ CRLF @ CRLF @ frame @ CRLF"

lemma scan_bare:
  assumes "token b" "\<not> str_contains (''--'' @ b) f" "length f + 4 + length b \<le> MAX_FRAME_BYTES"
  shows "scan_to_boundary broken b [] (f @ CRLF @ (''--'' @ b) @ rest) = Inr (Some (drop_newlines f, rest))"
proof -
  let ?n = "''--'' @ b"
  note b = token_text [OF assms(1)]
  have cr: "CHR 0x0D \<notin> set ?n" and lf: "LF \<notin> set ?n"
    using token_set [OF assms(1)] by (auto simp: is_ws_def ws_ascii_def)
  have no: "\<not> ends_with ?n p" if pq: "f @ CRLF @ ?n = p @ q" "q \<noteq> []" for p q
  proof
    assume e: "ends_with ?n p"
    have "prefix p (f @ CRLF @ butlast ?n)"
    proof -
      have "f @ CRLF @ ?n = p @ butlast q @ [last q]" using pq by simp
      then have "butlast (f @ CRLF @ ?n) = p @ butlast q" by (metis append.assoc butlast_snoc)
      then show ?thesis using b by (auto simp: butlast_append prefix_def)
    qed
    then obtain z where z: "f @ CRLF @ butlast ?n = p @ z" by (auto simp: prefix_def)
    have "str_contains ?n (p @ z)"
      using e unfolding ends_with_iff str_contains_iff by (metis append.assoc)
    then have "str_contains ?n (f @ CHR 0x0D # LF # butlast ?n)" unfolding z [symmetric] by simp
    then have "str_contains ?n f \<or> str_contains ?n (LF # butlast ?n)"
      by (intro contains_past_mark) (use cr in auto)
    with assms(2) have "str_contains ?n ([] @ LF # butlast ?n)" by simp
    then have "str_contains ?n [] \<or> str_contains ?n (butlast ?n)"
      by (intro contains_past_mark) (use lf in auto)
    then obtain u v where "butlast ?n = u @ ?n @ v" by (auto simp: str_contains_iff)
    then have "length (butlast ?n) = length u + length ?n + length v" by (metis length_append add.assoc)
    then show False using b by (auto split: if_splits)
  qed
  have s: "scan_to_boundary broken b [] ((f @ CRLF @ ?n) @ rest) =
    Inr (Some (drop_newlines (take (length (f @ CRLF @ ?n) - length ?n) (f @ CRLF @ ?n)), rest))"
    using scan_until [of "f @ CRLF @ ?n" b "[]" broken rest] no assms(3) by (auto simp: ends_with_iff)
  have "drop_newlines (f @ CRLF) = drop_newlines f" by (simp add: drop_newlines_def)
  moreover have "take (length (f @ CRLF @ ?n) - length ?n) (f @ CRLF @ ?n) = f @ CRLF" by simp
  ultimately show ?thesis using s by (simp only: append.assoc)
qed

lemma part_headers_bare:
  assumes "kind_line kind"
  shows "part_headers broken (kind @ CRLF @ CRLF @ rest) None = Inr (Some (None, rest))"
proof -
  have e: "part_headers broken (CRLF @ rest) None = Inr (Some (None, rest))"
    by (subst part_headers.simps) (simp only: line_text_CRLF trim_CRLF sum.case option.case prod.case if_True simp_thms)
  show ?thesis
    by (subst part_headers.simps)
      (simp only: kind_line_reads [OF assms] e sum.case option.case prod.case if_False)
qed

lemma read_frame_bare:
  assumes "token b" "kind_line kind" "\<not> str_contains (''--'' @ b) f" "length f + 4 + length b \<le> MAX_FRAME_BYTES"
  shows "read_frame broken b (bare_part b kind f @ (''--'' @ b) @ rest) = Inr (Some (drop_newlines f, rest))"
proof -
  have *: "bare_part b kind f @ (''--'' @ b) @ rest = (''--'' @ b) @ CRLF @ kind @ CRLF @ CRLF @ f @ CRLF @ (''--'' @ b) @ rest"
    by (simp only: bare_part_def append.assoc)
  show ?thesis unfolding read_frame_def *
    by (simp only: find_boundary_of [OF assms(1)] part_headers_bare [OF assms(2)] sum.case option.case prod.case
        read_body_def scan_bare [OF assms(1,3,4)])
qed

lemma read_line_jpeg: "LF \<in> set bytes \<Longrightarrow>
  read_line_opt broken (CHR 0xFF # bytes) = Inl (read_failed ''stream did not contain valid UTF-8'')"
  by (auto simp: read_line_opt_def take_line_def is_utf8.simps utf8_next.simps utf8_width_def code_def dropWhile_eq_Nil_conv split: list.splits)

lemma find_boundary_jpeg:
  assumes "kind_line kind" "token b" "LF \<in> set bytes"
  shows "find_boundary broken b (CRLF @ kind @ CRLF @ CRLF @ CHR 0xFF # bytes) =
    Inl (read_failed ''stream did not contain valid UTF-8'')"
proof -
  have t: "line_text kind" and nb: "\<not> is_boundary_line b (kind @ CRLF)"
    using assms(1) by (auto simp: kind_line_def line_text_def is_boundary_line_def str_contains_def)
  have "find_boundary broken b (CHR 0xFF # bytes) = Inl (read_failed ''stream did not contain valid UTF-8'')"
    by (subst find_boundary.simps) (simp add: read_line_jpeg [OF assms(3)])
  then show ?thesis
    unfolding find_boundary_CRLF
    by (subst find_boundary.simps) (simp only: read_line_text [OF t] nb find_boundary_CRLF sum.case option.case prod.case if_False)
qed

text \<open>
  C40. A device that sends no Content-Length loses its stream after one frame: the scan for the
  end of the first frame consumes the next boundary, so the reader looks for another one, takes
  the second frame for a line of text and fails on it, as it does on every JPEG (they start with
  the byte FF). The first frame is published, the second and all after it never are.
\<close>

theorem second_bare_frame_lost:
  assumes "token b" "kind_line kind" "\<not> str_contains (''--'' @ b) f" "length f + 4 + length b \<le> MAX_FRAME_BYTES"
    and "u = \<lparr>up_clone = None, up_write = None, up_bytes =
      device_response b (bare_part b kind f @ bare_part b kind (CHR 0xFF # g) @ later),
      up_broken = broken\<rparr>"
  shows "pump_upstream (\<lambda>n. False) u =
    (UPSTREAM_REQUEST, [drop_newlines f], Some (read_failed ''stream did not contain valid UTF-8''))"
proof -
  have 2: "read_frame broken b (CRLF @ kind @ CRLF @ CRLF @ CHR 0xFF # (g @ CRLF @ later)) =
      Inl (read_failed ''stream did not contain valid UTF-8'')"
    unfolding read_frame_def by (subst find_boundary_jpeg [OF assms(2,1)]) simp_all
  have 1: "read_frame broken b (bare_part b kind f @ bare_part b kind (CHR 0xFF # g) @ later) =
      Inr (Some (drop_newlines f, CRLF @ kind @ CRLF @ CRLF @ CHR 0xFF # (g @ CRLF @ later)))"
    using read_frame_bare [OF assms(1-4), of broken "CRLF @ kind @ CRLF @ CRLF @ CHR 0xFF # (g @ CRLF @ later)"]
    by (simp only: bare_part_def append.assoc append_Cons)
  have p: "pump_loop (\<lambda>n. False) broken b 0 (bare_part b kind f @ bare_part b kind (CHR 0xFF # g) @ later) =
      ([drop_newlines f], Some (read_failed ''stream did not contain valid UTF-8''))"
    by (subst pump_loop.simps, subst pump_loop.simps) (simp only: 1 2 sum.case option.case prod.case if_False Let_def)
  show ?thesis by (simp add: pump_upstream_def request_stream_def assms(5) boundary_device [OF assms(1)] p)
qed

theorem second_bare_frame_lost_witness:
  "pump_upstream (\<lambda>n. False) \<lparr>up_clone = None, up_write = None, up_bytes =
      device_response ''frame'' (bare_part ''frame'' ''Content-Type: image/jpeg'' [CHR 0xFF, CHR 0xD8, CHR 0x01] @
      bare_part ''frame'' ''Content-Type: image/jpeg'' (CHR 0xFF # [CHR 0xD8, CHR 0x02]) @ []),
      up_broken = None\<rparr>
    = (UPSTREAM_REQUEST, [[CHR 0xFF, CHR 0xD8, CHR 0x01]], Some (read_failed ''stream did not contain valid UTF-8''))"
proof -
  have t: "token ''frame''" by (simp add: token_def is_ascii_alnum_def is_ascii_lower_def)
  have k: "kind_line ''Content-Type: image/jpeg''" by (simp add: kind_line_def)
  show ?thesis
    by (subst second_bare_frame_lost [OF t k _ _ refl])
      (simp_all add: str_contains_def drop_newlines_def MAX_FRAME_BYTES_def)
qed

lemma scan_bound: "scan_to_boundary broken b frame bytes = Inr (Some (f, rest)) \<Longrightarrow>
  length frame \<le> MAX_FRAME_BYTES \<Longrightarrow> length f \<le> MAX_FRAME_BYTES"
proof (induction bytes arbitrary: frame)
  case (Cons x bytes)
  have "length (drop_newlines s) \<le> length s" for s
    using length_dropWhile_le [of _ "rev s"] by (simp add: drop_newlines_def)
  then have "length (drop_newlines (take k s)) \<le> length s" for k s by (metis dual_order.trans length_take min.cobounded1)
  with Cons.prems Cons.IH [of "frame @ [x]"] show ?case
    by (fastforce simp: Let_def not_less intro: order_trans split: if_splits)
qed (auto split: option.splits if_splits)

lemma read_body_bound: "read_body broken b len bytes = Inr (Some (f, rest)) \<Longrightarrow> length f \<le> MAX_FRAME_BYTES"
  by (auto simp: read_body_def dest: scan_bound split: option.splits if_splits)

lemma pump_loop_bound: "frame \<in> set (fst (pump_loop stopping broken b n bytes)) \<Longrightarrow> length frame \<le> MAX_FRAME_BYTES"
proof (induction stopping broken b n bytes rule: pump_loop.induct)
  case (1 stopping broken b n bytes)
  from "1.prems" obtain f rest where st: "\<not> stopping n" and r: "read_frame broken b bytes = Inr (Some (f, rest))"
    by (subst (asm) pump_loop.simps) (auto split: if_splits sum.splits option.splits)
  with "1.prems" have "frame = f \<or> frame \<in> set (fst (pump_loop stopping broken b (Suc n) rest))"
    by (subst (asm) pump_loop.simps) (auto split: prod.splits)
  moreover from r have "length f \<le> MAX_FRAME_BYTES" by (rule read_frame_cases) (rule read_body_bound)
  ultimately show ?case using "1.IH" [OF st r refl refl] by auto
qed

text \<open>
  No frame the proxy publishes is larger than \<open>MAX\_FRAME\_BYTES\<close>, with or without a length,
  whatever the device sends.
\<close>

theorem published_frames_bounded:
  "list_all (\<lambda>frame. length frame \<le> MAX_FRAME_BYTES) (fst (snd (pump_upstream stopping u)))"
  by (auto simp: list_all_iff pump_upstream_def split: prod.splits sum.splits dest!: pump_loop_bound [of _ _ _ _ _ _, simplified])

end
