(* ===== verification/MjpegSlot.thy ===== *)
theory MjpegSlot
  imports MjpegProxy
begin

text \<open>
  The crate \<open>quadcontrol-ios\<close>, \<open>mjpeg.rs\<close>: the broadcast slot, and the threads around it.
  \<open>pump\_upstream\<close> publishes, \<open>serve\_downstream\<close> accepts viewers, one \<open>write\_downstream\<close>
  serves each viewer, \<open>Proxy::stop\<close> and the end of the stream set the stop flag. A step is what
  one thread does between two points where another may come in: a critical section of the
  slot's mutex, one atomic operation, or one call on a socket with its outcome. How viewers
  and sockets behave is left open, so a run is any interleaving with any outcome.
\<close>

section \<open>The slot\<close>

record slot =
  sl_frame :: "string option"
  sl_seq :: nat
  sl_consumed :: bool
  sl_drops :: nat
  sl_last_frame_at :: "nat option"
  sl_stopping :: bool
  sl_writers :: nat

definition new_slot :: slot where
  "new_slot = \<lparr>sl_frame = None, sl_seq = 0, sl_consumed = False, sl_drops = 0,
     sl_last_frame_at = None, sl_stopping = False, sl_writers = 0\<rparr>"

definition publish :: "nat \<Rightarrow> string \<Rightarrow> slot \<Rightarrow> slot" where
  "publish clock frame s =
     (let s = (if 0 < sl_seq s \<and> \<not> sl_consumed s \<and> 0 < sl_writers s
               then s\<lparr>sl_drops := sl_drops s + 1\<rparr> else s)
      in s\<lparr>sl_frame := Some frame, sl_seq := sl_seq s + 1, sl_consumed := False, sl_last_frame_at := Some clock\<rparr>)"

text \<open>One round of \<open>next\_frame\<close>: stop, a frame newer than \<open>last\_seq\<close>, or another wait.\<close>

datatype look = Stopped | Fresh string nat slot | NoneYet

definition next_frame :: "nat \<Rightarrow> slot \<Rightarrow> look" where
  "next_frame last_seq s =
     (if sl_stopping s then Stopped
      else if last_seq < sl_seq s
      then Fresh (the (sl_frame s)) (sl_seq s) (s\<lparr>sl_consumed := True\<rparr>)
      else NoneYet)"

record FrameStats =
  fs_frames :: nat
  fs_backpressure_drops :: nat
  fs_last_frame_at :: "nat option"

definition stats :: "slot \<Rightarrow> FrameStats" where
  "stats s = \<lparr>fs_frames = sl_seq s, fs_backpressure_drops = sl_drops s, fs_last_frame_at = sl_last_frame_at s\<rparr>"

definition is_alive :: "slot \<Rightarrow> bool" where
  "is_alive s \<longleftrightarrow> \<not> sl_stopping s"

section \<open>The threads\<close>

text \<open>
  Where \<open>write\_downstream\<close> is: not started, before the response head (the request is being
  read), in \<open>next\_frame\<close> with its \<open>last\_seq\<close>, writing a frame it took, before the guard is
  dropped (the socket is shut down), between the two halves of the guard's drop, finished.
\<close>

datatype place = Spawned | Greeting | Looking nat | Writing nat string | Leaving | Unlisting | Gone

record viewer =
  v_place :: place
  v_sent :: "string list"
  v_open :: bool

datatype pump_place = PumpOpen | PumpLook | PumpRead | PumpDone
datatype accept_place = AcceptLook | AcceptWait | AcceptDone
datatype stop_place = NotCalled | ShutUpstream | ShutSockets | Joining

text \<open>
  \<open>p_viewers\<close> lists the viewers by their id (\<open>next\_id\<close> is its length), \<open>p_sockets\<close> is the
  registry, \<open>p_cut\<close> whether the upstream socket was shut down. \<open>p_opening\<close> is why the stream could
  not be opened, if it could not; \<open>p_frames\<close> and \<open>p_end\<close> are what it still holds and how it ends.
  \<open>p_published\<close> and \<open>p_taken\<close> are no state of the program: the frames published so far and the
  numbers of those some writer took, for the statements.
\<close>

record proxy =
  p_slot :: slot
  p_failure :: "string option"
  p_sockets :: "nat list"
  p_viewers :: "viewer list"
  p_pump :: pump_place
  p_accept :: accept_place
  p_stop :: stop_place
  p_cut :: bool
  p_opening :: "string option"
  p_frames :: "string list"
  p_end :: "string option"
  p_published :: "string list"
  p_taken :: "nat set"

definition new_proxy :: "string option \<Rightarrow> string list \<Rightarrow> string option \<Rightarrow> proxy" where
  "new_proxy opening frames ending =
     \<lparr>p_slot = new_slot, p_failure = None, p_sockets = [], p_viewers = [], p_pump = PumpOpen,
      p_accept = AcceptLook, p_stop = NotCalled, p_cut = False, p_opening = opening, p_frames = frames,
      p_end = ending, p_published = [], p_taken = {}\<rparr>"

text \<open>The proxy over a connection to the device: how its stream opens, and what it holds.\<close>

definition proxy_of :: "upstream \<Rightarrow> proxy" where
  "proxy_of u =
     (case request_stream u of
        (sent, Inl reason) \<Rightarrow> new_proxy (Some reason) [] None
      | (sent, Inr _) \<Rightarrow>
          (case read_upstream_boundary (up_broken u) (up_bytes u) of
             Inl reason \<Rightarrow> new_proxy (Some reason) [] None
           | Inr (boundary, rest) \<Rightarrow>
               (let (frames, ending) = pump_loop (\<lambda>n. False) (up_broken u) boundary 0 rest
                in new_proxy None frames ending)))"

definition new_viewer :: viewer where
  "new_viewer = \<lparr>v_place = Spawned, v_sent = [], v_open = True\<rparr>"

definition set_stopping :: "proxy \<Rightarrow> proxy" where
  "set_stopping p = p\<lparr>p_slot := (p_slot p)\<lparr>sl_stopping := True\<rparr>\<rparr>"

text \<open>\<open>Proxy::stop\<close> up to the joins: the flag, the upstream, then every listed socket.\<close>

fun stop_step :: "proxy \<Rightarrow> proxy" where
  "stop_step p =
     (case p_stop p of
        NotCalled \<Rightarrow> (set_stopping p)\<lparr>p_stop := ShutUpstream\<rparr>
      | ShutUpstream \<Rightarrow> p\<lparr>p_cut := True, p_stop := ShutSockets\<rparr>
      | ShutSockets \<Rightarrow>
          p\<lparr>p_viewers := map (\<lambda>(vid, v). if vid \<in> set (p_sockets p) then v\<lparr>v_open := False\<rparr> else v)
               (enumerate 0 (p_viewers p)), p_stop := Joining\<rparr>
      | Joining \<Rightarrow> p)"

text \<open>
  The pump: open the stream; look at the flag; then publish the next frame, or end.
  \<open>broken\<close> is how a read ends that the shut socket interrupts.
\<close>

definition pump_ends :: "string option \<Rightarrow> proxy \<Rightarrow> proxy" where
  "pump_ends reason p = (set_stopping p)\<lparr>p_failure := reason, p_pump := PumpDone\<rparr>"

fun pump_step :: "nat \<Rightarrow> string option option \<Rightarrow> proxy \<Rightarrow> proxy" where
  "pump_step clock broken p =
     (case p_pump p of
        PumpOpen \<Rightarrow>
          (case broken of
             Some reason \<Rightarrow> pump_ends (Some (case reason of Some r \<Rightarrow> r | None \<Rightarrow> ''MJPEG upstream closed while reading headers'')) p
           | None \<Rightarrow>
               (case p_opening p of
                  Some reason \<Rightarrow> pump_ends (Some reason) p
                | None \<Rightarrow> p\<lparr>p_pump := PumpLook\<rparr>))
      | PumpLook \<Rightarrow> p\<lparr>p_pump := (if sl_stopping (p_slot p) then PumpDone else PumpRead)\<rparr>
      | PumpRead \<Rightarrow>
          (case broken of
             Some reason \<Rightarrow> pump_ends reason p
           | None \<Rightarrow>
               (case p_frames p of
                  frame # frames \<Rightarrow>
                    p\<lparr>p_slot := publish clock frame (p_slot p), p_frames := frames, p_pump := PumpLook,
                      p_published := p_published p @ [frame]\<rparr>
                | [] \<Rightarrow> pump_ends (p_end p) p))
      | PumpDone \<Rightarrow> p)"

text \<open>
  The accept loop: look at the flag; then a viewer, none yet (or one whose socket could not be
  set up), or an error, which ends the loop.
\<close>

datatype accepted = GotViewer | NoViewer | AcceptFailed

fun accept_step :: "accepted \<Rightarrow> proxy \<Rightarrow> proxy" where
  "accept_step outcome p =
     (case p_accept p of
        AcceptLook \<Rightarrow> p\<lparr>p_accept := (if sl_stopping (p_slot p) then AcceptDone else AcceptWait)\<rparr>
      | AcceptWait \<Rightarrow>
          (case outcome of
             GotViewer \<Rightarrow>
               p\<lparr>p_accept := AcceptLook, p_sockets := p_sockets p @ [length (p_viewers p)],
                 p_viewers := p_viewers p @ [new_viewer]\<rparr>
           | NoViewer \<Rightarrow> p\<lparr>p_accept := AcceptLook\<rparr>
           | AcceptFailed \<Rightarrow> p\<lparr>p_accept := AcceptDone\<rparr>)
      | AcceptDone \<Rightarrow> p)"

text \<open>A writer: \<open>ok\<close> is whether its next call on the socket succeeds.\<close>

definition set_viewer :: "nat \<Rightarrow> viewer \<Rightarrow> proxy \<Rightarrow> proxy" where
  "set_viewer vid v p = p\<lparr>p_viewers := (p_viewers p)[vid := v]\<rparr>"

abbreviation leave :: "viewer \<Rightarrow> viewer" where
  "leave v \<equiv> v\<lparr>v_place := Leaving, v_open := False\<rparr>"

fun writer_step :: "nat \<Rightarrow> bool \<Rightarrow> viewer \<Rightarrow> proxy \<Rightarrow> proxy" where
  "writer_step vid ok v p =
     (let s = p_slot p in case v_place v of
        Spawned \<Rightarrow> set_viewer vid (v\<lparr>v_place := Greeting\<rparr>) (p\<lparr>p_slot := s\<lparr>sl_writers := sl_writers s + 1\<rparr>\<rparr>)
      | Greeting \<Rightarrow> set_viewer vid (if ok then v\<lparr>v_place := Looking 0\<rparr> else leave v) p
      | Looking last_seq \<Rightarrow>
          (case next_frame last_seq s of
             Stopped \<Rightarrow> set_viewer vid (leave v) p
           | Fresh frame seq s' \<Rightarrow> set_viewer vid (v\<lparr>v_place := Writing seq frame\<rparr>) (p\<lparr>p_slot := s', p_taken := insert seq (p_taken p)\<rparr>)
           | NoneYet \<Rightarrow> p)
      | Writing last_seq frame \<Rightarrow>
          set_viewer vid (if ok then v\<lparr>v_place := Looking last_seq, v_sent := v_sent v @ [frame]\<rparr> else leave v) p
      | Leaving \<Rightarrow> set_viewer vid (v\<lparr>v_place := Unlisting\<rparr>) (p\<lparr>p_slot := s\<lparr>sl_writers := sl_writers s - 1\<rparr>\<rparr>)
      | Unlisting \<Rightarrow> set_viewer vid (v\<lparr>v_place := Gone\<rparr>) (p\<lparr>p_sockets := filter (\<lambda>i. i \<noteq> vid) (p_sockets p)\<rparr>)
      | Gone \<Rightarrow> p)"

text \<open>A socket that was shut down lets no call succeed.\<close>

inductive step :: "proxy \<Rightarrow> proxy \<Rightarrow> bool" where
  Pump: "(broken \<noteq> None \<Longrightarrow> p_cut p) \<Longrightarrow> step p (pump_step clock broken p)"
| Accept: "step p (accept_step outcome p)"
| Writer: "vid < length (p_viewers p) \<Longrightarrow> v = p_viewers p ! vid \<Longrightarrow> (ok \<Longrightarrow> v_open v) \<Longrightarrow>
    step p (writer_step vid ok v p)"
| Stop: "step p (stop_step p)"

inductive_cases stepE: "step p q"

inductive run :: "upstream \<Rightarrow> proxy \<Rightarrow> bool" for u where
  Start: "run u (proxy_of u)"
| Next: "run u p \<Longrightarrow> step p q \<Longrightarrow> run u q"

section \<open>The slot holds the newest frame of a history\<close>

definition represents :: "slot \<Rightarrow> string list \<Rightarrow> bool" where
  "represents s hist \<longleftrightarrow> sl_seq s = length hist \<and> sl_frame s = (if hist = [] then None else Some (last hist))"

text \<open>
  The same over a history that forgets nothing: a reader that has seen the first \<open>last_seq\<close>
  frames gets the newest one, if there is a newer one at all.
\<close>

definition newest :: "nat \<Rightarrow> string list \<Rightarrow> (string \<times> nat) option" where
  "newest last_seq hist = (if last_seq < length hist then Some (last hist, length hist) else None)"

lemma represents_new: "represents new_slot []"
  by (simp add: represents_def new_slot_def)

lemma represents_publish: "represents s hist \<Longrightarrow> represents (publish clock f s) (hist @ [f])"
  by (simp add: represents_def publish_def Let_def)

lemma represents_next: "represents s hist \<Longrightarrow> next_frame l s =
  (if sl_stopping s then Stopped else case newest l hist of
     Some (f, n) \<Rightarrow> Fresh f n (s\<lparr>sl_consumed := True\<rparr>) | None \<Rightarrow> NoneYet)"
  by (auto simp: represents_def next_frame_def newest_def)

section \<open>What every run keeps\<close>

definition counted :: "place \<Rightarrow> bool" where
  "counted pl \<longleftrightarrow> pl \<noteq> Spawned \<and> pl \<noteq> Unlisting \<and> pl \<noteq> Gone"

definition closing :: "place \<Rightarrow> bool" where
  "closing pl \<longleftrightarrow> pl \<in> {Leaving, Unlisting, Gone}"

text \<open>What a viewer may have got, with \<open>hist\<close> the frames published so far.\<close>

fun viewer_ok :: "string list \<Rightarrow> viewer \<Rightarrow> bool" where
  "viewer_ok hist v =
     ((closing (v_place v) \<longrightarrow> \<not> v_open v) \<and>
      (case v_place v of
         Looking l \<Rightarrow> l \<le> length hist \<and> subseq (v_sent v) (take l hist)
       | Writing l f \<Rightarrow> 0 < l \<and> l \<le> length hist \<and> f = hist ! (l - 1) \<and> subseq (v_sent v) (take (l - 1) hist)
       | Spawned \<Rightarrow> v_sent v = []
       | Greeting \<Rightarrow> v_sent v = []
       | _ \<Rightarrow> subseq (v_sent v) hist))"

definition places :: "proxy \<Rightarrow> place list" where
  "places p = map v_place (p_viewers p)"

definition wf_slot :: "proxy \<Rightarrow> bool" where
  "wf_slot p \<longleftrightarrow>
     represents (p_slot p) (p_published p) \<and>
     p_taken p \<subseteq> {1 .. sl_seq (p_slot p)} \<and>
     (0 < sl_seq (p_slot p) \<longrightarrow> (sl_consumed (p_slot p) \<longleftrightarrow> sl_seq (p_slot p) \<in> p_taken p)) \<and>
     sl_drops (p_slot p) + card (p_taken p) +
       (if sl_seq (p_slot p) = 0 \<or> sl_seq (p_slot p) \<in> p_taken p then 0 else 1) \<le> sl_seq (p_slot p)"

definition wf_writers :: "proxy \<Rightarrow> bool" where
  "wf_writers p \<longleftrightarrow>
     sl_writers (p_slot p) = length (filter counted (places p)) \<and>
     p_sockets p = filter (\<lambda>vid. places p ! vid \<noteq> Gone) [0 ..< length (places p)]"

definition wf_viewers :: "proxy \<Rightarrow> bool" where
  "wf_viewers p \<longleftrightarrow> list_all (viewer_ok (p_published p)) (p_viewers p)"

definition wf_ends :: "proxy \<Rightarrow> bool" where
  "wf_ends p \<longleftrightarrow> (p_pump p = PumpDone \<or> p_failure p \<noteq> None \<or> p_stop p \<noteq> NotCalled \<longrightarrow> sl_stopping (p_slot p))"

definition wf_proxy :: "proxy \<Rightarrow> bool" where
  "wf_proxy p \<longleftrightarrow> wf_slot p \<and> wf_writers p \<and> wf_viewers p \<and> wf_ends p"

lemmas wf_defs = wf_slot_def wf_writers_def wf_viewers_def wf_ends_def

lemma count_update: "i < length xs \<Longrightarrow>
  length (filter P (xs[i := x])) + (if P (xs ! i) then 1 else 0) = length (filter P xs) + (if P x then 1 else 0)"
proof (induction xs arbitrary: i)
  case (Cons y xs)
  then show ?case by (cases i) (use Cons.IH in \<open>fastforce split: if_splits\<close>)+
qed simp

lemma viewer_ok_publish: "viewer_ok hist v \<Longrightarrow> viewer_ok (hist @ [f]) v"
  by (auto simp: nth_append closing_def split: place.splits intro: list_emb_append2)

lemma wf_same:
  assumes "sl_seq (p_slot q) = sl_seq (p_slot p)" "sl_frame (p_slot q) = sl_frame (p_slot p)"
    "sl_consumed (p_slot q) = sl_consumed (p_slot p)" "sl_drops (p_slot q) = sl_drops (p_slot p)"
    "p_published q = p_published p" "p_taken q = p_taken p"
  shows "wf_slot q = wf_slot p"
  using assms by (simp add: wf_slot_def represents_def)

lemma wf_writers_same:
  assumes "sl_writers (p_slot q) = sl_writers (p_slot p)" "places q = places p" "p_sockets q = p_sockets p"
  shows "wf_writers q = wf_writers p"
  using assms by (simp add: wf_writers_def)

lemma new_proxy_wf: "wf_proxy (new_proxy opening frames ending)"
  by (simp add: wf_proxy_def wf_defs new_proxy_def represents_def new_slot_def places_def)

lemma proxy_of_wf: "wf_proxy (proxy_of u)"
  by (auto simp: proxy_of_def new_proxy_wf split: prod.splits sum.splits)

lemma set_stopping_parts:
  "wf_slot (set_stopping p) = wf_slot p" "wf_writers (set_stopping p) = wf_writers p" "wf_viewers (set_stopping p) = wf_viewers p"
  by (simp_all add: wf_slot_def wf_writers_def wf_viewers_def set_stopping_def represents_def places_def)

lemma pump_ends_wf: "wf_proxy p \<Longrightarrow> wf_proxy (pump_ends reason p)"
proof -
  assume "wf_proxy p"
  moreover have "wf_slot (pump_ends reason p) = wf_slot p" "wf_writers (pump_ends reason p) = wf_writers p" "wf_viewers (pump_ends reason p) = wf_viewers p"
    by (simp_all add: wf_slot_def wf_writers_def wf_viewers_def pump_ends_def set_stopping_def represents_def places_def)
  moreover have "wf_ends (pump_ends reason p)" by (simp add: wf_ends_def pump_ends_def set_stopping_def)
  ultimately show ?thesis by (simp add: wf_proxy_def)
qed

lemma pump_moves_wf:
  assumes "wf_proxy p" "pl \<noteq> PumpDone \<or> sl_stopping (p_slot p)"
  shows "wf_proxy (p\<lparr>p_pump := pl\<rparr>)"
proof -
  have "wf_slot (p\<lparr>p_pump := pl\<rparr>) = wf_slot p" "wf_writers (p\<lparr>p_pump := pl\<rparr>) = wf_writers p" "wf_viewers (p\<lparr>p_pump := pl\<rparr>) = wf_viewers p"
    by (simp_all add: wf_slot_def wf_writers_def wf_viewers_def places_def)
  moreover have "wf_ends (p\<lparr>p_pump := pl\<rparr>)" using assms by (auto simp: wf_ends_def wf_proxy_def)
  ultimately show ?thesis using assms(1) by (simp add: wf_proxy_def)
qed

lemma publish_wf:
  assumes "wf_proxy p"
  shows "wf_proxy (p\<lparr>p_slot := publish clock f (p_slot p), p_frames := fs, p_pump := PumpLook, p_published := p_published p @ [f]\<rparr>)"
    (is "wf_proxy ?q")
proof -
  let ?s = "p_slot p"
  from assms have sl: "wf_slot p" and v: "list_all (viewer_ok (p_published p)) (p_viewers p)" by (simp_all add: wf_proxy_def wf_viewers_def)
  have t: "sl_seq ?s + 1 \<notin> p_taken p" "finite (p_taken p)"
    using sl finite_subset by (auto simp: wf_slot_def)
  have "wf_slot ?q"
    unfolding wf_slot_def
  proof (intro conjI)
    show "represents (p_slot ?q) (p_published ?q)"
      using sl by (simp add: wf_slot_def represents_publish)
    show "p_taken ?q \<subseteq> {1 .. sl_seq (p_slot ?q)}" using sl by (auto simp: wf_slot_def publish_def Let_def)
    show "0 < sl_seq (p_slot ?q) \<longrightarrow> sl_consumed (p_slot ?q) = (sl_seq (p_slot ?q) \<in> p_taken ?q)"
      using t by (simp add: publish_def Let_def)
    show "sl_drops (p_slot ?q) + card (p_taken ?q) +
       (if sl_seq (p_slot ?q) = 0 \<or> sl_seq (p_slot ?q) \<in> p_taken ?q then 0 else 1) \<le> sl_seq (p_slot ?q)"
      using t sl by (auto simp: publish_def Let_def wf_slot_def split: if_splits)
  qed
  moreover have "wf_writers ?q = wf_writers p"
    by (intro wf_writers_same) (simp_all add: publish_def Let_def places_def)
  moreover have "wf_viewers ?q" using v by (auto simp: wf_viewers_def list_all_iff simp del: viewer_ok.simps intro: viewer_ok_publish)
  moreover have "wf_ends ?q" using assms by (auto simp: wf_ends_def wf_proxy_def publish_def Let_def)
  ultimately show ?thesis using assms by (simp add: wf_proxy_def)
qed

lemma pump_wf: "wf_proxy p \<Longrightarrow> wf_proxy (pump_step clock broken p)"
  by (auto simp del: viewer_ok.simps intro: pump_ends_wf pump_moves_wf publish_wf split: pump_place.splits option.splits list.splits)

lemma stop_wf: "wf_proxy p \<Longrightarrow> wf_proxy (stop_step p)"
proof -
  assume p: "wf_proxy p"
  have pl: "map v_place (map (\<lambda>(vid, v). if vid \<in> A then v\<lparr>v_open := False\<rparr> else v) (enumerate n vs)) = map v_place vs" for A n vs
    by (induction vs arbitrary: n) auto
  have ok: "list_all (viewer_ok h) vs \<Longrightarrow> list_all (viewer_ok h) (map (\<lambda>(vid, v). if vid \<in> A then v\<lparr>v_open := False\<rparr> else v) (enumerate n vs))" for h A n vs
    by (induction vs arbitrary: n) (auto split: place.splits)
  show ?thesis
  proof (cases "p_stop p")
    case NotCalled
    have "wf_slot (stop_step p) = wf_slot p" "wf_writers (stop_step p) = wf_writers p" "wf_viewers (stop_step p) = wf_viewers p"
      using NotCalled by (simp_all add: wf_slot_def wf_writers_def wf_viewers_def set_stopping_def represents_def places_def)
    with p NotCalled show ?thesis by (simp add: wf_proxy_def) (simp add: wf_ends_def set_stopping_def)
  next
    case ShutUpstream
    have "wf_slot (stop_step p) = wf_slot p" "wf_writers (stop_step p) = wf_writers p" "wf_viewers (stop_step p) = wf_viewers p"
      using ShutUpstream by (simp_all add: wf_slot_def wf_writers_def wf_viewers_def represents_def places_def)
    with p ShutUpstream show ?thesis by (simp add: wf_proxy_def) (simp add: wf_ends_def)
  next
    case ShutSockets
    have "wf_slot (stop_step p) = wf_slot p" using ShutSockets by (intro wf_same) simp_all
    moreover have "wf_writers (stop_step p) = wf_writers p"
      using ShutSockets by (intro wf_writers_same) (simp_all add: places_def pl del: map_map)
    moreover have "wf_viewers (stop_step p)"
      using ShutSockets p ok by (simp add: wf_viewers_def wf_proxy_def del: viewer_ok.simps)
    ultimately show ?thesis using p ShutSockets by (simp add: wf_proxy_def) (simp add: wf_ends_def)
  qed (use p in simp)
qed

lemma accept_wf: "wf_proxy p \<Longrightarrow> wf_proxy (accept_step outcome p)"
proof -
  assume p: "wf_proxy p"
  show ?thesis
  proof (cases "p_accept p = AcceptWait \<and> outcome = GotViewer")
    case True
    have "filter (\<lambda>i. (places p @ [Spawned]) ! i \<noteq> Gone) [0 ..< length (places p)] = filter (\<lambda>i. places p ! i \<noteq> Gone) [0 ..< length (places p)]"
      by (rule filter_cong) (auto simp: nth_append)
    then have "wf_writers (accept_step outcome p)"
      using p True by (auto simp: wf_proxy_def wf_writers_def places_def new_viewer_def counted_def nth_append)
    moreover have "wf_slot (accept_step outcome p) = wf_slot p" using True by (intro wf_same) simp_all
    moreover have "wf_viewers (accept_step outcome p)"
      using True p by (simp add: wf_viewers_def wf_proxy_def new_viewer_def closing_def)
    moreover have "wf_ends (accept_step outcome p)" using True p by (simp add: wf_ends_def wf_proxy_def)
    ultimately show ?thesis using p by (simp only: wf_proxy_def)
  next
    case False
    then have "wf_slot (accept_step outcome p) = wf_slot p" "wf_writers (accept_step outcome p) = wf_writers p"
      "wf_viewers (accept_step outcome p) = wf_viewers p" "wf_ends (accept_step outcome p) = wf_ends p"
      by (auto simp: wf_defs places_def simp del: viewer_ok.simps split: accept_place.splits accepted.splits)
    with p show ?thesis by (simp add: wf_proxy_def)
  qed
qed

lemma wf_set_viewer:
  assumes p: "wf_proxy p" and vid: "vid < length (p_viewers p)" "v_place (p_viewers p ! vid) \<noteq> Gone"
    and r: "p_viewers r = p_viewers p" "p_published r = p_published p"
    and n: "sl_writers (p_slot r) + (if counted (v_place (p_viewers p ! vid)) then 1 else 0) =
      sl_writers (p_slot p) + (if counted (v_place w) then 1 else 0)"
    and s: "p_sockets r = (if v_place w = Gone then filter (\<lambda>i. i \<noteq> vid) (p_sockets p) else p_sockets p)"
    and w: "viewer_ok (p_published p) w" and sl: "wf_slot r" and e: "wf_ends r"
  shows "wf_proxy (set_viewer vid w r)" (is "wf_proxy ?q")
proof -
  let ?q = "set_viewer vid w r"
  have q: "p_viewers ?q = (p_viewers p)[vid := w]" "p_published ?q = p_published p" "p_slot ?q = p_slot r"
    "p_sockets ?q = p_sockets r" "wf_slot ?q" "wf_ends ?q"
    using r sl e by (simp_all add: set_viewer_def wf_slot_def wf_ends_def)
  have pl: "places ?q = (places p)[vid := v_place w]" by (simp add: places_def q(1) map_update)
  have old: "places p ! vid = v_place (p_viewers p ! vid)" "vid < length (places p)" using vid by (simp_all add: places_def)
  have "sl_writers (p_slot ?q) = length (filter counted (places ?q))"
    using count_update [OF old(2), of counted "v_place w"] n p
    unfolding pl old(1) q(3) by (simp add: wf_proxy_def wf_writers_def split: if_splits)
  moreover have "p_sockets ?q = filter (\<lambda>i. places ?q ! i \<noteq> Gone) [0 ..< length (places ?q)]"
    using p vid old unfolding q(4) s pl
    by (auto simp: wf_proxy_def wf_writers_def nth_list_update intro!: filter_cong)
  moreover have "wf_viewers ?q"
    using p w set_update_subset_insert [of "p_viewers p" vid w]
    by (auto simp: wf_viewers_def wf_proxy_def list_all_iff q simp del: viewer_ok.simps)
  ultimately show ?thesis using q by (simp add: wf_proxy_def wf_writers_def)
qed

lemma taken_step:
  assumes p: "wf_slot p" and s: "next_frame l (p_slot p) = Fresh f n s'"
    and q: "p_slot q = s'" "p_published q = p_published p" "p_taken q = insert n (p_taken p)"
  shows "wf_slot q" and "sl_writers s' = sl_writers (p_slot p)" "sl_stopping s' = sl_stopping (p_slot p)"
    and "0 < n" "l < n" "n = length (p_published p)" "f = p_published p ! (n - 1)"
proof -
  let ?s = "p_slot p"
  have st: "l < sl_seq ?s" "f = the (sl_frame ?s)" "n = sl_seq ?s" "s' = ?s\<lparr>sl_consumed := True\<rparr>"
    using s by (auto simp: next_frame_def split: if_splits)
  then show "sl_writers s' = sl_writers ?s" "sl_stopping s' = sl_stopping ?s" "0 < n" "l < n" by auto
  have r: "sl_seq ?s = length (p_published p)" "sl_frame ?s = (if p_published p = [] then None else Some (last (p_published p)))"
    using p by (simp_all add: wf_slot_def represents_def)
  then show "n = length (p_published p)" "f = p_published p ! (n - 1)" using st by (auto simp: last_conv_nth)
  have fin: "finite (p_taken p)" using p finite_subset by (auto simp: wf_slot_def)
  show "wf_slot q"
    unfolding wf_slot_def q st(4)
  proof (intro conjI)
    show "represents (?s\<lparr>sl_consumed := True\<rparr>) (p_published p)" using r by (simp add: represents_def)
  qed (use p st(1,3) fin in \<open>auto simp: wf_slot_def card_insert_if insert_absorb split: if_splits\<close>)
qed

lemma subseq_take: "subseq xs (take k ys) \<Longrightarrow> subseq xs ys"
  by (metis subseq_order.trans prefix_imp_subseq take_is_prefix)

lemma writer_wf:
  assumes p: "wf_proxy p" and vid: "vid < length (p_viewers p)" and v: "v = p_viewers p ! vid" and o: "ok \<Longrightarrow> v_open v"
  shows "wf_proxy (writer_step vid ok v p)"
proof -
  have vo: "viewer_ok (p_published p) v"
    using p vid v by (simp add: wf_proxy_def wf_viewers_def list_all_length del: viewer_ok.simps)
  have sl: "wf_slot p" "wf_ends p" using p by (simp_all add: wf_proxy_def)
  have wr: "counted (v_place v) \<Longrightarrow> 0 < sl_writers (p_slot p)"
    using p vid v unfolding wf_proxy_def wf_writers_def places_def by (auto simp: filter_empty_conv)
  note set = wf_set_viewer [OF p vid, folded v]
  have slots: "wf_slot (p\<lparr>p_slot := (p_slot p)\<lparr>sl_writers := n\<rparr>\<rparr>)" "wf_ends (p\<lparr>p_slot := (p_slot p)\<lparr>sl_writers := n\<rparr>\<rparr>)"
    "wf_slot (p\<lparr>p_sockets := k\<rparr>)" "wf_ends (p\<lparr>p_sockets := k\<rparr>)" for n k
    using sl wf_same [of "p\<lparr>p_slot := (p_slot p)\<lparr>sl_writers := n\<rparr>\<rparr>" p] wf_same [of "p\<lparr>p_sockets := k\<rparr>" p]
    by (simp_all add: wf_ends_def)
  have leave: "counted (v_place v) \<Longrightarrow> wf_proxy (set_viewer vid (leave v) p)"
    using vo sl subseq_take by (intro set) (auto simp: counted_def closing_def split: place.splits)
  show ?thesis
  proof (cases "v_place v")
    case Spawned
    have "wf_proxy (set_viewer vid (v\<lparr>v_place := Greeting\<rparr>) (p\<lparr>p_slot := (p_slot p)\<lparr>sl_writers := sl_writers (p_slot p) + 1\<rparr>\<rparr>))"
      using vo Spawned by (intro set slots) (simp_all add: counted_def closing_def)
    with Spawned show ?thesis by (simp add: Let_def)
  next
    case Greeting
    have "wf_proxy (set_viewer vid (v\<lparr>v_place := Looking 0\<rparr>) p)"
      using vo Greeting sl by (intro set) (simp_all add: counted_def closing_def)
    with Greeting leave show ?thesis by (simp add: counted_def Let_def)
  next
    case (Looking l)
    show ?thesis
    proof (cases "next_frame l (p_slot p)")
      case Stopped
      with Looking leave show ?thesis by (simp add: counted_def Let_def)
    next
      case (Fresh f n s')
      let ?r = "p\<lparr>p_slot := s', p_taken := insert n (p_taken p)\<rparr>"
      have q: "p_slot ?r = s'" "p_published ?r = p_published p" "p_taken ?r = insert n (p_taken p)" by simp_all
      note t = taken_step [OF sl(1) Fresh q]
      have "subseq (v_sent v) (take l (take (n - 1) (p_published p)))"
        using vo Looking t(5) by (simp add: min_def)
      then have "subseq (v_sent v) (take (n - 1) (p_published p))" by (rule subseq_take)
      with t Looking vo sl(2) have "wf_proxy (set_viewer vid (v\<lparr>v_place := Writing n f\<rparr>) ?r)"
        by (intro set) (simp_all add: counted_def closing_def wf_ends_def)
      then show ?thesis using Looking Fresh by (simp add: Let_def)
    qed (use Looking p in \<open>simp add: Let_def\<close>)
  next
    case (Writing l f)
    have l: "0 < l" "l \<le> length (p_published p)" "f = p_published p ! (l - 1)" "subseq (v_sent v) (take (l - 1) (p_published p))"
      using vo Writing by simp_all
    then have "take l (p_published p) = take (l - 1) (p_published p) @ [f]"
      using take_Suc_conv_app_nth [of "l - 1" "p_published p"] by simp
    then have "subseq (v_sent v @ [f]) (take l (p_published p))" using l(4) by simp
    then have "wf_proxy (set_viewer vid (v\<lparr>v_place := Looking l, v_sent := v_sent v @ [f]\<rparr>) p)"
      using Writing l(2) sl by (intro set) (simp_all add: counted_def closing_def)
    with Writing leave show ?thesis by (simp add: counted_def Let_def)
  next
    case Leaving
    have "wf_proxy (set_viewer vid (v\<lparr>v_place := Unlisting\<rparr>) (p\<lparr>p_slot := (p_slot p)\<lparr>sl_writers := sl_writers (p_slot p) - 1\<rparr>\<rparr>))"
      using vo Leaving wr by (intro set slots) (simp_all add: counted_def closing_def)
    with Leaving show ?thesis by (simp add: Let_def)
  next
    case Unlisting
    have "wf_proxy (set_viewer vid (v\<lparr>v_place := Gone\<rparr>) (p\<lparr>p_sockets := filter (\<lambda>i. i \<noteq> vid) (p_sockets p)\<rparr>))"
      using vo Unlisting by (intro set slots) (simp_all add: counted_def closing_def)
    with Unlisting show ?thesis by (simp add: Let_def)
  qed (use p in \<open>simp add: Let_def\<close>)
qed

lemma step_wf: "step p q \<Longrightarrow> wf_proxy p \<Longrightarrow> wf_proxy q"
  by (induction rule: step.induct) (simp_all only: pump_wf accept_wf writer_wf stop_wf)

lemma run_wf: "run u p \<Longrightarrow> wf_proxy p"
  by (induction rule: run.induct) (simp_all only: proxy_of_wf step_wf)

section \<open>What viewers get, and how it ends\<close>

definition stream_frames :: "upstream \<Rightarrow> string list" where
  "stream_frames u = fst (snd (pump_upstream (\<lambda>n. False) u))"

lemma proxy_of_frames: "p_published (proxy_of u) @ p_frames (proxy_of u) = stream_frames u"
  by (auto simp: proxy_of_def stream_frames_def pump_upstream_def new_proxy_def split: prod.splits sum.splits)

lemma step_frames: "step p q \<Longrightarrow> p_published q @ p_frames q = p_published p @ p_frames p"
proof (induction rule: step.induct)
  case (Writer vid p v ok)
  show ?case by (auto simp: Let_def set_viewer_def split: place.splits look.splits)
next
  case (Accept p outcome)
  show ?case by (auto split: accept_place.splits accepted.splits)
next
  case (Stop p)
  show ?case by (auto simp: set_stopping_def split: stop_place.splits)
qed (auto simp: pump_ends_def set_stopping_def split: pump_place.splits option.splits list.splits)

lemma run_frames: "run u p \<Longrightarrow> p_published p @ p_frames p = stream_frames u"
  by (induction rule: run.induct) (simp_all only: proxy_of_frames step_frames)

lemma sent_published: "viewer_ok hist v \<Longrightarrow> subseq (v_sent v) hist"
  using subseq_take by (auto split: place.splits)

lemma viewer_at: "run u p \<Longrightarrow> vid < length (p_viewers p) \<Longrightarrow> viewer_ok (p_published p) (p_viewers p ! vid)"
  using run_wf by (auto simp: wf_proxy_def wf_viewers_def list_all_length simp del: viewer_ok.simps)

text \<open>
  C11. Whatever the interleaving, a viewer is sent frames of the device's stream in the order of
  the stream, none twice and none made up: a subsequence of what was published, which is a prefix
  of the stream. A writer that is on its way out has shut its viewer's socket.
\<close>

theorem viewers_see_the_stream:
  assumes "run u p" "vid < length (p_viewers p)" "v = p_viewers p ! vid"
  shows "subseq (v_sent v) (p_published p) \<and> prefix (p_published p) (stream_frames u) \<and>
    (v_place v \<in> {Leaving, Unlisting, Gone} \<longrightarrow> \<not> v_open v)"
proof (intro conjI impI)
  note ok = viewer_at [OF assms(1,2), folded assms(3)]
  show "subseq (v_sent v) (p_published p)" using ok by (rule sent_published)
  show "prefix (p_published p) (stream_frames u)" using run_frames [OF assms(1)] by (metis prefixI)
  show "\<not> v_open v" if "v_place v \<in> {Leaving, Unlisting, Gone}" using ok that by (auto simp: closing_def)
qed

text \<open>
  C28. The slot refines a history that forgets nothing: in every reachable state it holds the
  newest of the published frames under its number, and \<open>next\_frame\<close> answers what reading the whole
  history would: the newest frame if the reader has not seen it, and nothing else.
\<close>

theorem slot_refines_history:
  assumes "run u p"
  shows "represents (p_slot p) (p_published p) \<and>
    next_frame l (p_slot p) =
      (if sl_stopping (p_slot p) then Stopped
       else case newest l (p_published p) of
         Some (f, n) \<Rightarrow> Fresh f n ((p_slot p)\<lparr>sl_consumed := True\<rparr>)
       | None \<Rightarrow> NoneYet)"
  using represents_next run_wf [OF assms] by (simp add: wf_proxy_def wf_slot_def)


text \<open>How far the threads are from their end, once the stop flag is set.\<close>

fun place_left :: "place \<Rightarrow> nat" where
  "place_left Spawned = 6"
| "place_left Greeting = 5"
| "place_left (Writing l f) = 4"
| "place_left (Looking l) = 3"
| "place_left Leaving = 2"
| "place_left Unlisting = 1"
| "place_left Gone = 0"

definition pump_left :: "pump_place \<Rightarrow> nat" where
  "pump_left pl = (case pl of PumpOpen \<Rightarrow> 3 | PumpRead \<Rightarrow> 2 | PumpLook \<Rightarrow> 1 | PumpDone \<Rightarrow> 0)"

definition accept_left :: "accept_place \<Rightarrow> nat" where
  "accept_left pl = (case pl of AcceptWait \<Rightarrow> 8 | AcceptLook \<Rightarrow> 1 | AcceptDone \<Rightarrow> 0)"

definition stop_left :: "stop_place \<Rightarrow> nat" where
  "stop_left pl = (case pl of NotCalled \<Rightarrow> 3 | ShutUpstream \<Rightarrow> 2 | ShutSockets \<Rightarrow> 1 | Joining \<Rightarrow> 0)"

definition left_to_do :: "proxy \<Rightarrow> nat" where
  "left_to_do p = pump_left (p_pump p) + accept_left (p_accept p) + stop_left (p_stop p) + sum_list (map place_left (places p))"

lemmas left_defs = left_to_do_def pump_left_def accept_left_def stop_left_def places_def

lemma sum_update: "i < length xs \<Longrightarrow> sum_list (map w (xs[i := x])) + w (xs ! i) = sum_list (map w xs) + (w x :: nat)"
proof (induction xs arbitrary: i)
  case (Cons y xs)
  then show ?case by (cases i) fastforce+
qed simp

lemma writer_left:
  assumes "vid < length (p_viewers p)" "v = p_viewers p ! vid" "sl_stopping (p_slot p)"
  shows "v_place v = Gone \<and> writer_step vid ok v p = p \<or> left_to_do (writer_step vid ok v p) < left_to_do p"
proof -
  have s: "left_to_do (set_viewer vid w r) < left_to_do p"
    if "place_left (v_place w) < place_left (v_place v)" "p_viewers r = p_viewers p" "p_pump r = p_pump p"
      "p_accept r = p_accept p" "p_stop r = p_stop p" for w r
  proof -
    have "vid < length (places p)" "places p ! vid = v_place v" using assms(1,2) by (simp_all add: places_def)
    moreover have "places (set_viewer vid w r) = (places p)[vid := v_place w]"
      using that(2) by (simp add: places_def set_viewer_def map_update)
    moreover have "p_pump (set_viewer vid w r) = p_pump p" "p_accept (set_viewer vid w r) = p_accept p" "p_stop (set_viewer vid w r) = p_stop p"
      using that by (simp_all add: set_viewer_def)
    ultimately show ?thesis
      using sum_update [of vid "places p" place_left "v_place w"] that(1) by (simp add: left_to_do_def)
  qed
  show ?thesis
    using assms(3) by (cases "v_place v") (auto simp: Let_def next_frame_def intro!: s)
qed

lemma step_left: "step p q \<Longrightarrow> sl_stopping (p_slot p) \<Longrightarrow> q = p \<or> left_to_do q < left_to_do p"
proof (induction rule: step.induct)
  case (Writer vid p v ok)
  then show ?case using writer_left by blast
next
  case (Accept p outcome)
  then show ?case by (auto simp: left_defs new_viewer_def split: accept_place.splits accepted.splits)
next
  case (Stop p)
  have pl: "map v_place (map (\<lambda>(vid, v). if vid \<in> A then v\<lparr>v_open := False\<rparr> else v) (enumerate n vs)) = map v_place vs" for A n vs
    by (induction vs arbitrary: n) auto
  show ?case by (auto simp: left_defs set_stopping_def pl simp del: map_map split: stop_place.splits)
qed (auto simp: left_defs pump_ends_def set_stopping_def split: pump_place.splits option.splits list.splits)

lemma step_stopping: "step p q \<Longrightarrow> sl_stopping (p_slot p) \<Longrightarrow> sl_stopping (p_slot q)"
proof (induction rule: step.induct)
  case (Writer vid p v ok)
  then show ?case by (auto simp: Let_def set_viewer_def next_frame_def split: place.splits)
next
  case (Accept p outcome)
  then show ?case by (auto split: accept_place.splits accepted.splits)
next
  case (Stop p)
  then show ?case by (auto simp: set_stopping_def split: stop_place.splits)
qed (auto simp: pump_ends_def set_stopping_def publish_def Let_def split: pump_place.splits option.splits list.splits)

lemma idle_progress:
  assumes "sl_stopping (p_slot p)" "0 < left_to_do p"
  shows "\<exists>q. step p q \<and> left_to_do q < left_to_do p"
proof -
  have other: "q \<noteq> p \<Longrightarrow> step p q \<Longrightarrow> left_to_do q < left_to_do p" for q using step_left assms(1) by blast
  consider "p_pump p \<noteq> PumpDone" | "p_accept p \<noteq> AcceptDone" | "p_stop p \<noteq> Joining"
    | vid where "vid < length (p_viewers p)" "v_place (p_viewers p ! vid) \<noteq> Gone"
  proof -
    have "p_pump p \<noteq> PumpDone \<or> p_accept p \<noteq> AcceptDone \<or> p_stop p \<noteq> Joining \<or> 0 < sum_list (map place_left (places p))"
      using assms(2) by (auto simp: left_to_do_def pump_left_def accept_left_def stop_left_def)
    moreover have "\<exists>vid < length (p_viewers p). v_place (p_viewers p ! vid) \<noteq> Gone" if "0 < sum_list (map place_left (places p))"
    proof (rule ccontr)
      assume "\<not> ?thesis"
      then have "\<forall>v \<in> set (p_viewers p). v_place v = Gone" by (auto simp: in_set_conv_nth)
      then have "sum_list (map place_left (places p)) = 0" by (simp add: places_def)
      with that show False by simp
    qed
    ultimately show ?thesis using that by blast
  qed
  then show ?thesis
  proof cases
    case 1
    have "step p (pump_step 0 None p)" by (rule step.Pump) simp
    moreover have "p_pump (pump_step 0 None p) \<noteq> p_pump p"
      using 1 by (auto simp: pump_ends_def set_stopping_def split: pump_place.splits option.splits list.splits)
    then have "pump_step 0 None p \<noteq> p" by (rule contrapos_nn) (rule arg_cong)
    ultimately show ?thesis using other by blast
  next
    case 2
    have "step p (accept_step NoViewer p)" by (rule step.Accept)
    moreover have "accept_step NoViewer p \<noteq> p"
      using 2 by (auto dest: arg_cong [of _ _ p_accept] split: accept_place.splits if_splits)
    ultimately show ?thesis using other by blast
  next
    case 3
    have "step p (stop_step p)" by (rule step.Stop)
    moreover have "stop_step p \<noteq> p"
      using 3 by (auto simp: set_stopping_def dest: arg_cong [of _ _ p_stop] split: stop_place.splits)
    ultimately show ?thesis using other by blast
  next
    case (4 vid)
    have "step p (writer_step vid False (p_viewers p ! vid) p)" using 4(1) by (rule step.Writer) simp_all
    with writer_left [OF 4(1) refl assms(1), of False] 4(2) show ?thesis by blast
  qed
qed


text \<open>
  An error of \<open>accept\<close> other than would-block ends the accept loop and nothing tells: the proxy
  counts as alive with no failure, and no viewer is ever served in any continuation.
\<close>

theorem accept_failure_unnoticed:
  "\<exists>p. run u p \<and> is_alive (p_slot p) \<and> p_failure p = None \<and> p_pump p = PumpOpen \<and>
    {q. step\<^sup>*\<^sup>* p q} \<subseteq> {q. p_viewers q = []}"
proof -
  define p where "p = (proxy_of u)\<lparr>p_accept := AcceptDone\<rparr>"
  have a: "p_accept (proxy_of u) = AcceptLook" "p_slot (proxy_of u) = new_slot" "p_viewers (proxy_of u) = []"
    "p_failure (proxy_of u) = None" "p_pump (proxy_of u) = PumpOpen"
    by (auto simp: proxy_of_def new_proxy_def split: prod.splits sum.splits)
  have "step (proxy_of u) ((proxy_of u)\<lparr>p_accept := AcceptWait\<rparr>)"
    using step.Accept [of "proxy_of u" NoViewer] a by (simp add: new_slot_def)
  moreover have "step ((proxy_of u)\<lparr>p_accept := AcceptWait\<rparr>) p"
    using step.Accept [of "(proxy_of u)\<lparr>p_accept := AcceptWait\<rparr>" AcceptFailed] by (simp add: p_def)
  ultimately have r: "run u p" by (meson run.intros)
  have "p_viewers q = [] \<and> p_accept q = AcceptDone" if "step\<^sup>*\<^sup>* p q" for q
    using that
  proof (induction rule: rtranclp_induct)
    case base
    show ?case using a by (simp add: p_def)
  next
    case (step q r)
    from step(2,3) show ?case
      by (induction rule: step.induct)
        (auto simp: pump_ends_def set_stopping_def split: pump_place.splits option.splits list.splits stop_place.splits)
  qed
  with r a show ?thesis by (intro exI [of _ p]) (auto simp: p_def is_alive_def new_slot_def)
qed

section \<open>A short run, for the examples\<close>

definition demo_upstream :: upstream where
  "demo_upstream = \<lparr>up_clone = None, up_write = None,
     up_bytes = device_bytes ''BoundaryString'' ''Content-type: image/jpeg'' [''picture''], up_broken = None\<rparr>"

lemma demo_proxy: "proxy_of demo_upstream = new_proxy None [''picture''] None"
proof -
  have t: "token ''BoundaryString''" by (simp add: token_def is_ascii_alnum_def is_ascii_lower_def is_ascii_upper_def)
  have "pump_loop (\<lambda>n. False) None ''BoundaryString'' 0 (concat (map (part_of ''BoundaryString'' ''Content-type: image/jpeg'') [''picture''])) = ([''picture''], None)"
    using pump_loop_parts [OF t, of "''Content-type: image/jpeg''" "[''picture'']" "[]" 0 "\<lambda>n. False" 2 None]
    by (simp add: kind_line_def MAX_FRAME_BYTES_def)
  then show ?thesis
    unfolding proxy_of_def request_stream_def demo_upstream_def device_bytes_def
    by (simp only: upstream.simps option.case prod.case sum.case boundary_device [OF t] Let_def)
qed

definition demo_write :: "proxy \<Rightarrow> proxy" where
  "demo_write p = writer_step 0 True (p_viewers p ! 0) p"

definition demo_run :: proxy where
  "demo_run = demo_write (demo_write (demo_write (demo_write
     (pump_step 7 None (pump_step 0 None (pump_step 0 None
       (accept_step GotViewer (accept_step NoViewer (new_proxy None [''picture''] None)))))))))"

lemmas demo_simps = demo_write_def new_proxy_def new_slot_def new_viewer_def publish_def next_frame_def
  set_viewer_def Let_def

lemma demo_run_eq: "demo_run =
  \<lparr>p_slot = \<lparr>sl_frame = Some ''picture'', sl_seq = 1, sl_consumed = True, sl_drops = 0,
      sl_last_frame_at = Some 7, sl_stopping = False, sl_writers = 1\<rparr>,
   p_failure = None, p_sockets = [0], p_viewers = [\<lparr>v_place = Looking 1, v_sent = [''picture''], v_open = True\<rparr>],
   p_pump = PumpLook, p_accept = AcceptLook, p_stop = NotCalled, p_cut = False, p_opening = None, p_frames = [],
   p_end = None, p_published = [''picture''], p_taken = {1}\<rparr>"
  by (simp add: demo_run_def demo_simps)

lemma run_pump: "run u p \<Longrightarrow> run u (pump_step clock None p)"
  by (rule run.Next [OF _ step.Pump]) simp_all

lemma run_accept: "run u p \<Longrightarrow> run u (accept_step outcome p)"
  by (rule run.Next [OF _ step.Accept])

lemma run_demo_write: "run u p \<Longrightarrow> p_viewers p \<noteq> [] \<and> v_open (p_viewers p ! 0) \<Longrightarrow> run u (demo_write p)"
  unfolding demo_write_def by (erule run.Next, rule step.Writer) simp_all

lemma demo_runs: "run demo_upstream demo_run"
  unfolding demo_run_def
  by (intro run_demo_write run_pump run_accept) (use run.Start [of demo_upstream] in \<open>simp_all add: demo_proxy demo_simps\<close>)

theorem viewers_see_the_stream_witness:
  "subseq [''picture''] (p_published demo_run) \<and> prefix (p_published demo_run) (stream_frames demo_upstream)"
  using viewers_see_the_stream [OF demo_runs, of 0, OF _ refl] by (simp add: demo_run_eq)

theorem slot_refines_history_witness:
  "represents (p_slot demo_run) [''picture''] \<and> next_frame 1 (p_slot demo_run) = NoneYet"
  using slot_refines_history [OF demo_runs, of 1] by (simp add: demo_run_eq newest_def)



end
