(* ===== verification/IosSession.thy ===== *)
theory IosSession
  imports WdaClient MjpegSlot
begin

text \<open>
  The crate \<open>quadcontrol-ios\<close>, \<open>session.rs\<close>: the thread that owns the four child processes of
  an iOS session and the picture proxy. The children, their \<open>stderr\<close> readers and the ladder
  that ends them are those of \<open>OsModel\<close>, \<open>Supervision\<close> and \<open>ProcessLadder\<close>; the client of
  WebDriverAgent is \<open>WdaClient\<close>; the proxy is seen through its counters, which are those of
  \<open>MjpegSlot\<close>. All of them run on one clock.
\<close>

section \<open>Options and reports\<close>

definition IOS_SHUTDOWN_DEADLINE :: nat where "IOS_SHUTDOWN_DEADLINE = 7000"
definition DEFAULT_STATUS_BUDGET :: nat where "DEFAULT_STATUS_BUDGET = 60000"
definition IOS_STDERR_SETTLE_BUDGET :: nat where "IOS_STDERR_SETTLE_BUDGET = 200"
definition TUNNEL_READY_BUDGET :: nat where "TUNNEL_READY_BUDGET = 10000"
definition FORWARD_PORT_ATTEMPTS :: nat where "FORWARD_PORT_ATTEMPTS = 5"
definition FORWARD_SETTLE :: nat where "FORWARD_SETTLE = 300"
definition MJPEG_FPS :: nat where "MJPEG_FPS = 30"
definition MJPEG_QUALITY :: nat where "MJPEG_QUALITY = 30"
definition DEFAULT_TUNNEL_INFO_PORT :: nat where "DEFAULT_TUNNEL_INFO_PORT = 28100"

definition SIGNATURE_KEYWORDS :: "string list" where
  "SIGNATURE_KEYWORDS = [''signature'', ''certificate'', ''provisioning'', ''expired'', ''codesign'', ''ineligible'']"

definition NOT_INSTALLED_KEYWORDS :: "string list" where
  "NOT_INSTALLED_KEYWORDS =
     [''not installed'', ''notinstalled'', ''could not find'', ''no such bundle'', ''application not found'']"

record WdaIds =
  wi_bundle_id :: string
  wi_testrunner_id :: string
  wi_xctestconfig :: string

datatype LaunchMode =
    Launch string WdaIds "(string \<times> string) list"
  | Attach nat nat

record IosLaunchOptions =
  io_udid :: string
  io_mode :: LaunchMode
  io_tunnel_info_port :: nat
  io_tunnel_ready_budget :: nat
  io_status_budget :: nat

definition ios_launch_options :: "string \<Rightarrow> LaunchMode \<Rightarrow> IosLaunchOptions" where
  "ios_launch_options udid mode =
     \<lparr>io_udid = udid, io_mode = mode, io_tunnel_info_port = DEFAULT_TUNNEL_INFO_PORT,
      io_tunnel_ready_budget = TUNNEL_READY_BUDGET, io_status_budget = DEFAULT_STATUS_BUDGET\<rparr>"

datatype ChildKind = Tunnel | RunWda | ForwardHttp | ForwardMjpeg

fun child_label :: "ChildKind \<Rightarrow> string" where
  "child_label Tunnel = ''tunnel''"
| "child_label RunWda = ''runwda''"
| "child_label ForwardHttp = ''forward(8100)''"
| "child_label ForwardMjpeg = ''forward(9100)''"

datatype ExitReason = Requested | ChildExited ChildKind int | UpstreamClosed

datatype IosSessionStatus =
    IosStarting
  | IosRunning nat
  | IosStopping
  | IosExited ExitReason
  | IosFailed string

text \<open>\<open>contains\<close> on the lower-cased tail, the signature table first.\<close>

definition classify_child_failure :: "ChildKind \<Rightarrow> string \<Rightarrow> IosError" where
  "classify_child_failure kind tail =
     (let lower = to_ascii_lowercase tail in
      case kind of
        RunWda \<Rightarrow>
          (if list_ex (\<lambda>k. str_contains k lower) SIGNATURE_KEYWORDS
           then WdaSignatureExpired ''the WebDriverAgent signature is not valid; re-sign and reinstall it''
           else if list_ex (\<lambda>k. str_contains k lower) NOT_INSTALLED_KEYWORDS
           then WdaNotInstalled ''WebDriverAgent is not installed on the device''
           else WdaUnreachable ''`ios runwda` exited before WDA became ready'')
      | Tunnel \<Rightarrow> TunnelFailed ''`ios tunnel start` exited''
      | _ \<Rightarrow> ForwardFailed (''`ios '' @ child_label kind @ ''` exited''))"

section \<open>The world of the supervising thread\<close>

record sup_child =
  sc_kind :: ChildKind
  sc_session :: Session

text \<open>
  What the thread meets: the free ports it is given (or why not), the answers of the tunnel
  service at a moment (how long it takes, and the body of a success), the setup of the proxy's
  listener and its connection attempts (how long, and why refused), the proxy's counters and
  failure at a moment, and when its threads end after they were told to.
\<close>

datatype listener_error = BindError io_error | AddressError io_error | NonblockingError io_error

record outside =
  o_ports :: "nat \<Rightarrow> string + nat"
  o_tunnels :: "nat \<Rightarrow> nat \<times> string option"
  o_parse :: json_parser
  o_progress :: "nat \<Rightarrow> nat \<Rightarrow> nat"
  o_listen :: "listener_error + nat"
  o_connect :: "nat \<Rightarrow> nat \<times> string option"
  o_clone :: "io_error option"
  o_slot :: "nat \<Rightarrow> slot \<times> string option"
  o_joins :: "nat list"

text \<open>
  The state: \<open>w_proxy\<close> and \<open>w_client\<close> say whether there is a running proxy and a client handed
  out; \<open>w_status\<close> lists the statuses written, in order. \<open>w_ended\<close> is no state of the program: the
  children as they were when the list was cleared.
\<close>

record world =
  w_host :: host
  w_wda :: wda
  w_stop :: "nat \<Rightarrow> bool"
  w_out :: outside
  w_ports_taken :: nat
  w_children :: "sup_child list"
  w_proxy :: bool
  w_client :: bool
  w_stats :: FrameStats
  w_status :: "IosSessionStatus list"
  w_ended :: "sup_child list"

abbreviation w_clk :: "world \<Rightarrow> clock" where "w_clk w \<equiv> clk (w_host w)"

definition set_clk :: "clock \<Rightarrow> world \<Rightarrow> world" where
  "set_clk c w = w\<lparr>w_host := (w_host w)\<lparr>clk := c\<rparr>\<rparr>"

definition pause :: "nat \<Rightarrow> world \<Rightarrow> world" where
  "pause d w = set_clk (os_sleep d (w_clk w)) w"

text \<open>\<open>stop\_rx.try\_recv().is\_ok()\<close>, and a call of the client.\<close>

definition stop_polled :: "world \<Rightarrow> world \<times> bool" where
  "stop_polled w = (case poll_flag (w_stop w) (w_clk w) of (c, b) \<Rightarrow> (set_clk c w, b))"

definition with_client :: "(wda \<Rightarrow> wda \<times> 'a) \<Rightarrow> world \<Rightarrow> world \<times> 'a" where
  "with_client f w =
     (case f ((w_wda w)\<lparr>wd_clk := w_clk w\<rparr>) of (a, r) \<Rightarrow> (set_clk (wd_clk a) (w\<lparr>w_wda := a\<rparr>), r))"

section \<open>Children\<close>

definition child_tail :: "nat \<Rightarrow> clock \<Rightarrow> sup_child \<Rightarrow> clock \<times> string" where
  "child_tail budget c ch = stderr_tail_settled budget c (sc_session ch)"

definition spawn_child ::
  "ChildKind \<Rightarrow> string \<Rightarrow> string list \<Rightarrow> (string \<times> string) list \<Rightarrow> (string \<Rightarrow> IosError) \<Rightarrow> world \<Rightarrow>
   world \<times> (IosError + sup_child)" where
  "spawn_child kind ios args env wrap w =
     (case os_spawn_env ios env args (w_host w) of
        (h, r) \<Rightarrow> (w\<lparr>w_host := h\<rparr>,
          case r of
            Inl e \<Rightarrow> Inl (if io_kind e = KNotFound then IosNotFound ios
                        else wrap (''could not start `ios '' @ child_label kind @ ''`: '' @ io_text e))
          | Inr p \<Rightarrow> Inr \<lparr>sc_kind = kind, sc_session =
              \<lparr>sn_child = p, sn_progress = o_progress (w_out w) (length (issued h))\<rparr>\<rparr>))"

text \<open>
  The first child that has exited; the ones before it were looked at. Errors of \<open>try\_wait\<close> count
  as still running.
\<close>

fun first_exit :: "clock \<Rightarrow> sup_child list \<Rightarrow> sup_child list \<times> (sup_child \<times> int option) option" where
  "first_exit c [] = ([], None)"
| "first_exit c (ch # chs) =
     (case os_try_wait c (sn_child (sc_session ch)) of
        (p, r) \<Rightarrow>
          (let ch = ch\<lparr>sc_session := (sc_session ch)\<lparr>sn_child := p\<rparr>\<rparr> in
           case r of
             Inr (Some status) \<Rightarrow> (ch # chs, Some (ch, status))
           | _ \<Rightarrow> (case first_exit c chs of (chs, found) \<Rightarrow> (ch # chs, found))))"

definition look_for_exit :: "world \<Rightarrow> world \<times> (ChildKind \<times> int option \<times> string) option" where
  "look_for_exit w =
     (case first_exit (w_clk w) (w_children w) of
        (chs, None) \<Rightarrow> (w\<lparr>w_children := chs\<rparr>, None)
      | (chs, Some (ch, status)) \<Rightarrow>
          (case child_tail IOS_STDERR_SETTLE_BUDGET (w_clk w) ch of
             (c, tail) \<Rightarrow> (set_clk c (w\<lparr>w_children := chs\<rparr>), Some (sc_kind ch, status, tail))))"

definition first_child_failure :: "world \<Rightarrow> world \<times> IosError option" where
  "first_child_failure w =
     (case look_for_exit w of
        (w, found) \<Rightarrow> (w, map_option (\<lambda>(kind, _, tail). classify_child_failure kind tail) found))"

section \<open>Port forwarding\<close>

definition free_port :: "world \<Rightarrow> world \<times> (IosError + nat)" where
  "free_port w =
     (w\<lparr>w_ports_taken := w_ports_taken w + 1\<rparr>,
      mapErr (\<lambda>e. ForwardFailed (''could not reserve a local port: '' @ e)) (o_ports (w_out w) (w_ports_taken w)))"

text \<open>The loop that watches a new forwarder for \<open>FORWARD\_SETTLE\<close>: has it exited?\<close>

function forward_settle :: "nat \<Rightarrow> clock \<Rightarrow> proc \<Rightarrow> clock \<times> proc \<times> bool" where
  "forward_settle deadline c p =
     (if now c < deadline
      then case os_try_wait c p of
          (p, r) \<Rightarrow> if saw_exit r then (c, p, True) else forward_settle deadline (os_sleep 20 c) p
      else (c, p, False))"
  by pat_completeness auto
termination by (relation "measure (\<lambda>(deadline, c, p). deadline - now c)") auto

declare forward_settle.simps [simp del]

definition forward_args :: "IosLaunchOptions \<Rightarrow> nat \<Rightarrow> nat \<Rightarrow> string list" where
  "forward_args options local remote =
     [''forward'', ''--udid='' @ io_udid options, ''--tunnel-info-port='' @ show_nat (io_tunnel_info_port options),
      show_nat local, show_nat remote]"

fun spawn_forward_from ::
  "nat \<Rightarrow> string \<Rightarrow> ChildKind \<Rightarrow> nat \<Rightarrow> IosLaunchOptions \<Rightarrow> string \<Rightarrow> (string \<times> string) list \<Rightarrow> world \<Rightarrow>
   (world \<times> (IosError + nat)) option" where
  "spawn_forward_from 0 last_tail kind remote options ios env w =
     Some (w, Inl (ForwardFailed (''`ios '' @ child_label kind @ ''` could not bind a local port after '' @
       show_nat FORWARD_PORT_ATTEMPTS @ '' attempts: '' @ last_tail)))"
| "spawn_forward_from (Suc attempts) last_tail kind remote options ios env w =
     (case free_port w of
        (w, Inl e) \<Rightarrow> Some (w, Inl e)
      | (w, Inr local) \<Rightarrow>
          (case spawn_child kind ios (forward_args options local remote) env ForwardFailed w of
             (w, Inl e) \<Rightarrow> Some (w, Inl e)
           | (w, Inr ch) \<Rightarrow>
               (case forward_settle (now (w_clk w) + FORWARD_SETTLE) (w_clk w) (sn_child (sc_session ch)) of
                  (c, p, exited) \<Rightarrow>
                    (let ch = ch\<lparr>sc_session := (sc_session ch)\<lparr>sn_child := p\<rparr>\<rparr> in
                     if \<not> exited then Some ((set_clk c w)\<lparr>w_children := w_children w @ [ch]\<rparr>, Inr local)
                     else case child_tail IOS_STDERR_SETTLE_BUDGET c ch of
                         (c, tail) \<Rightarrow>
                           (case os_wait c p of
                              None \<Rightarrow> None
                            | Some (c, p, _) \<Rightarrow>
                                (let w = set_clk c w in
                                 if \<not> str_contains ''address already in use'' (to_ascii_lowercase tail)
                                 then Some (w, Inl (classify_child_failure kind tail))
                                 else spawn_forward_from attempts tail kind remote options ios env w))))))"

definition spawn_forward where
  "spawn_forward = spawn_forward_from FORWARD_PORT_ATTEMPTS []"

section \<open>Readiness\<close>

text \<open>
  A record of \<open>GET /tunnels\<close> as \<open>serde\<close> derives it: only \<open>udid\<close> must be there, the others may
  be missing or null, and none of them may come twice; an array is read by position. \<open>o_parse\<close>
  keeps the members of an object as they are written.
\<close>

record TunnelInfo =
  ti_udid :: string
  ti_rsd_port :: "nat option"
  ti_address :: "string option"
  ti_userspace_tun :: "bool option"
  ti_userspace_tun_port :: "nat option"

fun json_u16 :: "json \<Rightarrow> nat option" where
  "json_u16 (JNumber (PosInt n)) = (if n \<le> u16_max then Some n else None)"
| "json_u16 _ = None"

text \<open>An optional field: absent, null, or a value that must have the type.\<close>

definition opt_field :: "(json \<Rightarrow> 'a option) \<Rightarrow> json option \<Rightarrow> 'a option option" where
  "opt_field get v =
     (case v of None \<Rightarrow> Some None | Some JNull \<Rightarrow> Some None | Some j \<Rightarrow> map_option Some (get j))"

definition tunnel_fields ::
  "json option \<Rightarrow> json option \<Rightarrow> json option \<Rightarrow> json option \<Rightarrow> json option \<Rightarrow> TunnelInfo option" where
  "tunnel_fields udid rsd_port address userspace_tun userspace_tun_port =
     Option.bind (Option.bind udid json_str) (\<lambda>u.
     Option.bind (opt_field json_u16 rsd_port) (\<lambda>r.
     Option.bind (opt_field json_str address) (\<lambda>a.
     Option.bind (opt_field json_bool userspace_tun) (\<lambda>b.
     Option.bind (opt_field json_u16 userspace_tun_port) (\<lambda>p.
     Some \<lparr>ti_udid = u, ti_rsd_port = r, ti_address = a, ti_userspace_tun = b, ti_userspace_tun_port = p\<rparr>)))))"

definition nth_opt :: "'a list \<Rightarrow> nat \<Rightarrow> 'a option" where
  "nth_opt xs i = (if i < length xs then Some (xs ! i) else None)"

definition TUNNEL_FIELDS :: "string list" where
  "TUNNEL_FIELDS = [''udid'', ''rsdPort'', ''address'', ''userspaceTun'', ''userspaceTunPort'']"

fun tunnel_info :: "json \<Rightarrow> TunnelInfo option" where
  "tunnel_info (JObject fs) =
     (if \<not> distinct (filter (\<lambda>k. k \<in> set TUNNEL_FIELDS) (map fst fs)) then None else
     tunnel_fields (map_of fs ''udid'') (map_of fs ''rsdPort'') (map_of fs ''address'') (map_of fs ''userspaceTun'')
       (map_of fs ''userspaceTunPort''))"
| "tunnel_info (JArray xs) =
     (if 5 < length xs then None
      else tunnel_fields (nth_opt xs 0) (nth_opt xs 1) (nth_opt xs 2) (nth_opt xs 3) (nth_opt xs 4))"
| "tunnel_info _ = None"

definition parse_tunnels :: "json_parser \<Rightarrow> string \<Rightarrow> TunnelInfo list option" where
  "parse_tunnels parse body =
     (case parse body of
        Inl _ \<Rightarrow> None
      | Inr v \<Rightarrow> Option.bind (json_array v)
          (\<lambda>xs. those (map tunnel_info xs)))"

text \<open>The request is cut off after a second; no answer, an error status and no UTF-8 count as no.\<close>

definition tunnel_is_registered :: "string \<Rightarrow> world \<Rightarrow> world \<times> bool" where
  "tunnel_is_registered udid w =
     (let c = w_clk w; (d, body) = o_tunnels (w_out w) (now c);
          w = set_clk (c\<lparr>now := now c + min d 1000\<rparr>) w in
      (w, case body of
            None \<Rightarrow> False
          | Some body \<Rightarrow> d \<le> 1000 \<and>
              (case parse_tunnels (o_parse (w_out w)) body of
                 None \<Rightarrow> False
               | Some tunnels \<Rightarrow> list_ex (\<lambda>t. ti_udid t = udid) tunnels)))"

datatype Readiness = Ready | StopRequested

lemma set_clk_simps [simp]:
  "w_clk (set_clk c w) = c" "w_children (set_clk c w) = w_children w" "w_stop (set_clk c w) = w_stop w"
  "w_out (set_clk c w) = w_out w" "w_status (set_clk c w) = w_status w" "w_proxy (set_clk c w) = w_proxy w"
  "w_client (set_clk c w) = w_client w" "w_stats (set_clk c w) = w_stats w" "w_ended (set_clk c w) = w_ended w"
  "w_wda (set_clk c w) = w_wda w" "issued (w_host (set_clk c w)) = issued (w_host w)"
  "launch (w_host (set_clk c w)) = launch (w_host w)" "w_ports_taken (set_clk c w) = w_ports_taken w"
  by (simp_all add: set_clk_def)

lemma settle_clock: "now c \<le> now (settle d c s) \<and> lag (settle d c s) = lag c \<and> polls (settle d c s) = polls c"
proof (induction d c s rule: settle.induct)
  case (1 d c s)
  then show ?case by (auto simp: settle.simps [of d c s])
qed

lemma child_tail_clock: "child_tail budget c ch = (c', tail) \<Longrightarrow> now c \<le> now c' \<and> lag c' = lag c \<and> polls c' = polls c"
  using settle_clock by (auto simp: child_tail_def stderr_tail_settled_def Let_def)

lemma child_tail_time: "child_tail budget c ch = (c', tail) \<Longrightarrow> \<forall>t. lag c t \<le> J \<Longrightarrow> now c' \<le> now c + budget + 5 + J"
  using settle_props [of c J "now c + budget" "sc_session ch"]
  by (auto simp: child_tail_def stderr_tail_settled_def Let_def)

lemma look_for_exit_clock: "look_for_exit w = (w', r) \<Longrightarrow>
  now (w_clk w) \<le> now (w_clk w') \<and> lag (w_clk w') = lag (w_clk w) \<and> polls (w_clk w') = polls (w_clk w) \<and>
  (r = None \<longrightarrow> w_clk w' = w_clk w)"
  by (auto simp: look_for_exit_def split: prod.splits option.splits dest: child_tail_clock)

lemma first_child_failure_clock: "first_child_failure w = (w', r) \<Longrightarrow>
  now (w_clk w) \<le> now (w_clk w') \<and> lag (w_clk w') = lag (w_clk w) \<and> polls (w_clk w') = polls (w_clk w) \<and>
  (r = None \<longrightarrow> w_clk w' = w_clk w)"
  by (auto simp: first_child_failure_def split: prod.splits dest: look_for_exit_clock)

lemma stop_polled_simps: "stop_polled w = (w', b) \<Longrightarrow> w' = set_clk ((w_clk w)\<lparr>polls := Suc (polls (w_clk w))\<rparr>) w \<and> b = w_stop w (polls (w_clk w))"
  by (auto simp: stop_polled_def poll_flag_def)

lemma tunnel_clock: "tunnel_is_registered udid w = (w', b) \<Longrightarrow>
  now (w_clk w) \<le> now (w_clk w') \<and> now (w_clk w') \<le> now (w_clk w) + 1000 \<and> lag (w_clk w') = lag (w_clk w) \<and> polls (w_clk w') = polls (w_clk w)"
  by (auto simp: tunnel_is_registered_def Let_def split: prod.splits)

lemma pause_simps [simp]: "w_clk (pause d w) = os_sleep d (w_clk w)" "w_stop (pause d w) = w_stop w"
  "w_children (pause d w) = w_children w" "w_out (pause d w) = w_out w" "w_status (pause d w) = w_status w"
  "w_proxy (pause d w) = w_proxy w" "w_client (pause d w) = w_client w" "w_stats (pause d w) = w_stats w"
  "w_ended (pause d w) = w_ended w" "w_wda (pause d w) = w_wda w"
  by (simp_all add: pause_def)

function await_tunnel_from :: "nat \<Rightarrow> IosLaunchOptions \<Rightarrow> world \<Rightarrow> world \<times> (IosError + Readiness)" where
  "await_tunnel_from deadline options w =
     (case stop_polled w of
        (w, True) \<Rightarrow> (w, Inr StopRequested)
      | (w, False) \<Rightarrow>
          (case first_child_failure w of
             (w, Some e) \<Rightarrow> (w, Inl e)
           | (w, None) \<Rightarrow>
               (case tunnel_is_registered (io_udid options) w of
                  (w, True) \<Rightarrow> (w, Inr Ready)
                | (w, False) \<Rightarrow>
                    (if deadline \<le> now (w_clk w)
                     then (w, Inl (TunnelFailed (''device tunnel did not register within '' @
                       show_nat (io_tunnel_ready_budget options div 1000) @ '' s'')))
                     else await_tunnel_from deadline options (pause 100 w)))))"
  by pat_completeness auto
termination
  by (relation "measure (\<lambda>(deadline, options, w). deadline - now (w_clk w))")
    (auto dest!: stop_polled_simps [OF sym] first_child_failure_clock [OF sym] tunnel_clock [OF sym])

definition await_tunnel :: "IosLaunchOptions \<Rightarrow> world \<Rightarrow> world \<times> (IosError + Readiness)" where
  "await_tunnel options w = await_tunnel_from (now (w_clk w) + io_tunnel_ready_budget options) options w"

lemma with_client_clock: "with_client wda_status w = (w', r) \<Longrightarrow>
  now (w_clk w) \<le> now (w_clk w') \<and> now (w_clk w') \<le> now (w_clk w) + REQUEST_TIMEOUT \<and> lag (w_clk w') = lag (w_clk w) \<and> polls (w_clk w') = polls (w_clk w)"
  by (auto simp: with_client_def wda_status_def wda_get_def get_raw_def http_json_def http_send_def Let_def
      split: prod.splits http_answer.splits if_splits)

function await_status_from :: "nat \<Rightarrow> nat \<Rightarrow> world \<Rightarrow> world \<times> (IosError + Readiness)" where
  "await_status_from deadline budget w =
     (case stop_polled w of
        (w, True) \<Rightarrow> (w, Inr StopRequested)
      | (w, False) \<Rightarrow>
          (case first_child_failure w of
             (w, Some e) \<Rightarrow> (w, Inl e)
           | (w, None) \<Rightarrow>
               (case with_client wda_status w of
                  (w, Inr _) \<Rightarrow> (w, Inr Ready)
                | (w, Inl _) \<Rightarrow>
                    (if deadline \<le> now (w_clk w)
                     then (w, Inl (WdaUnreachable (''WDA did not answer /status within '' @ show_nat (budget div 1000) @ '' s'')))
                     else await_status_from deadline budget (pause 200 w)))))"
  by pat_completeness auto
termination
  by (relation "measure (\<lambda>(deadline, budget, w). deadline - now (w_clk w))")
    (auto dest!: stop_polled_simps [OF sym] first_child_failure_clock [OF sym] with_client_clock [OF sym])

definition await_status :: "nat \<Rightarrow> world \<Rightarrow> world \<times> (IosError + Readiness)" where
  "await_status budget w = await_status_from (now (w_clk w) + budget) budget w"

declare await_tunnel_from.simps [simp del] await_status_from.simps [simp del]

section \<open>The proxy\<close>

text \<open>\<open>connect\_upstream\<close> (\<open>mjpeg.rs\<close>): at least one attempt, none that starts after the deadline.\<close>

function connect_from :: "(nat \<Rightarrow> nat \<times> string option) \<Rightarrow> nat \<Rightarrow> nat \<Rightarrow> nat \<Rightarrow> clock \<Rightarrow> clock \<times> (IosError + unit)" where
  "connect_from connects port budget deadline c =
     (let (d, refused) = connects (now c); c = c\<lparr>now := now c + d\<rparr> in
      case refused of
        None \<Rightarrow> (c, Inr ())
      | Some e \<Rightarrow>
          (if deadline \<le> now c
           then (c, Inl (ProxyFailed (''MJPEG upstream port '' @ show_nat port @ '' did not accept a connection within '' @
                  show_nat (budget div 1000) @ '' s: '' @ e)))
           else connect_from connects port budget deadline (os_sleep 50 c)))"
  by pat_completeness auto
termination
  by (relation "measure (\<lambda>(connects, port, budget, deadline, c). deadline - now c)") auto

declare connect_from.simps [simp del]

definition connect_upstream :: "(nat \<Rightarrow> nat \<times> string option) \<Rightarrow> nat \<Rightarrow> nat \<Rightarrow> clock \<Rightarrow> clock \<times> (IosError + unit)" where
  "connect_upstream connects port budget c = connect_from connects port budget (now c + budget) c"

fun listener_error_text :: "listener_error \<Rightarrow> string" where
  "listener_error_text (BindError e) = ''MJPEG proxy could not bind: '' @ io_text e"
| "listener_error_text (AddressError e) = ''MJPEG proxy has no local address: '' @ io_text e"
| "listener_error_text (NonblockingError e) = ''MJPEG proxy listener: '' @ io_text e"

definition proxy_start :: "nat \<Rightarrow> world \<Rightarrow> world \<times> (IosError + nat)" where
  "proxy_start upstream_port w =
     (case o_listen (w_out w) of
        Inl e \<Rightarrow> (w, Inl (ProxyFailed (listener_error_text e)))
      | Inr local_port \<Rightarrow>
          (case connect_upstream (o_connect (w_out w)) upstream_port UPSTREAM_CONNECT_BUDGET (w_clk w) of
             (c, Inl e) \<Rightarrow> (set_clk c w, Inl e)
           | (c, Inr _) \<Rightarrow>
               (set_clk c w,
                case o_clone (w_out w) of
                  Some e \<Rightarrow> Inl (ProxyFailed (''MJPEG upstream clone failed: '' @ io_text e))
                | None \<Rightarrow> Inr local_port)))"

text \<open>
  The joins of \<open>Proxy::stop\<close>: no join starts once \<open>JOIN\_BUDGET\<close> is over; the threads end the given
  times after they were told.
\<close>

fun join_threads :: "nat \<Rightarrow> nat \<Rightarrow> clock \<Rightarrow> nat list \<Rightarrow> clock" where
  "join_threads told deadline c [] = c"
| "join_threads told deadline c (d # ds) =
     (if deadline \<le> now c then c else join_threads told deadline (c\<lparr>now := max (now c) (told + d)\<rparr>) ds)"

definition proxy_stop :: "world \<Rightarrow> world" where
  "proxy_stop w =
     (let c = w_clk w in set_clk (join_threads (now c) (now c + JOIN_BUDGET) c (o_joins (w_out w))) w)"

section \<open>The session\<close>

text \<open>The \<open>?\<close> of a step that may fail or not return.\<close>

definition then_w :: "(world \<times> ('e + 'a)) option \<Rightarrow> ('a \<Rightarrow> world \<Rightarrow> (world \<times> ('e + 'b)) option) \<Rightarrow> (world \<times> ('e + 'b)) option" where
  "then_w x f = (case x of None \<Rightarrow> None | Some (w, Inl e) \<Rightarrow> Some (w, Inl e) | Some (w, Inr a) \<Rightarrow> f a w)"

definition push_child :: "world \<times> (IosError + sup_child) \<Rightarrow> world \<times> (IosError + unit)" where
  "push_child x =
     (case x of (w, Inl e) \<Rightarrow> (w, Inl e) | (w, Inr ch) \<Rightarrow> (w\<lparr>w_children := w_children w @ [ch]\<rparr>, Inr ()))"

text \<open>Running: until a stop request, the end of the pictures, or the exit of a child.\<close>

definition run_step :: "world \<Rightarrow> world \<times> (IosError + ExitReason) option" where
  "run_step w =
     (case stop_polled w of
        (w, True) \<Rightarrow> (w, Some (Inr Requested))
      | (w, False) \<Rightarrow>
          (let (s, failure) = o_slot (w_out w) (now (w_clk w));
               w = (if w_proxy w then w\<lparr>w_stats := stats s\<rparr> else w) in
           if w_proxy w \<and> failure \<noteq> None then (w, Some (Inl (ProxyFailed (the failure))))
           else if w_proxy w \<and> \<not> is_alive s then (w, Some (Inr UpstreamClosed))
           else case look_for_exit w of
               (w, Some (kind, status, tail)) \<Rightarrow> (w, Some (Inr (ChildExited kind (code_or 1 status))))
             | (w, None) \<Rightarrow> (w, None)))"

partial_function (option) run_until_stop :: "world \<Rightarrow> (world \<times> (IosError + ExitReason)) option" where
  "run_until_stop w =
     (let x = run_step w in
      case snd x of Some r \<Rightarrow> Some (fst x, r) | None \<Rightarrow> run_until_stop (pause 50 (fst x)))"

definition serve :: "nat \<Rightarrow> nat \<Rightarrow> IosLaunchOptions \<Rightarrow> world \<Rightarrow> (world \<times> (IosError + ExitReason)) option" where
  "serve http_port mjpeg_port options w =
     (let w = w\<lparr>w_wda := wda_new http_port (w_wda w)\<rparr> in
      then_w (Some (await_status (io_status_budget options) w)) (\<lambda>r w.
      if r = StopRequested then Some (w, Inr Requested) else
      then_w (Some (with_client create_session w)) (\<lambda>_ w.
      then_w (Some (with_client (configure_mjpeg MJPEG_FPS MJPEG_QUALITY) w)) (\<lambda>_ w.
      then_w (Some (proxy_start mjpeg_port w)) (\<lambda>proxy_port w.
      run_until_stop (w\<lparr>w_proxy := True, w_client := True, w_status := w_status w @ [IosRunning proxy_port]\<rparr>))))))"

definition tunnel_args :: "IosLaunchOptions \<Rightarrow> string list" where
  "tunnel_args options =
     [''tunnel'', ''start'', ''--userspace'', ''--udid='' @ io_udid options,
      ''--tunnel-info-port='' @ show_nat (io_tunnel_info_port options)]"

definition runwda_args :: "IosLaunchOptions \<Rightarrow> WdaIds \<Rightarrow> string list" where
  "runwda_args options ids =
     [''runwda'', ''--udid='' @ io_udid options, ''--tunnel-info-port='' @ show_nat (io_tunnel_info_port options),
      ''--bundleid='' @ wi_bundle_id ids, ''--testrunnerbundleid='' @ wi_testrunner_id ids,
      ''--xctestconfig='' @ wi_xctestconfig ids]"

definition start_session :: "IosLaunchOptions \<Rightarrow> world \<Rightarrow> (world \<times> (IosError + ExitReason)) option" where
  "start_session options w =
     (case io_mode options of
        Attach http_port mjpeg_port \<Rightarrow> serve http_port mjpeg_port options w
      | Launch ios ids env \<Rightarrow>
          then_w (Some (push_child (spawn_child Tunnel ios (tunnel_args options) env TunnelFailed w))) (\<lambda>_ w.
          then_w (Some (await_tunnel options w)) (\<lambda>r w.
          if r = StopRequested then Some (w, Inr Requested) else
          then_w (Some (push_child (spawn_child RunWda ios (runwda_args options ids) env WdaUnreachable w))) (\<lambda>_ w.
          then_w (spawn_forward ForwardHttp 8100 options ios env w) (\<lambda>http_port w.
          then_w (spawn_forward ForwardMjpeg 9100 options ios env w) (\<lambda>mjpeg_port w.
          serve http_port mjpeg_port options w))))))"

section \<open>Shutting down\<close>

fun reap_all :: "clock \<Rightarrow> proc list \<Rightarrow> (clock \<times> proc list) option" where
  "reap_all c [] = Some (c, [])"
| "reap_all c (p # ps) =
     (case os_wait c p of
        None \<Rightarrow> None
      | Some (c, p, _) \<Rightarrow> (case reap_all c ps of None \<Rightarrow> None | Some (c, ps) \<Rightarrow> Some (c, p # ps)))"

definition all_drained :: "clock \<Rightarrow> sup_child list \<Rightarrow> bool" where
  "all_drained c chs \<longleftrightarrow>
     list_all (\<lambda>ch. reader_ended (sn_progress (sc_session ch)) (now c) (sn_child (sc_session ch))) chs"

text \<open>One budget for all the readers.\<close>

function settle_all :: "nat \<Rightarrow> clock \<Rightarrow> sup_child list \<Rightarrow> clock" where
  "settle_all deadline c chs =
     (if now c < deadline \<and> \<not> all_drained c chs then settle_all deadline (os_sleep 5 c) chs else c)"
  by pat_completeness auto
termination by (relation "measure (\<lambda>(deadline, c, chs). deadline - now c)") auto

declare settle_all.simps [simp del]

definition child_procs :: "sup_child list \<Rightarrow> proc list" where
  "child_procs chs = map (\<lambda>ch. sn_child (sc_session ch)) chs"

definition with_procs :: "proc list \<Rightarrow> sup_child list \<Rightarrow> sup_child list" where
  "with_procs ps chs = map2 (\<lambda>p ch. ch\<lparr>sc_session := (sc_session ch)\<lparr>sn_child := p\<rparr>\<rparr>) ps chs"

text \<open>Steps 1 and 2 of \<open>shutdown\<close>: the proxy, then the session on the device.\<close>

definition close_links :: "world \<Rightarrow> world" where
  "close_links w =
     (let w = w\<lparr>w_status := w_status w @ [IosStopping]\<rparr>;
          w = (if w_proxy w
               then proxy_stop (w\<lparr>w_proxy := False, w_stats := stats (fst (o_slot (w_out w) (now (w_clk w))))\<rparr>)
               else w)
      in if w_client w then fst (with_client delete_session (w\<lparr>w_client := False\<rparr>)) else w)"

definition ios_shutdown :: "world \<Rightarrow> world option" where
  "ios_shutdown w =
     (let w = close_links w in
      case (if w_children w = [] then Some (w_clk w, [], Inr ())
            else terminate_all_unix (child_procs (w_children w)) (\<lambda>_. False) (w_clk w)) of
        None \<Rightarrow> None
      | Some (c, ps, _) \<Rightarrow>
          (case reap_all c ps of
             None \<Rightarrow> None
           | Some (c, ps) \<Rightarrow>
               (let chs = with_procs ps (w_children w);
                    c = settle_all (now c + IOS_STDERR_SETTLE_BUDGET) c chs
                in Some ((set_clk c w)\<lparr>w_children := [], w_ended := w_ended w @ chs\<rparr>))))"

definition ios_supervise :: "IosLaunchOptions \<Rightarrow> world \<Rightarrow> world option" where
  "ios_supervise options w =
     (case start_session options w of
        None \<Rightarrow> None
      | Some (w, outcome) \<Rightarrow>
          (case ios_shutdown w of
             None \<Rightarrow> None
           | Some w \<Rightarrow>
               Some (w\<lparr>w_status := w_status w @
                 [case outcome of Inl e \<Rightarrow> IosFailed (ios_error_code e) | Inr reason \<Rightarrow> IosExited reason]\<rparr>)))"

section \<open>Handles\<close>

type_synonym IosSessionHandle = "IosSessionStatus handle"

text \<open>
  \<open>spawn\_supervised\<close> up to the new thread: the checks that come before any child, then the
  handle. The thread then runs \<open>ios_supervise\<close>.
\<close>

definition ios_spawn_supervised ::
  "bool \<Rightarrow> (nat \<Rightarrow> bool) \<Rightarrow> json_parser \<Rightarrow> IosLaunchOptions \<Rightarrow> nat \<Rightarrow> (nat option \<Rightarrow> (nat \<times> bool) option) \<Rightarrow> host \<Rightarrow>
   (host \<times> (IosError + IosSessionHandle)) option" where
  "ios_spawn_supervised windows port_is_free parse options ident finish h =
     (let handle = \<lparr>h_id = ident, h_status = IosStarting, h_stop = None, h_done = finish, h_taken = False\<rparr> in
      case io_mode options of
        Attach _ _ \<Rightarrow> Some (h, Inr handle)
      | Launch ios _ _ \<Rightarrow>
          (if windows then Some (h, Inl WindowsSessionUnsupported)
           else case check_version parse ios h of
               None \<Rightarrow> None
             | Some (h, Inl e) \<Rightarrow> Some (h, Inl e)
             | Some (h, Inr _) \<Rightarrow>
                 (if \<not> port_is_free (io_tunnel_info_port options)
                  then Some (h, Inl (TunnelPortBusy (io_tunnel_info_port options)))
                  else Some (h, Inr handle))))"

definition ios_request_stop :: "clock \<Rightarrow> IosSessionHandle \<Rightarrow> IosSessionHandle \<times> (IosError + unit)" where
  "ios_request_stop c h = (send_stop c h, Inr ())"

fun ios_await_done :: "nat \<Rightarrow> clock \<Rightarrow> IosSessionHandle list \<Rightarrow> clock \<times> IosSessionHandle list \<times> nat list" where
  "ios_await_done deadline_at c [] = (c, [], [])"
| "ios_await_done deadline_at c (h # hs) =
     (case recv_done (deadline_at - now c) c h of (c, h, done) \<Rightarrow>
      case ios_await_done deadline_at c hs of (c, hs, timed_out) \<Rightarrow>
        (c, h # hs, if done then timed_out else h_id h # timed_out))"

definition ios_shutdown_all :: "IosSessionHandle list \<Rightarrow> nat \<Rightarrow> clock \<Rightarrow> clock \<times> IosSessionHandle list \<times> nat list" where
  "ios_shutdown_all handles deadline c =
     (let handles = map (\<lambda>h. fst (ios_request_stop c h)) handles
      in ios_await_done (now c + deadline) c handles)"

interpretation ios_batch: batch_shutdown ios_shutdown_all ios_await_done
  by unfold_locales (simp_all add: ios_shutdown_all_def ios_request_stop_def)

section \<open>What every step keeps\<close>

definition waitable :: "sup_child \<Rightarrow> bool" where
  "waitable ch \<longleftrightarrow> wait_err (sn_child (sc_session ch)) = None"

text \<open>All children can be waited for, those to come included.\<close>

definition healthy :: "world \<Rightarrow> bool" where
  "healthy w \<longleftrightarrow> list_all waitable (w_children w) \<and>
     (\<forall>i path env args p. launch (w_host w) i path env args = Inr p \<longrightarrow> wait_err p = None)"

text \<open>A step between two worlds: no status written, no child cleared, time and polls go on.\<close>

definition goes :: "world \<Rightarrow> world \<Rightarrow> bool" where
  "goes w w' \<longleftrightarrow> w_status w' = w_status w \<and> w_ended w' = w_ended w \<and> w_stop w' = w_stop w \<and> w_out w' = w_out w \<and>
     lag (w_clk w') = lag (w_clk w) \<and> now (w_clk w) \<le> now (w_clk w') \<and> (healthy w \<longrightarrow> healthy w')"

lemma goes_refl [simp]: "goes w w" by (simp add: goes_def)

lemma goes_trans: "goes u v \<Longrightarrow> goes v w \<Longrightarrow> goes u w" by (auto simp: goes_def)

lemma goes_set_clk: "now (w_clk w) \<le> now c \<Longrightarrow> lag c = lag (w_clk w) \<Longrightarrow> goes w (set_clk c w)"
  by (simp add: goes_def healthy_def)

lemma goes_pause: "goes w (pause d w)"
  unfolding pause_def by (rule goes_set_clk) simp_all

lemma goes_stop: "stop_polled w = (w', b) \<Longrightarrow> goes w w'"
  by (auto dest!: stop_polled_simps intro!: goes_set_clk)

lemma first_exit_keeps: "first_exit c chs = (chs', r) \<Longrightarrow> list_all waitable chs \<Longrightarrow> list_all waitable chs'"
proof (induction chs arbitrary: chs' r)
  case (Cons ch chs)
  obtain p x where t: "os_try_wait c (sn_child (sc_session ch)) = (p, x)" by (cases "os_try_wait c (sn_child (sc_session ch))")
  have "wait_err p = wait_err (sn_child (sc_session ch))" using t by (metis fst_conv os_try_wait_frame(3))
  with Cons t show ?case by (cases x rule: wait_result_cases) (auto simp: waitable_def Let_def split: prod.splits)
qed simp

lemma goes_look: "look_for_exit w = (w', r) \<Longrightarrow> goes w w'"
proof -
  assume l: "look_for_exit w = (w', r)"
  obtain chs x where f: "first_exit (w_clk w) (w_children w) = (chs, x)" by (cases "first_exit (w_clk w) (w_children w)")
  have g: "goes w (w\<lparr>w_children := chs\<rparr>)" using first_exit_keeps [OF f] by (simp add: goes_def healthy_def)
  show ?thesis
  proof (cases x)
    case None
    with l f g show ?thesis by (simp add: look_for_exit_def)
  next
    case (Some y)
    obtain ch st c tail where y: "y = (ch, st)" "child_tail IOS_STDERR_SETTLE_BUDGET (w_clk w) ch = (c, tail)"
      by (metis surj_pair)
    have "goes (w\<lparr>w_children := chs\<rparr>) (set_clk c (w\<lparr>w_children := chs\<rparr>))"
      using child_tail_clock [OF y(2)] by (intro goes_set_clk) simp_all
    with g l f Some y show ?thesis by (auto simp: look_for_exit_def intro: goes_trans)
  qed
qed

lemma goes_failure: "first_child_failure w = (w', r) \<Longrightarrow> goes w w'"
  by (auto simp: first_child_failure_def split: prod.splits dest: goes_look)

lemma goes_tunnel: "tunnel_is_registered udid w = (w', b) \<Longrightarrow> goes w w'"
  by (auto simp: tunnel_is_registered_def Let_def split: prod.splits intro!: goes_set_clk)

text \<open>
  The contract of the two waits of the start-up: each round looks for a stop request, for a
  child that has died, and for what it waits for, before it looks at the deadline.
\<close>

locale startup_wait =
  fixes wait :: "nat \<Rightarrow> world \<Rightarrow> world \<times> (IosError + Readiness)"
    and ready :: "world \<Rightarrow> world \<times> bool"
    and expired :: IosError and delay :: nat and cost :: nat
  assumes wait_eq: "wait deadline w =
      (case stop_polled w of
         (w, True) \<Rightarrow> (w, Inr StopRequested)
       | (w, False) \<Rightarrow>
           (case first_child_failure w of
              (w, Some e) \<Rightarrow> (w, Inl e)
            | (w, None) \<Rightarrow>
                (case ready w of
                   (w, True) \<Rightarrow> (w, Inr Ready)
                 | (w, False) \<Rightarrow>
                     (if deadline \<le> now (w_clk w) then (w, Inl expired) else wait deadline (pause delay w)))))"
    and ready_goes: "ready w = (w', b) \<Longrightarrow>
      goes w w' \<and> polls (w_clk w') = polls (w_clk w) \<and> now (w_clk w') \<le> now (w_clk w) + cost"
    and delay_pos: "0 < delay"
begin

text \<open>One round: it ends the wait, or the wait goes on from a later moment.\<close>

lemma wait_round:
  obtains (stop) w1 where "wait deadline w = (w1, Inr StopRequested)" "goes w w1" "w_stop w (polls (w_clk w))"
      "now (w_clk w1) = now (w_clk w)"
  | (ended) w1 r where "wait deadline w = (w1, r)" "goes w w1" "\<not> w_stop w (polls (w_clk w))"
      "polls (w_clk w1) = Suc (polls (w_clk w))" "r \<noteq> Inr StopRequested"
      "\<forall>J. (\<forall>t. lag (w_clk w) t \<le> J) \<longrightarrow> now (w_clk w1) \<le> now (w_clk w) + IOS_STDERR_SETTLE_BUDGET + 5 + J + cost"
  | (again) w1 where "wait deadline w = wait deadline (pause delay w1)" "goes w w1" "\<not> w_stop w (polls (w_clk w))"
      "polls (w_clk w1) = Suc (polls (w_clk w))" "now (w_clk w1) < deadline"
proof -
  obtain w1 s where s: "stop_polled w = (w1, s)" by (cases "stop_polled w")
  note p1 = stop_polled_simps [OF s] and g1 = goes_stop [OF s]
  obtain w2 f where f: "first_child_failure w1 = (w2, f)" by (cases "first_child_failure w1")
  note p2 = first_child_failure_clock [OF f] and g2 = goes_trans [OF g1 goes_failure [OF f]]
  obtain w3 b where t: "ready w2 = (w3, b)" by (cases "ready w2")
  note p3 = ready_goes [OF t] and g3 = goes_trans [OF g2 conjunct1 [OF ready_goes [OF t]]]
  have n1: "now (w_clk w1) = now (w_clk w)" "lag (w_clk w1) = lag (w_clk w)" "polls (w_clk w1) = Suc (polls (w_clk w))"
    using p1 by auto
  have fj: "now (w_clk w2) \<le> now (w_clk w) + IOS_STDERR_SETTLE_BUDGET + 5 + J" if "\<forall>t. lag (w_clk w) t \<le> J" for J
    using f n1 that child_tail_time [of IOS_STDERR_SETTLE_BUDGET "w_clk w1" _ _ _ J]
    by (auto simp: first_child_failure_def look_for_exit_def split: prod.splits option.splits)
  consider (a) s | (b) e where "\<not> s" "f = Some e" | (c) "\<not> s" "f = None" b | (d) "\<not> s" "f = None" "\<not> b" "deadline \<le> now (w_clk w3)"
    | (e) "\<not> s" "f = None" "\<not> b" "now (w_clk w3) < deadline" by (metis (full_types) not_le option.exhaust)
  then show thesis
  proof cases
    case a
    with s p1 n1 g1 show thesis by (intro stop [of w1]) (auto simp: wait_eq [of deadline w])
  next
    case (b e)
    have "now (w_clk w2) \<le> now (w_clk w) + IOS_STDERR_SETTLE_BUDGET + 5 + J + cost" if "\<forall>t. lag (w_clk w) t \<le> J" for J
      using fj [OF that] by simp
    with b s f p1 p2 n1 g2 show thesis by (intro ended [of w2 "Inl e"]) (auto simp: wait_eq [of deadline w])
  next
    case c
    with s f t p1 p2 p3 n1 g3 show thesis by (intro ended [of w3 "Inr Ready"]) (auto simp: wait_eq [of deadline w])
  next
    case d
    with s f t p1 p2 p3 n1 g3 show thesis by (intro ended [of w3 "Inl expired"]) (auto simp: wait_eq [of deadline w])
  next
    case e
    with s f t p1 p2 p3 n1 g3 show thesis by (intro again [of w3]) (auto simp: wait_eq [of deadline w])
  qed
qed

lemma pause_measure: "goes w w1 \<Longrightarrow> now (w_clk w1) < deadline \<Longrightarrow>
  deadline - now (w_clk (pause delay w1)) < deadline - now (w_clk w)"
proof -
  assume *: "goes w w1" "now (w_clk w1) < deadline"
  then have le: "now (w_clk w) \<le> now (w_clk w1)" by (simp add: goes_def)
  have "now (w_clk w1) < now (w_clk (pause delay w1))" using delay_pos by simp
  with le *(2) show ?thesis by (intro diff_less_mono2) linarith+
qed

lemma wait_goes: "wait deadline w = (w', r) \<Longrightarrow> w_stop w n \<Longrightarrow> polls (w_clk w) \<le> n \<Longrightarrow>
  goes w w' \<and> (r \<noteq> Inr StopRequested \<longrightarrow> polls (w_clk w') \<le> n)"
proof (induction "deadline - now (w_clk w)" arbitrary: w rule: less_induct)
  case less
  show ?case
  proof (cases rule: wait_round [of deadline w])
    case (stop w1)
    with less.prems(1) show ?thesis by auto
  next
    case (ended w1 r1)
    with less.prems show ?thesis by (auto simp: Suc_le_eq order.order_iff_strict)
  next
    case (again w1)
    have g: "goes w (pause delay w1)" using goes_trans [OF again(2) goes_pause] .
    then have "w_stop (pause delay w1) n" using less.prems(2) by (simp add: goes_def)
    moreover have "polls (w_clk (pause delay w1)) \<le> n"
      using again(3,4) less.prems(2,3) by (auto simp: Suc_le_eq order.order_iff_strict)
    moreover have "deadline - now (w_clk (pause delay w1)) < deadline - now (w_clk w)"
      by (rule pause_measure [OF again(2,5)])
    ultimately have "goes (pause delay w1) w' \<and> (r \<noteq> Inr StopRequested \<longrightarrow> polls (w_clk w') \<le> n)"
      using less.hyps [of "pause delay w1"] less.prems(1) again(1) by simp
    with g goes_trans show ?thesis by blast
  qed
qed

lemma wait_time: "wait deadline w = (w', r) \<Longrightarrow> \<forall>t. lag (w_clk w) t \<le> J \<Longrightarrow>
  now (w_clk w') \<le> max (now (w_clk w)) (deadline + delay + J) + IOS_STDERR_SETTLE_BUDGET + 5 + J + cost"
proof (induction "deadline - now (w_clk w)" arbitrary: w rule: less_induct)
  case less
  show ?case
  proof (cases rule: wait_round [of deadline w])
    case (stop w1)
    with less.prems(1) show ?thesis by auto
  next
    case (ended w1 r1)
    have "now (w_clk w1) \<le> now (w_clk w) + IOS_STDERR_SETTLE_BUDGET + 5 + J + cost" using ended(6) less.prems(2) by blast
    moreover have "w1 = w'" using ended(1) less.prems(1) by simp
    ultimately show ?thesis by simp
  next
    case (again w1)
    have g: "goes w (pause delay w1)" using goes_trans [OF again(2) goes_pause] .
    then have l: "\<forall>t. lag (w_clk (pause delay w1)) t \<le> J" using less.prems(2) by (simp add: goes_def)
    have "lag (w_clk w1) (now (w_clk w1)) \<le> J" using l by simp
    then have "now (w_clk (pause delay w1)) \<le> deadline + delay + J" using again(5) by simp
    moreover have "deadline - now (w_clk (pause delay w1)) < deadline - now (w_clk w)"
      by (rule pause_measure [OF again(2,5)])
    ultimately show ?thesis
      using less.hyps [of "pause delay w1"] less.prems(1) again(1) l by simp
  qed
qed

end

interpretation tunnel_wait: startup_wait "\<lambda>deadline. await_tunnel_from deadline options" "tunnel_is_registered (io_udid options)"
  "TunnelFailed (''device tunnel did not register within '' @ show_nat (io_tunnel_ready_budget options div 1000) @ '' s'')" 100 1000
  for options
  by unfold_locales (simp_all add: await_tunnel_from.simps goes_tunnel tunnel_clock)

lemma goes_client:
  assumes "does P n f" "with_client f w = (w', r)"
  shows "goes w w' \<and> polls (w_clk w') = polls (w_clk w)"
proof -
  obtain a x where f: "f ((w_wda w)\<lparr>wd_clk := w_clk w\<rparr>) = (a, x)" by (cases "f ((w_wda w)\<lparr>wd_clk := w_clk w\<rparr>)")
  from doesD [OF assms(1) f] have "now (w_clk w) \<le> now (wd_clk a)" "lag (wd_clk a) = lag (w_clk w)" "polls (wd_clk a) = polls (w_clk w)"
    by (auto simp: reach_def)
  with assms(2) f show ?thesis by (auto simp: with_client_def goes_def healthy_def)
qed

lemma does_status: "does (\<lambda>_. True) 1 wda_status"
proof -
  have "does (\<lambda>_. True) 1 (get_raw ''/status'')" by (rule does_get) simp
  then show ?thesis by (auto simp: does_def wda_status_def wda_get_def split: prod.splits) (metis fst_conv)
qed

lemma does_configure: "does (\<lambda>_. True) 4 (configure_mjpeg fps quality)"
proof -
  have c: "does (\<lambda>_. True) 4 (session_call (\<lambda>session. configure_mjpeg_once session fps quality) WdaSessionFailed)"
    by (intro does_session_call does_configure_once) simp_all
  show ?thesis unfolding configure_mjpeg_def
    by (rule does_after [OF _ c]) (simp add: reach_refl)
qed

lemma does_delete: "does (\<lambda>rq. rq_limit rq \<le> DELETE_SESSION_TIMEOUT) 1 delete_session"
  unfolding does_def
proof
  fix w
  show "reach (\<lambda>rq. rq_limit rq \<le> DELETE_SESSION_TIMEOUT) 1 w (fst (delete_session w))"
    using does_send [of "\<lambda>rq. rq_limit rq \<le> DELETE_SESSION_TIMEOUT"]
    by (auto simp: delete_session_def does_def reach_refl split: sum.splits)
qed

definition status_ready :: "world \<Rightarrow> world \<times> bool" where
  "status_ready w = (case with_client wda_status w of (w, r) \<Rightarrow> (w, isOk r))"

interpretation status_wait: startup_wait "\<lambda>deadline. await_status_from deadline budget" status_ready
  "WdaUnreachable (''WDA did not answer /status within '' @ show_nat (budget div 1000) @ '' s'')" 200 REQUEST_TIMEOUT
  for budget
proof
  fix deadline w
  show "await_status_from deadline budget w =
      (case stop_polled w of
         (w, True) \<Rightarrow> (w, Inr StopRequested)
       | (w, False) \<Rightarrow>
           (case first_child_failure w of
              (w, Some e) \<Rightarrow> (w, Inl e)
            | (w, None) \<Rightarrow>
                (case status_ready w of
                   (w, True) \<Rightarrow> (w, Inr Ready)
                 | (w, False) \<Rightarrow>
                     (if deadline \<le> now (w_clk w)
                      then (w, Inl (WdaUnreachable (''WDA did not answer /status within '' @ show_nat (budget div 1000) @ '' s'')))
                      else await_status_from deadline budget (pause 200 w)))))"
    unfolding await_status_from.simps [of deadline budget w]
    by (simp add: status_ready_def split: prod.split bool.split option.split sum.split)
next
  fix w w' b
  assume "status_ready w = (w', b)"
  then obtain r where "with_client wda_status w = (w', r)" by (auto simp: status_ready_def split: prod.splits)
  with goes_client [OF does_status this] with_client_clock [OF this]
  show "goes w w' \<and> polls (w_clk w') = polls (w_clk w) \<and> now (w_clk w') \<le> now (w_clk w) + REQUEST_TIMEOUT" by simp
qed simp

lemma spawn_child_goes: "spawn_child kind ios args env wrap w = (w', r) \<Longrightarrow>
  goes w w' \<and> w_clk w' = w_clk w \<and> w_children w' = w_children w \<and> (\<forall>ch. r = Inr ch \<longrightarrow> healthy w \<longrightarrow> waitable ch)"
  by (auto simp: spawn_child_def goes_def healthy_def waitable_def os_spawn_env_def andThen_Inr_iff split: prod.splits sum.splits)

lemma push_child_goes: "push_child (spawn_child kind ios args env wrap w) = (w', r) \<Longrightarrow> goes w w' \<and> w_clk w' = w_clk w"
proof -
  assume *: "push_child (spawn_child kind ios args env wrap w) = (w', r)"
  obtain w1 x where s: "spawn_child kind ios args env wrap w = (w1, x)" by (cases "spawn_child kind ios args env wrap w")
  from * s spawn_child_goes [OF s] show ?thesis
    by (cases x) (auto simp: push_child_def goes_def healthy_def)
qed

lemma free_port_goes: "free_port w = (w', r) \<Longrightarrow> goes w w' \<and> w_clk w' = w_clk w \<and> w_children w' = w_children w"
  by (auto simp: free_port_def goes_def healthy_def)

lemma forward_settle_props: "forward_settle deadline c p = (c', p', b) \<Longrightarrow>
  now c \<le> now c' \<and> lag c' = lag c \<and> polls c' = polls c \<and> wait_err p' = wait_err p \<and>
  (b \<longrightarrow> exited_by (now c') p') \<and>
  ((\<forall>t. lag c t \<le> J) \<longrightarrow> now c' \<le> max (now c) (deadline + 20 + J))"
proof (induction deadline c p rule: forward_settle.induct)
  case (1 deadline c p)
  note unf = forward_settle.simps [of deadline c p]
  obtain q r where t: "os_try_wait c p = (q, r)" by (cases "os_try_wait c p")
  have q: "wait_err q = wait_err p" "exit_at q = exit_at p" using t by (metis fst_conv os_try_wait_frame)+
  have sx: "saw_exit r \<Longrightarrow> exited_by (now c) q"
    using saw_exit_try_wait [of c p] t q exited_by_cong [of q p "now c"] by simp
  show ?case
  proof (cases "now c < deadline \<and> \<not> saw_exit r")
    case True
    with "1.prems" t have rec: "forward_settle deadline (os_sleep 20 c) q = (c', p', b)" by (simp add: unf)
    have "now c + 20 + lag c (now c) \<le> deadline + 20 + J" if "\<forall>t. lag c t \<le> J"
      using that [rule_format, of "now c"] True by linarith
    with "1.IH" [OF _ t [symmetric] _ rec] True q show ?thesis by auto
  next
    case False
    with "1.prems" t q sx show ?thesis by (auto simp: unf split: if_splits)
  qed
qed

lemma os_wait_after_exit: "exited_by (now c) p \<Longrightarrow> \<exists>q r. os_wait c p = Some (c, q, r)"
  using wait_after_kill_returns [of c p] wait_after_kill by blast

lemma spawn_forward_goes:
  "\<exists>w' r. spawn_forward_from k last_tail kind remote options ios env w = Some (w', r) \<and> goes w w' \<and>
     polls (w_clk w') = polls (w_clk w)"
proof (induction k arbitrary: last_tail w)
  case 0
  show ?case by simp
next
  case (Suc k)
  obtain w1 p where f: "free_port w = (w1, p)" by (cases "free_port w")
  note g1 = free_port_goes [OF f]
  show ?case
  proof (cases p)
    case (Inl e)
    with f g1 show ?thesis by simp
  next
    case (Inr local)
    obtain w2 x where s: "spawn_child kind ios (forward_args options local remote) env ForwardFailed w1 = (w2, x)"
      by (cases "spawn_child kind ios (forward_args options local remote) env ForwardFailed w1")
    note g2 = spawn_child_goes [OF s]
    have g: "goes w w2" using g1 g2 goes_trans by blast
    show ?thesis
    proof (cases x)
      case (Inl e)
      with f Inr s g g1 g2 show ?thesis by simp
    next
      case ch: (Inr ch)
      obtain c q b where t: "forward_settle (now (w_clk w2) + FORWARD_SETTLE) (w_clk w2) (sn_child (sc_session ch)) = (c, q, b)"
        by (cases "forward_settle (now (w_clk w2) + FORWARD_SETTLE) (w_clk w2) (sn_child (sc_session ch))")
      note p3 = forward_settle_props [OF t, of 0]
      let ?ch = "ch\<lparr>sc_session := (sc_session ch)\<lparr>sn_child := q\<rparr>\<rparr>"
      have g3: "goes w2 (set_clk c w2)" using p3 by (intro goes_set_clk) simp_all
      show ?thesis
      proof (cases b)
        case False
        have "waitable ?ch" if "healthy w" using that g2 ch g p3 g1 by (auto simp: waitable_def goes_def)
        then have "goes w ((set_clk c w2)\<lparr>w_children := w_children w2 @ [?ch]\<rparr>)"
          using goes_trans [OF g g3] by (auto simp: goes_def healthy_def)
        with f Inr s ch t False p3 g1 g2 show ?thesis by (simp add: Let_def)
      next
        case True
        obtain c2 tail where tl: "child_tail IOS_STDERR_SETTLE_BUDGET c ?ch = (c2, tail)"
          by (cases "child_tail IOS_STDERR_SETTLE_BUDGET c ?ch")
        note p4 = child_tail_clock [OF tl]
        obtain q2 st where ow: "os_wait c2 q = Some (c2, q2, st)"
          using os_wait_after_exit [of c2 q] p3 p4 True exited_by_mono by blast
        have g4: "goes w (set_clk c2 w2)" using g p3 p4 by (intro goes_trans [OF g goes_set_clk]) simp_all
        have po: "polls (w_clk (set_clk c2 w2)) = polls (w_clk w)" using p3 p4 g1 g2 by simp
        obtain w5 r where ih: "spawn_forward_from k tail kind remote options ios env (set_clk c2 w2) = Some (w5, r)"
          "goes (set_clk c2 w2) w5" "polls (w_clk w5) = polls (w_clk (set_clk c2 w2))"
          using Suc.IH [of tail "set_clk c2 w2"] by blast
        have g5: "goes w w5" using goes_trans [OF g4 ih(2)] .
        show ?thesis
        proof (cases "str_contains ''address already in use'' (to_ascii_lowercase tail)")
          case True
          with f Inr s ch t \<open>b\<close> tl ow ih g5 po show ?thesis by (simp add: Let_def)
        next
          case False
          with f Inr s ch t \<open>b\<close> tl ow g4 po show ?thesis by (simp add: Let_def)
        qed
      qed
    qed
  qed
qed

text \<open>The start-up and the run: \<open>Running\<close> may be written once.\<close>

definition advances :: "world \<Rightarrow> world \<Rightarrow> bool" where
  "advances w w' \<longleftrightarrow> (\<exists>run. w_status w' = w_status w @ run \<and> (run = [] \<or> (\<exists>port. run = [IosRunning port]))) \<and>
     w_ended w' = w_ended w \<and> w_out w' = w_out w \<and>
     lag (w_clk w') = lag (w_clk w) \<and> now (w_clk w) \<le> now (w_clk w') \<and> (healthy w \<longrightarrow> healthy w')"

lemma goes_advances: "goes u v \<Longrightarrow> advances v w \<Longrightarrow> advances u w"
  by (auto simp: goes_def advances_def)

lemma advances_trans_goes: "advances u v \<Longrightarrow> goes v w \<Longrightarrow> advances u w"
  by (auto simp: goes_def advances_def)

lemma advances_goes: "goes u v \<Longrightarrow> advances u v"
  by (auto simp: goes_def advances_def)

lemma then_w_simps [simp]:
  "then_w None f = None" "then_w (Some (w, Inl e)) f = Some (w, Inl e)" "then_w (Some (w, Inr a)) f = f a w"
  by (simp_all add: then_w_def)

lemma run_step_goes: "run_step w = (w', r) \<Longrightarrow> goes w w' \<and> polls (w_clk w') = Suc (polls (w_clk w)) \<and>
  (w_stop w (polls (w_clk w)) \<longrightarrow> r = Some (Inr Requested))"
proof -
  assume *: "run_step w = (w', r)"
  obtain w1 s where s: "stop_polled w = (w1, s)" by (cases "stop_polled w")
  note p1 = stop_polled_simps [OF s] and g1 = goes_stop [OF s]
  obtain sl failure where sl: "o_slot (w_out w1) (now (w_clk w1)) = (sl, failure)" by (cases "o_slot (w_out w1) (now (w_clk w1))")
  let ?w2 = "if w_proxy w1 then w1\<lparr>w_stats := stats sl\<rparr> else w1"
  have g2: "goes w ?w2" using g1 by (simp add: goes_def healthy_def)
  obtain w3 x where l: "look_for_exit ?w2 = (w3, x)" by (cases "look_for_exit ?w2")
  note g3 = goes_trans [OF g2 goes_look [OF l]]
  have c2: "w_clk ?w2 = w_clk w1" "w_proxy ?w2 = w_proxy w1" by simp_all
  have po: "polls (w_clk w1) = Suc (polls (w_clk w))" "polls (w_clk w3) = polls (w_clk w1)"
    using p1 look_for_exit_clock [OF l] c2 by simp_all
  consider (a) s | (b) "\<not> s" "w_proxy w1" "failure \<noteq> None" | (c) "\<not> s" "w_proxy w1" "failure = None" "\<not> is_alive sl"
    | (d) "\<not> s" "\<not> (w_proxy w1 \<and> failure \<noteq> None)" "\<not> (w_proxy w1 \<and> \<not> is_alive sl)" by blast
  then show ?thesis
  proof cases
    case a
    with * s have "w' = w1" "r = Some (Inr Requested)" by (simp_all add: run_step_def)
    with g1 po show ?thesis by simp
  next
    case b
    with * s sl p1 g2 po show ?thesis by (auto simp: run_step_def Let_def)
  next
    case c
    with * s sl p1 g2 po show ?thesis by (auto simp: run_step_def Let_def)
  next
    case d
    then have "run_step w = (case look_for_exit ?w2 of
               (w, Some (kind, status, tail)) \<Rightarrow> (w, Some (Inr (ChildExited kind (code_or 1 status))))
             | (w, None) \<Rightarrow> (w, None))"
      unfolding run_step_def s sl by (simp add: sl)
    with * l g3 po p1 d(1) show ?thesis by (cases x) auto
  qed
qed

lemma run_until_stop_returns: "w_stop w n \<Longrightarrow> polls (w_clk w) \<le> n \<Longrightarrow>
  \<exists>w' r. run_until_stop w = Some (w', r) \<and> goes w w'"
proof (induction "n - polls (w_clk w)" arbitrary: w rule: less_induct)
  case less
  obtain w1 r where r: "run_step w = (w1, r)" by (cases "run_step w")
  note g = run_step_goes [OF r]
  show ?case
  proof (cases r)
    case (Some x)
    with r g show ?thesis by (simp add: run_until_stop.simps [of w])
  next
    case None
    then have "\<not> w_stop w (polls (w_clk w))" using g by auto
    with less.prems have lt: "polls (w_clk w) < n" by (auto simp: order.order_iff_strict)
    have g2: "goes w (pause 50 w1)" using g goes_pause goes_trans by blast
    then have "w_stop (pause 50 w1) n" using less.prems(1) by (simp add: goes_def)
    moreover have "n - polls (w_clk (pause 50 w1)) < n - polls (w_clk w)" "polls (w_clk (pause 50 w1)) \<le> n"
      using g lt by simp_all
    ultimately obtain w' x where "run_until_stop (pause 50 w1) = Some (w', x)" "goes (pause 50 w1) w'"
      using less.hyps [of "pause 50 w1"] by blast
    with r None g2 goes_trans show ?thesis by (auto simp: run_until_stop.simps [of w])
  qed
qed

lemma connect_clock: "connect_from connects port budget deadline c = (c', r) \<Longrightarrow>
  now c \<le> now c' \<and> lag c' = lag c \<and> polls c' = polls c"
proof (induction connects port budget deadline c rule: connect_from.induct)
  case (1 connects port budget deadline c)
  note unf = connect_from.simps [of connects port budget deadline c]
  obtain d e where c: "connects (now c) = (d, e)" by (cases "connects (now c)")
  show ?case
  proof (cases "e = None \<or> deadline \<le> now c + d")
    case True
    with "1.prems" c show ?thesis by (auto simp: unf Let_def split: option.splits)
  next
    case False
    then obtain x where e: "e = Some x" by auto
    let ?c = "os_sleep 50 (c\<lparr>now := now c + d\<rparr>)"
    have rec: "connect_from connects port budget deadline ?c = (c', r)"
      using "1.prems" c e False by (simp add: unf Let_def)
    have "now ?c \<le> now c' \<and> lag c' = lag ?c \<and> polls c' = polls ?c"
      by (rule "1.IH" [OF refl c [symmetric] refl e _ rec]) (use False in simp)
    then show ?thesis by simp
  qed
qed

lemma proxy_start_goes: "proxy_start port w = (w', r) \<Longrightarrow> goes w w' \<and> polls (w_clk w') = polls (w_clk w)"
  by (auto simp: proxy_start_def connect_upstream_def split: sum.splits prod.splits dest!: connect_clock intro!: goes_set_clk)

lemma serve_returns:
  assumes "w_stop w n" "polls (w_clk w) \<le> n"
  shows "\<exists>w' r. serve http mjpeg options w = Some (w', r) \<and> advances w w'"
proof -
  let ?w = "w\<lparr>w_wda := wda_new http (w_wda w)\<rparr>"
  have g0: "goes w ?w" by (simp add: goes_def healthy_def)
  obtain w1 r1 where s1: "await_status (io_status_budget options) ?w = (w1, r1)" by (cases "await_status (io_status_budget options) ?w")
  have 1: "goes ?w w1" "r1 \<noteq> Inr StopRequested \<longrightarrow> polls (w_clk w1) \<le> n"
    using status_wait.wait_goes [of _ _ ?w w1 r1 n] s1 assms unfolding await_status_def by auto
  note g1 = goes_trans [OF g0 1(1)]
  obtain w2 r2 where s2: "with_client create_session w1 = (w2, r2)" by (cases "with_client create_session w1")
  have "does (\<lambda>_. True) 1 create_session" by (rule does_create) simp
  note 2 = goes_client [OF this s2] and g2 = goes_trans [OF g1 conjunct1 [OF goes_client [OF this s2]]]
  obtain w3 r3 where s3: "with_client (configure_mjpeg MJPEG_FPS MJPEG_QUALITY) w2 = (w3, r3)"
    by (cases "with_client (configure_mjpeg MJPEG_FPS MJPEG_QUALITY) w2")
  note 3 = goes_client [OF does_configure s3] and g3 = goes_trans [OF g2 conjunct1 [OF goes_client [OF does_configure s3]]]
  obtain w4 r4 where s4: "proxy_start mjpeg w3 = (w4, r4)" by (cases "proxy_start mjpeg w3")
  note 4 = proxy_start_goes [OF s4] and g4 = goes_trans [OF g3 conjunct1 [OF proxy_start_goes [OF s4]]]
  note unf = serve_def Let_def
  consider (a) e where "r1 = Inl e" | (b) "r1 = Inr StopRequested" | (c) "r1 = Inr Ready" using Readiness.exhaust by (metis sum.exhaust)
  then show ?thesis
  proof cases
    case a
    with s1 g1 advances_goes show ?thesis by (auto simp: unf)
  next
    case b
    with s1 g1 advances_goes show ?thesis by (auto simp: unf)
  next
    case c
    then have p4: "polls (w_clk w4) \<le> n" using 1(2) 2 3 4 by simp
    consider (a) e where "r2 = Inl e" | (b) x e where "r2 = Inr x" "r3 = Inl e" | (c) x y e where "r2 = Inr x" "r3 = Inr y" "r4 = Inl e"
      | (d) x y port where "r2 = Inr x" "r3 = Inr y" "r4 = Inr port" by (cases r2; cases r3; cases r4) auto
    then show ?thesis
    proof cases
      case a
      with c s1 s2 g2 advances_goes show ?thesis by (auto simp: unf)
    next
      case b
      with c s1 s2 s3 g3 advances_goes show ?thesis by (auto simp: unf)
    next
      case c2: c
      with c s1 s2 s3 s4 g4 advances_goes show ?thesis by (auto simp: unf)
    next
      case (d x y port)
      let ?w5 = "w4\<lparr>w_proxy := True, w_client := True, w_status := w_status w4 @ [IosRunning port]\<rparr>"
      have "w_stop ?w5 n" "polls (w_clk ?w5) \<le> n" using g4 assms(1) p4 by (simp_all add: goes_def)
      from run_until_stop_returns [OF this] obtain w6 r where r: "run_until_stop ?w5 = Some (w6, r)" "goes ?w5 w6" by blast
      have "advances w4 ?w5" by (simp add: advances_def healthy_def)
      then have "advances w w6" using goes_advances [OF g4 advances_trans_goes [OF _ r(2)]] by blast
      moreover have "serve http mjpeg options w = Some (w6, r)"
        by (simp only: unf s1 c d s2 s3 s4 r(1) then_w_simps Readiness.distinct if_False)
      ultimately show ?thesis by blast
    qed
  qed
qed

lemma start_session_returns:
  assumes "w_stop w n" "polls (w_clk w) \<le> n"
  shows "\<exists>w' r. start_session options w = Some (w', r) \<and> advances w w'"
proof (cases "io_mode options")
  case (Attach http mjpeg)
  with serve_returns [OF assms] show ?thesis by (simp add: start_session_def)
next
  case (Launch ios ids env)
  note unf = start_session_def Launch
  obtain w1 r1 where s1: "push_child (spawn_child Tunnel ios (tunnel_args options) env TunnelFailed w) = (w1, r1)"
    by (cases "push_child (spawn_child Tunnel ios (tunnel_args options) env TunnelFailed w)")
  note 1 = push_child_goes [OF s1]
  have n1: "w_stop w1 n" "polls (w_clk w1) \<le> n" using 1 assms by (auto simp: goes_def)
  obtain w2 r2 where s2: "await_tunnel options w1 = (w2, r2)" by (cases "await_tunnel options w1")
  have 2: "goes w1 w2" "r2 \<noteq> Inr StopRequested \<longrightarrow> polls (w_clk w2) \<le> n"
    using tunnel_wait.wait_goes [of _ _ w1 w2 r2 n] s2 n1 unfolding await_tunnel_def by auto
  note g2 = goes_trans [OF conjunct1 [OF 1] 2(1)]
  obtain w3 r3 where s3: "push_child (spawn_child RunWda ios (runwda_args options ids) env WdaUnreachable w2) = (w3, r3)"
    by (cases "push_child (spawn_child RunWda ios (runwda_args options ids) env WdaUnreachable w2)")
  note 3 = push_child_goes [OF s3] and g3 = goes_trans [OF g2 conjunct1 [OF push_child_goes [OF s3]]]
  obtain w4 r4 where s4: "spawn_forward ForwardHttp 8100 options ios env w3 = Some (w4, r4)" "goes w3 w4" "polls (w_clk w4) = polls (w_clk w3)"
    using spawn_forward_goes [of FORWARD_PORT_ATTEMPTS "[]" ForwardHttp 8100 options ios env w3] unfolding spawn_forward_def by blast
  note g4 = goes_trans [OF g3 s4(2)]
  obtain w5 r5 where s5: "spawn_forward ForwardMjpeg 9100 options ios env w4 = Some (w5, r5)" "goes w4 w5" "polls (w_clk w5) = polls (w_clk w4)"
    using spawn_forward_goes [of FORWARD_PORT_ATTEMPTS "[]" ForwardMjpeg 9100 options ios env w4] unfolding spawn_forward_def by blast
  note g5 = goes_trans [OF g4 s5(2)]
  show ?thesis
  proof (cases "isOk r1 \<and> r2 = Inr Ready \<and> isOk r3 \<and> isOk r4 \<and> isOk r5")
    case False
    have eq: "start_session options w = (case r1 of Inl e \<Rightarrow> Some (w1, Inl e) | Inr _ \<Rightarrow>
        (case r2 of Inl e \<Rightarrow> Some (w2, Inl e) | Inr q \<Rightarrow> if q = StopRequested then Some (w2, Inr Requested) else
        (case r3 of Inl e \<Rightarrow> Some (w3, Inl e) | Inr _ \<Rightarrow>
        (case r4 of Inl e \<Rightarrow> Some (w4, Inl e) | Inr http \<Rightarrow>
        (case r5 of Inl e \<Rightarrow> Some (w5, Inl e) | Inr mjpeg \<Rightarrow> serve http mjpeg options w5)))))"
      by (simp only: unf LaunchMode.case s1 s2 s3 s4(1) s5(1) then_w_def option.case prod.case)
    have "\<exists>w' r. start_session options w = Some (w', r) \<and> w' \<in> {w1, w2, w3, w4, w5}"
    proof (cases "r2 = Inr Ready")
      case True
      with False show ?thesis unfolding eq by (auto split: sum.splits elim!: isOk.elims)
    next
      case False
      then show ?thesis unfolding eq using Readiness.exhaust by (auto split: sum.splits)
    qed
    then obtain w' r where "start_session options w = Some (w', r)" "goes w w'"
      using conjunct1 [OF 1] g2 g3 g4 g5 by blast
    with advances_goes show ?thesis by blast
  next
    case True
    then obtain x y http mjpeg where r: "r1 = Inr x" "r2 = Inr Ready" "r3 = Inr y" "r4 = Inr http" "r5 = Inr mjpeg"
      by (auto elim!: isOk.elims)
    have n5: "w_stop w5 n" "polls (w_clk w5) \<le> n" using g5 assms(1) r(2) 2(2) 3 s4(3) s5(3) by (auto simp: goes_def)
    from serve_returns [OF n5] obtain w' q where "serve http mjpeg options w5 = Some (w', q)" "advances w5 w'" by blast
    moreover from this(1) have "start_session options w = Some (w', q)"
      by (simp only: unf LaunchMode.case s1 s2 s3 s4(1) s5(1) r then_w_simps Readiness.distinct if_False)
    ultimately show ?thesis using goes_advances [OF g5] by blast
  qed
qed

section \<open>The end of a session\<close>

lemma join_threads_props: "join_threads told deadline c ds = c' \<Longrightarrow> now c \<le> now c' \<and> lag c' = lag c \<and>
  ((\<forall>d \<in> set ds. d \<le> D) \<longrightarrow> now c' \<le> max (now c) (told + D))"
proof (induction ds arbitrary: c)
  case (Cons d ds)
  show ?case
  proof (cases "deadline \<le> now c")
    case False
    with Cons.prems have "join_threads told deadline (c\<lparr>now := max (now c) (told + d)\<rparr>) ds = c'" by simp
    from Cons.IH [OF this] show ?thesis by auto
  qed (use Cons.prems in auto)
qed simp

lemma close_links_props:
  assumes "close_links w = w'"
  shows "w_children w' = w_children w \<and> w_ended w' = w_ended w \<and> w_status w' = w_status w @ [IosStopping] \<and>
    \<not> w_proxy w' \<and> \<not> w_client w' \<and> lag (w_clk w') = lag (w_clk w) \<and> now (w_clk w) \<le> now (w_clk w') \<and>
    ((\<forall>d \<in> set (o_joins (w_out w)). d \<le> D) \<longrightarrow> now (w_clk w') \<le> now (w_clk w) + D + DELETE_SESSION_TIMEOUT)"
proof -
  let ?w1 = "w\<lparr>w_status := w_status w @ [IosStopping]\<rparr>"
  define w2 where "w2 = (if w_proxy ?w1
               then proxy_stop (?w1\<lparr>w_proxy := False, w_stats := stats (fst (o_slot (w_out ?w1) (now (w_clk ?w1))))\<rparr>)
               else ?w1)"
  have 2: "w_children w2 = w_children w" "w_ended w2 = w_ended w" "w_status w2 = w_status w @ [IosStopping]"
    "\<not> w_proxy w2" "w_client w2 = w_client w" "lag (w_clk w2) = lag (w_clk w)" "now (w_clk w) \<le> now (w_clk w2)"
    "(\<forall>d \<in> set (o_joins (w_out w)). d \<le> D) \<longrightarrow> now (w_clk w2) \<le> now (w_clk w) + D"
    using join_threads_props [of "now (w_clk w)" "now (w_clk w) + JOIN_BUDGET" "w_clk w" "o_joins (w_out w)" _ D, OF refl]
    by (auto simp: w2_def proxy_stop_def Let_def)
  have eq: "w' = (if w_client w2 then fst (with_client delete_session (w2\<lparr>w_client := False\<rparr>)) else w2)"
    using assms unfolding close_links_def Let_def w2_def by simp
  show ?thesis
  proof (cases "w_client w2")
    case False
    with eq 2 show ?thesis by auto
  next
    case True
    let ?v = "w2\<lparr>w_client := False\<rparr>"
    obtain a r where d: "delete_session ((w_wda ?v)\<lparr>wd_clk := w_clk ?v\<rparr>) = (a, r)"
      by (cases "delete_session ((w_wda ?v)\<lparr>wd_clk := w_clk ?v\<rparr>)")
    note t = doesD [OF does_delete d] reach_time [OF doesD [OF does_delete d]]
    have "now (w_clk w2) \<le> now (wd_clk a)" "lag (wd_clk a) = lag (w_clk w2)" using t(1) by (auto simp: reach_def)
    moreover have "now (wd_clk a) \<le> now (w_clk w2) + DELETE_SESSION_TIMEOUT" using t(2) by simp
    moreover have "w' = set_clk (wd_clk a) (?v\<lparr>w_wda := a\<rparr>)" using eq True d by (simp add: with_client_def)
    ultimately show ?thesis using 2 by auto
  qed
qed

lemma reap_all_gone: "\<forall>p \<in> set ps. gone c p \<and> wait_err p = None \<Longrightarrow>
  \<exists>qs. reap_all c ps = Some (c, qs) \<and> map pid qs = map pid ps \<and> (\<forall>q \<in> set qs. gone c q)"
proof (induction ps)
  case (Cons p ps)
  then obtain qs where qs: "reap_all c ps = Some (c, qs)" "map pid qs = map pid ps" "\<forall>q \<in> set qs. gone c q" by auto
  obtain k where "os_wait c p = Some (c, p\<lparr>reaped := True\<rparr>, Inr k)"
    using os_wait_exited [of c p] Cons.prems by (auto simp: gone_def)
  with qs Cons.prems have "reap_all c (p # ps) = Some (c, p\<lparr>reaped := True\<rparr> # qs)" "gone c (p\<lparr>reaped := True\<rparr>)"
    by (auto simp: gone_def exited_by_def)
  with qs show ?case by auto
qed simp

lemma settle_all_props: "settle_all deadline c chs = c' \<Longrightarrow> now c \<le> now c' \<and> lag c' = lag c \<and>
  ((\<forall>t. lag c t \<le> J) \<longrightarrow> now c' \<le> max (now c) (deadline + 5 + J))"
proof (induction deadline c chs rule: settle_all.induct)
  case (1 deadline c chs)
  note unf = settle_all.simps [of deadline c chs]
  show ?case
  proof (cases "now c < deadline \<and> \<not> all_drained c chs")
    case True
    have "now c + 5 + lag c (now c) \<le> deadline + 5 + J" if "\<forall>t. lag c t \<le> J"
      using that [rule_format, of "now c"] True by linarith
    moreover have "settle_all deadline (os_sleep 5 c) chs = c'" using "1.prems" True by (simp add: unf)
    ultimately show ?thesis using "1.IH" [OF True] by auto
  qed (use "1.prems" in \<open>auto simp: unf\<close>)
qed

lemma with_procs_props: "length ps = length chs \<Longrightarrow>
  child_procs (with_procs ps chs) = ps \<and> map sc_kind (with_procs ps chs) = map sc_kind chs"
  by (induction ps chs rule: list_induct2) (simp_all add: child_procs_def with_procs_def)

lemma ios_shutdown_spec:
  assumes "list_all waitable (w_children w)"
  obtains w' chs where "ios_shutdown w = Some w'" "w_children w' = []" "w_ended w' = w_ended w @ chs"
    "map sc_kind chs = map sc_kind (w_children w)" "map pid (child_procs chs) = map pid (child_procs (w_children w))"
    "\<forall>p \<in> set (child_procs chs). gone (w_clk w') p"
    "w_status w' = w_status w @ [IosStopping]" "\<not> w_proxy w'" "\<not> w_client w'"
    "\<forall>J D. (\<forall>t. lag (w_clk w) t \<le> J) \<longrightarrow> (\<forall>d \<in> set (o_joins (w_out w)). d \<le> D) \<longrightarrow>
      now (w_clk w') \<le> now (w_clk w) + D + DELETE_SESSION_TIMEOUT + 5405 + 3 * J"
proof -
  define v where "v = close_links w"
  note cl = close_links_props [of w v, OF v_def [symmetric]]
  have ch: "w_children v = w_children w" using cl by blast
  have we: "\<forall>p \<in> set (child_procs (w_children v)). wait_err p = None"
    using assms ch by (auto simp: child_procs_def waitable_def list_all_iff)
  obtain c ps r where t: "(if w_children v = [] then Some (w_clk v, [], Inr ())
            else terminate_all_unix (child_procs (w_children v)) (\<lambda>_. False) (w_clk v)) = Some (c, ps, r)"
    and g: "\<forall>p \<in> set ps. gone c p \<and> wait_err p = None" and l: "map pid ps = map pid (child_procs (w_children v))" "lag c = lag (w_clk v)" "now (w_clk v) \<le> now c"
    and tm: "\<forall>J. (\<forall>t. lag (w_clk v) t \<le> J) \<longrightarrow> now c \<le> now (w_clk v) + 5200 + 2 * J"
  proof (cases "w_children v = []")
    case True
    then show thesis by (intro that [of "w_clk v" "[]" "Inr ()"]) (simp_all add: child_procs_def)
  next
    case False
    obtain c' ps' r sigs where s: "terminate_all_unix (child_procs (w_children v)) (\<lambda>_. False) (w_clk v) = Some (c', ps', r)"
      "(\<forall>p \<in> set (child_procs (w_children v)). wait_err p = None) \<longrightarrow> r = Inr () \<and> (\<forall>p \<in> set ps'. gone c' p)"
      "list_all2 (signalled sigs) (child_procs (w_children v)) ps'" "subseq sigs [SIGINT, SIGTERM, SIGKILL]"
      "\<forall>J. (\<forall>t. lag (w_clk v) t \<le> J) \<longrightarrow> now c' \<le> now (w_clk v) + 5200 + 2 * J"
      "lag c' = lag (w_clk v) \<and> now (w_clk v) \<le> now c'"
      by (rule terminate_all_unix_spec)
    have "wait_err q = None" if q: "q \<in> set ps'" for q
    proof -
      from q obtain i where "i < length ps'" "q = ps' ! i" by (auto simp: in_set_conv_nth)
      then show ?thesis using s(3) we by (auto simp: list_all2_conv_all_nth signalled_def)
    qed
    moreover have "map pid ps' = map pid (child_procs (w_children v))"
      using s(3) by (auto simp: list_all2_conv_all_nth signalled_def intro!: nth_equalityI)
    ultimately show thesis using False s we by (intro that [of c' ps' r]) simp_all
  qed
  from reap_all_gone [OF g] obtain qs where q: "reap_all c ps = Some (c, qs)" "map pid qs = map pid ps" "\<forall>q \<in> set qs. gone c q" by blast
  have lq: "length qs = length (w_children v)"
    using arg_cong [OF q(2), of length] arg_cong [OF l(1), of length] by (simp add: child_procs_def)
  let ?chs = "with_procs qs (w_children v)"
  define c2 where "c2 = settle_all (now c + IOS_STDERR_SETTLE_BUDGET) c ?chs"
  note st = settle_all_props [OF c2_def [symmetric]]
  let ?w = "(set_clk c2 v)\<lparr>w_children := [], w_ended := w_ended v @ ?chs\<rparr>"
  have eq: "ios_shutdown w = Some ?w"
    unfolding ios_shutdown_def v_def [symmetric] Let_def t q(1) option.case prod.case c2_def by simp
  have wp: "child_procs ?chs = qs" "map sc_kind ?chs = map sc_kind (w_children v)"
    using with_procs_props [OF lq] by simp_all
  show thesis
  proof (rule that [OF eq, of ?chs])
    show "\<forall>p \<in> set (child_procs ?chs). gone (w_clk ?w) p"
      using q(3) st wp(1) exited_by_mono by (auto simp: gone_def)
    show "\<forall>J D. (\<forall>t. lag (w_clk w) t \<le> J) \<longrightarrow> (\<forall>d \<in> set (o_joins (w_out w)). d \<le> D) \<longrightarrow>
      now (w_clk ?w) \<le> now (w_clk w) + D + DELETE_SESSION_TIMEOUT + 5405 + 3 * J"
    proof (intro allI impI)
      fix J D assume a: "\<forall>t. lag (w_clk w) t \<le> J" "\<forall>d \<in> set (o_joins (w_out w)). d \<le> D"
      have "now (w_clk v) \<le> now (w_clk w) + D + DELETE_SESSION_TIMEOUT" "lag (w_clk v) = lag (w_clk w)"
        using close_links_props [of w v D, OF v_def [symmetric]] a(2) by blast+
      moreover have "now c \<le> now (w_clk v) + 5200 + 2 * J" using tm a(1) calculation(2) by simp
      moreover have "now c2 \<le> now c + 205 + J"
        using settle_all_props [OF c2_def [symmetric], of J] a(1) calculation(2) l(2) by (simp add: IOS_STDERR_SETTLE_BUDGET_def)
      ultimately show "now (w_clk ?w) \<le> now (w_clk w) + D + DELETE_SESSION_TIMEOUT + 5405 + 3 * J" by simp
    qed
  qed (use cl wp ch q(2) l(1) in simp_all)
qed

end
