(* ===== verification/IosLaunch.thy ===== *)
theory IosLaunch
  imports IosSession
begin

text \<open>
  What an iOS session launches and in which order, and the properties of the session as a whole:
  it ends and ends clean, its shutdown and its waits are bounded, and the one step of its start-up
  that does not hear a stop request.
\<close>

section \<open>What is launched, and when\<close>

text \<open>A step that launches nothing and leaves the list of children as it is.\<close>

definition quiet :: "world \<Rightarrow> world \<Rightarrow> bool" where
  "quiet w w' \<longleftrightarrow> issued (w_host w') = issued (w_host w) \<and> map sc_kind (w_children w') = map sc_kind (w_children w)"

lemma quiet_refl [simp]: "quiet w w" by (simp add: quiet_def)

lemma quiet_trans: "quiet u v \<Longrightarrow> quiet v w \<Longrightarrow> quiet u w" by (simp add: quiet_def)

lemma quiet_pause [simp]: "quiet w (pause d w)" by (simp add: quiet_def pause_def)

lemma quiet_set_clk [simp]: "quiet w (set_clk c w)" by (simp add: quiet_def)

lemma quiet_stop: "stop_polled w = (w', b) \<Longrightarrow> quiet w w'"
  by (auto dest!: stop_polled_simps)

lemma first_exit_kinds: "first_exit c chs = (chs', r) \<Longrightarrow> map sc_kind chs' = map sc_kind chs"
proof (induction chs arbitrary: chs' r)
  case (Cons ch chs)
  obtain p x where "os_try_wait c (sn_child (sc_session ch)) = (p, x)" by (cases "os_try_wait c (sn_child (sc_session ch))")
  with Cons show ?case by (cases x rule: wait_result_cases) (auto simp: Let_def split: prod.splits)
qed simp

lemma quiet_look: "look_for_exit w = (w', r) \<Longrightarrow> quiet w w'"
  by (auto simp: look_for_exit_def quiet_def split: prod.splits option.splits dest: first_exit_kinds)

lemma quiet_failure: "first_child_failure w = (w', r) \<Longrightarrow> quiet w w'"
  by (auto simp: first_child_failure_def split: prod.splits dest: quiet_look)

lemma quiet_tunnel: "tunnel_is_registered udid w = (w', b) \<Longrightarrow> quiet w w'"
  by (auto simp: tunnel_is_registered_def Let_def split: prod.splits)

lemma quiet_client: "with_client f w = (w', r) \<Longrightarrow> quiet w w'"
  by (auto simp: with_client_def quiet_def split: prod.splits)

lemma quiet_proxy_start: "proxy_start port w = (w', r) \<Longrightarrow> quiet w w'"
  by (auto simp: proxy_start_def split: sum.splits prod.splits)

text \<open>A wait whose look at the outside launches nothing.\<close>

locale quiet_wait = startup_wait +
  assumes ready_quiet: "ready w = (w', b) \<Longrightarrow> quiet w w'"
begin

lemma wait_quiet: "wait deadline w = (w', r) \<Longrightarrow> quiet w w' \<and>
  (r = Inr Ready \<longrightarrow> (\<exists>v. goes w v \<and> ready v = (w', True)))"
proof (induction "deadline - now (w_clk w)" arbitrary: w rule: less_induct)
  case less
  obtain w1 s where s: "stop_polled w = (w1, s)" by (cases "stop_polled w")
  obtain w2 f where f: "first_child_failure w1 = (w2, f)" by (cases "first_child_failure w1")
  obtain w3 b where t: "ready w2 = (w3, b)" by (cases "ready w2")
  have q: "quiet w w1" "quiet w w2" "quiet w w3"
    using quiet_stop [OF s] quiet_failure [OF f] ready_quiet [OF t] quiet_trans by blast+
  have g: "goes w w2" "goes w w3" using goes_stop [OF s] goes_failure [OF f] ready_goes [OF t] goes_trans by blast+
  show ?case
  proof (cases "\<not> s \<and> f = None \<and> \<not> b \<and> now (w_clk w3) < deadline")
    case True
    then have rec: "wait deadline (pause delay w3) = (w', r)"
      using less.prems s f t by (simp add: wait_eq [of deadline w])
    have "deadline - now (w_clk (pause delay w3)) < deadline - now (w_clk w)"
      using True by (intro pause_measure [OF g(2)]) simp
    from less.hyps [OF this rec] have ih: "quiet (pause delay w3) w'"
      "r = Inr Ready \<longrightarrow> (\<exists>v. goes (pause delay w3) v \<and> ready v = (w', True))" by blast+
    have "goes w (pause delay w3)" using goes_trans [OF g(2) goes_pause] .
    with ih q(3) show ?thesis using quiet_trans quiet_pause goes_trans by meson
  next
    case False
    with less.prems s f t q g show ?thesis
      by (cases f; cases s; cases b) (auto simp: wait_eq [of deadline w] split: if_splits)
  qed
qed

end

interpretation tunnel_quiet: quiet_wait "\<lambda>deadline. await_tunnel_from deadline options" "tunnel_is_registered (io_udid options)"
  "TunnelFailed (''device tunnel did not register within '' @ show_nat (io_tunnel_ready_budget options div 1000) @ '' s'')" 100 1000
  for options
  by unfold_locales (rule quiet_tunnel)

interpretation status_quiet: quiet_wait "\<lambda>deadline. await_status_from deadline budget" status_ready
  "WdaUnreachable (''WDA did not answer /status within '' @ show_nat (budget div 1000) @ '' s'')" 200 REQUEST_TIMEOUT
  for budget
  by unfold_locales (auto simp: status_ready_def split: prod.splits dest: quiet_client)

lemma quiet_run_step: "run_step w = (w', r) \<Longrightarrow> quiet w w'"
proof -
  assume *: "run_step w = (w', r)"
  obtain w1 s where s: "stop_polled w = (w1, s)" by (cases "stop_polled w")
  obtain sl failure where sl: "o_slot (w_out w1) (now (w_clk w1)) = (sl, failure)" by (cases "o_slot (w_out w1) (now (w_clk w1))")
  let ?w2 = "if w_proxy w1 then w1\<lparr>w_stats := stats sl\<rparr> else w1"
  have q: "quiet w w1" "quiet w1 ?w2" using quiet_stop [OF s] by (simp_all add: quiet_def)
  obtain w3 x where l: "look_for_exit ?w2 = (w3, x)" by (cases "look_for_exit ?w2")
  note q3 = quiet_look [OF l]
  have "w' \<in> {w1, ?w2, w3}"
  proof (cases "\<not> s \<and> \<not> (w_proxy w1 \<and> failure \<noteq> None) \<and> \<not> (w_proxy w1 \<and> \<not> is_alive sl)")
    case True
    then have "run_step w = (case look_for_exit ?w2 of
               (w, Some (kind, status, tail)) \<Rightarrow> (w, Some (Inr (ChildExited kind (code_or 1 status))))
             | (w, None) \<Rightarrow> (w, None))"
      unfolding run_step_def s sl by (simp add: sl)
    with * l show ?thesis by (cases x) auto
  next
    case False
    show ?thesis
    proof (cases s)
      case True
      with * s show ?thesis by (simp add: run_step_def)
    next
      case s': False
      with False have p: "w_proxy w1" "failure \<noteq> None \<or> \<not> is_alive sl" by blast+
      then show ?thesis using * s s' sl by (cases failure) (auto simp: run_step_def Let_def)
    qed
  qed
  with q q3 quiet_trans show ?thesis by blast
qed

lemma quiet_run_until_stop: "run_until_stop w = Some x \<Longrightarrow> quiet w (fst x)"
proof (rule run_until_stop.raw_induct [where P = "\<lambda>w x. quiet w (fst x)"])
  fix f w y
  assume ih: "\<And>w y. f w = Some y \<Longrightarrow> quiet w (fst y)"
    and eq: "(let x = run_step w in case snd x of None \<Rightarrow> f (pause 50 (fst x)) | Some r \<Rightarrow> Some (fst x, r)) = Some y"
  obtain v r where r: "run_step w = (v, r)" by (cases "run_step w")
  note q = quiet_run_step [OF r]
  show "quiet w (fst y)"
  proof (cases r)
    case None
    with eq r have "quiet (pause 50 v) (fst y)" by (intro ih) simp
    with q quiet_pause quiet_trans show ?thesis by blast
  next
    case (Some z)
    with eq r q show ?thesis by auto
  qed
qed


text \<open>The command lines of an attempt to forward a port.\<close>

definition forward_commands ::
  "string \<Rightarrow> (string \<times> string) list \<Rightarrow> IosLaunchOptions \<Rightarrow> nat \<Rightarrow> nat list \<Rightarrow> (string \<times> (string \<times> string) list \<times> string list) list" where
  "forward_commands ios env options remote ports = map (\<lambda>p. (ios, env, forward_args options p remote)) ports"

lemma spawn_child_books: "spawn_child kind ios args env wrap w = (w', r) \<Longrightarrow>
  issued (w_host w') = issued (w_host w) @ [(ios, env, args)] \<and> w_children w' = w_children w \<and>
  (\<forall>ch. r = Inr ch \<longrightarrow> sc_kind ch = kind)"
  by (auto simp: spawn_child_def dest!: os_spawn_eq split: prod.splits sum.splits)

lemma spawn_forward_books: "spawn_forward_from k last_tail kind remote options ios env w = Some (w', r) \<Longrightarrow>
  \<exists>ports. length ports \<le> k \<and> issued (w_host w') = issued (w_host w) @ forward_commands ios env options remote ports \<and>
    (case r of Inl _ \<Rightarrow> w_children w' = w_children w
     | Inr port \<Rightarrow> ports \<noteq> [] \<and> last ports = port \<and> (\<exists>ch. w_children w' = w_children w @ [ch] \<and> sc_kind ch = kind))"
proof (induction k arbitrary: last_tail w)
  case 0
  then show ?case by (intro exI [of _ "[]"]) (auto simp: forward_commands_def)
next
  case (Suc k)
  obtain w1 p where f: "free_port w = (w1, p)" by (cases "free_port w")
  then have g1: "w_host w1 = w_host w" "w_children w1 = w_children w" by (auto simp: free_port_def)
  show ?case
  proof (cases p)
    case (Inl e)
    with Suc.prems f g1 show ?thesis by (intro exI [of _ "[]"]) (auto simp: forward_commands_def)
  next
    case (Inr local)
    obtain w2 x where s: "spawn_child kind ios (forward_args options local remote) env ForwardFailed w1 = (w2, x)"
      by (cases "spawn_child kind ios (forward_args options local remote) env ForwardFailed w1")
    note g2 = spawn_child_books [OF s]
    show ?thesis
    proof (cases x)
      case (Inl e)
      with Suc.prems f Inr s g1 g2 show ?thesis by (intro exI [of _ "[local]"]) (auto simp: forward_commands_def)
    next
      case ch: (Inr ch)
      obtain c q b where t: "forward_settle (now (w_clk w2) + FORWARD_SETTLE) (w_clk w2) (sn_child (sc_session ch)) = (c, q, b)"
        by (cases "forward_settle (now (w_clk w2) + FORWARD_SETTLE) (w_clk w2) (sn_child (sc_session ch))")
      let ?ch = "ch\<lparr>sc_session := (sc_session ch)\<lparr>sn_child := q\<rparr>\<rparr>"
      show ?thesis
      proof (cases b)
        case False
        with Suc.prems f Inr s ch t g1 g2 show ?thesis
          by (intro exI [of _ "[local]"]) (auto simp: forward_commands_def Let_def)
      next
        case True
        obtain c2 tail where tl: "child_tail IOS_STDERR_SETTLE_BUDGET c ?ch = (c2, tail)"
          by (cases "child_tail IOS_STDERR_SETTLE_BUDGET c ?ch")
        obtain c3 q2 st where ow: "os_wait c2 q = Some (c3, q2, st)"
          using Suc.prems f Inr s ch t True tl by (cases "os_wait c2 q") (auto simp: Let_def)
        show ?thesis
        proof (cases "str_contains ''address already in use'' (to_ascii_lowercase tail)")
          case False
          with Suc.prems f Inr s ch t \<open>b\<close> tl ow g1 g2 show ?thesis
            by (intro exI [of _ "[local]"]) (auto simp: forward_commands_def Let_def)
        next
          case True
          with Suc.prems f Inr s ch t \<open>b\<close> tl ow
          have "spawn_forward_from k tail kind remote options ios env (set_clk c3 w2) = Some (w', r)" by (simp add: Let_def)
          from Suc.IH [OF this, unfolded set_clk_simps] obtain ports where p: "length ports \<le> k"
            "issued (w_host w') = issued (w_host w2) @ forward_commands ios env options remote ports"
            "case r of Inl _ \<Rightarrow> w_children w' = w_children w2
             | Inr port \<Rightarrow> ports \<noteq> [] \<and> last ports = port \<and> (\<exists>ch. w_children w' = w_children w2 @ [ch] \<and> sc_kind ch = kind)"
            by blast
          then show ?thesis using g1 g2
            by (intro exI [of _ "local # ports"]) (auto simp: forward_commands_def split: sum.splits)
        qed
      qed
    qed
  qed
qed


text \<open>Computations made of quiet steps are quiet.\<close>

definition calm :: "(world \<Rightarrow> (world \<times> 'r) option) \<Rightarrow> bool" where
  "calm f \<longleftrightarrow> (\<forall>w w' r. f w = Some (w', r) \<longrightarrow> quiet w w')"

lemma calm_then: "calm x \<Longrightarrow> (\<And>a. calm (f a)) \<Longrightarrow> calm (\<lambda>w. then_w (x w) f)"
  by (fastforce simp: calm_def then_w_def split: option.splits prod.splits sum.splits dest: quiet_trans)

lemma calm_step: "(\<And>w w' r. g w = (w', r) \<Longrightarrow> quiet w w') \<Longrightarrow> calm (\<lambda>w. Some (g w))"
  by (simp add: calm_def)

lemma calm_if: "calm f \<Longrightarrow> calm g \<Longrightarrow> calm (\<lambda>w. if b then f w else g w)"
  by (simp add: calm_def)

lemma calm_start: "calm f \<Longrightarrow> (\<And>w. quiet w (g w)) \<Longrightarrow> calm (\<lambda>w. f (g w))"
  using quiet_trans by (fastforce simp: calm_def)

lemma serve_calm: "calm (serve http mjpeg options)"
proof -
  have s: "calm (\<lambda>w. Some (await_status (io_status_budget options) w))"
    unfolding await_status_def using status_quiet.wait_quiet by (intro calm_step) blast
  have r: "calm (\<lambda>w. run_until_stop (w\<lparr>w_proxy := True, w_client := True, w_status := w_status w @ [IosRunning port]\<rparr>))" for port
    by (rule calm_start) (auto simp: calm_def quiet_def dest: quiet_run_until_stop)
  show ?thesis
    unfolding serve_def Let_def
    by (rule calm_start [where f = "\<lambda>w. then_w (Some (await_status (io_status_budget options) w)) _"])
      (auto intro!: calm_then calm_if r calm_step s dest: quiet_client quiet_proxy_start simp: quiet_def [of _ "w_wda_update _ _"])
qed


definition launches :: "(string \<times> (string \<times> string) list \<times> string list) list \<Rightarrow> ChildKind list \<Rightarrow> world \<Rightarrow> world \<Rightarrow> bool" where
  "launches cmds kinds w w' \<longleftrightarrow> issued (w_host w') = issued (w_host w) @ cmds \<and>
     map sc_kind (w_children w') = map sc_kind (w_children w) @ kinds"

lemma launches_trans: "launches c1 k1 u v \<Longrightarrow> launches c2 k2 v w \<Longrightarrow> launches (c1 @ c2) (k1 @ k2) u w"
  by (simp add: launches_def)

lemma quiet_launches: "quiet u v \<longleftrightarrow> launches [] [] u v"
  by (simp add: quiet_def launches_def)

definition kept :: "'e + 'a \<Rightarrow> ChildKind \<Rightarrow> ChildKind list" where
  "kept r kind = (if isOk r then [kind] else [])"

lemma push_child_launches: "push_child (spawn_child kind ios args env wrap w) = (w', r) \<Longrightarrow>
  launches [(ios, env, args)] (kept r kind) w w'"
proof -
  assume *: "push_child (spawn_child kind ios args env wrap w) = (w', r)"
  obtain w1 x where s: "spawn_child kind ios args env wrap w = (w1, x)" by (cases "spawn_child kind ios args env wrap w")
  from * s spawn_child_books [OF s] show ?thesis by (cases x) (auto simp: push_child_def launches_def kept_def)
qed

lemma spawn_forward_launches: "spawn_forward kind remote options ios env w = Some (w', r) \<Longrightarrow>
  \<exists>ports. length ports \<le> FORWARD_PORT_ATTEMPTS \<and> launches (forward_commands ios env options remote ports) (kept r kind) w w'"
  using spawn_forward_books [of FORWARD_PORT_ATTEMPTS "[]" kind remote options ios env w w' r]
  by (cases r) (auto simp: spawn_forward_def launches_def kept_def)

text \<open>What a start-up launches when nothing goes wrong, the retries of the port forwards included.\<close>

definition launch_plan ::
  "IosLaunchOptions \<Rightarrow> string \<Rightarrow> WdaIds \<Rightarrow> (string \<times> string) list \<Rightarrow> nat list \<Rightarrow> nat list \<Rightarrow>
   (string \<times> (string \<times> string) list \<times> string list) list" where
  "launch_plan options ios ids env ps qs =
     [(ios, env, tunnel_args options), (ios, env, runwda_args options ids)] @
     forward_commands ios env options 8100 ps @ forward_commands ios env options 9100 qs"

lemma start_session_launches:
  assumes "io_mode options = Launch ios ids env" and "start_session options w = Some (w', r)"
  obtains cmds kinds ps qs where "launches cmds kinds w w'" "prefix cmds (launch_plan options ios ids env ps qs)"
    "prefix kinds [Tunnel, RunWda, ForwardHttp, ForwardMjpeg]" "length ps \<le> FORWARD_PORT_ATTEMPTS" "length qs \<le> FORWARD_PORT_ATTEMPTS"
    "length cmds \<ge> 2 \<longrightarrow> (\<exists>v v'. tunnel_is_registered (io_udid options) v = (v', True) \<and> launches (take 1 cmds) [Tunnel] w v')"
proof -
  let ?t = "(ios, env, tunnel_args options)" and ?rw = "(ios, env, runwda_args options ids)"
  obtain w1 r1 where s1: "push_child (spawn_child Tunnel ios (tunnel_args options) env TunnelFailed w) = (w1, r1)"
    by (cases "push_child (spawn_child Tunnel ios (tunnel_args options) env TunnelFailed w)")
  obtain w2 r2 where s2: "await_tunnel options w1 = (w2, r2)" by (cases "await_tunnel options w1")
  obtain w3 r3 where s3: "push_child (spawn_child RunWda ios (runwda_args options ids) env WdaUnreachable w2) = (w3, r3)"
    by (cases "push_child (spawn_child RunWda ios (runwda_args options ids) env WdaUnreachable w2)")
  obtain w4 r4 where s4: "spawn_forward ForwardHttp 8100 options ios env w3 = Some (w4, r4)"
    using spawn_forward_goes [of FORWARD_PORT_ATTEMPTS "[]" ForwardHttp 8100 options ios env w3] unfolding spawn_forward_def by blast
  obtain w5 r5 where s5: "spawn_forward ForwardMjpeg 9100 options ios env w4 = Some (w5, r5)"
    using spawn_forward_goes [of FORWARD_PORT_ATTEMPTS "[]" ForwardMjpeg 9100 options ios env w4] unfolding spawn_forward_def by blast
  note 1 = push_child_launches [OF s1] and 3 = push_child_launches [OF s3]
  have 2: "launches [] [] w1 w2" "r2 = Inr Ready \<longrightarrow> (\<exists>v. tunnel_is_registered (io_udid options) v = (w2, True))"
    using tunnel_quiet.wait_quiet [of _ _ w1 w2 r2] s2 unfolding await_tunnel_def quiet_launches by blast+
  obtain ps where 4: "length ps \<le> FORWARD_PORT_ATTEMPTS" "launches (forward_commands ios env options 8100 ps) (kept r4 ForwardHttp) w3 w4"
    using spawn_forward_launches [OF s4] by blast
  obtain qs where 5: "length qs \<le> FORWARD_PORT_ATTEMPTS" "launches (forward_commands ios env options 9100 qs) (kept r5 ForwardMjpeg) w4 w5"
    using spawn_forward_launches [OF s5] by blast
  note l2 = launches_trans [OF 1 2(1)] note l3 = launches_trans [OF l2 3] note l4 = launches_trans [OF l3 4(2)]
  note l5 = launches_trans [OF l4 5(2)]
  have eq: "start_session options w = (case r1 of Inl e \<Rightarrow> Some (w1, Inl e) | Inr _ \<Rightarrow>
      (case r2 of Inl e \<Rightarrow> Some (w2, Inl e) | Inr q \<Rightarrow> if q = StopRequested then Some (w2, Inr Requested) else
      (case r3 of Inl e \<Rightarrow> Some (w3, Inl e) | Inr _ \<Rightarrow>
      (case r4 of Inl e \<Rightarrow> Some (w4, Inl e) | Inr http \<Rightarrow>
      (case r5 of Inl e \<Rightarrow> Some (w5, Inl e) | Inr mjpeg \<Rightarrow> serve http mjpeg options w5)))))"
    by (simp only: start_session_def assms(1) LaunchMode.case s1 s2 s3 s4 s5 then_w_def option.case prod.case)
  note k = kept_def launch_plan_def
  consider (a) e where "r1 = Inl e" "w' = w1" | (b) x where "r1 = Inr x" "w' = w2" | (c) x e where "r1 = Inr x" "r2 = Inr Ready" "r3 = Inl e" "w' = w3"
    | (d) x y e where "r1 = Inr x" "r2 = Inr Ready" "r3 = Inr y" "r4 = Inl e" "w' = w4"
    | (e) x y h e where "r1 = Inr x" "r2 = Inr Ready" "r3 = Inr y" "r4 = Inr h" "r5 = Inl e" "w' = w5"
    | (f) x y h m where "r1 = Inr x" "r2 = Inr Ready" "r3 = Inr y" "r4 = Inr h" "r5 = Inr m" "serve h m options w5 = Some (w', r)"
    using assms(2) Readiness.exhaust unfolding eq by (auto split: sum.splits if_splits)
  then show thesis
  proof cases
    case a
    with 1 show thesis by (intro that [of "[?t]" "[]" "[]" "[]"]) (simp_all add: k)
  next
    case b
    with l2 show thesis by (intro that [of "[?t]" "[Tunnel]" "[]" "[]"]) (simp_all add: k)
  next
    case c
    with l3 l2 2(2) show thesis by (intro that [of "[?t, ?rw]" "[Tunnel]" "[]" "[]"]) (auto simp: k)
  next
    case d
    with l4 l2 2(2) 4(1) show thesis
      by (intro that [of "[?t, ?rw] @ forward_commands ios env options 8100 ps" "[Tunnel, RunWda]" ps "[]"]) (auto simp: k)
  next
    case e
    with l5 l2 2(2) 4(1) 5(1) show thesis
      by (intro that [of "launch_plan options ios ids env ps qs" "[Tunnel, RunWda, ForwardHttp]" ps qs]) (auto simp: k)
  next
    case f
    have "launches [] [] w5 w'" using serve_calm [of h m options] f(6) unfolding calm_def quiet_launches by blast
    from launches_trans [OF l5 this] f l2 2(2) 4(1) 5(1) show thesis
      by (intro that [of "launch_plan options ios ids env ps qs" "[Tunnel, RunWda, ForwardHttp, ForwardMjpeg]" ps qs]) (auto simp: k)
  qed
qed


lemma connect_refused: "connect_from connects port budget deadline c = (c', r) \<Longrightarrow> \<forall>t. snd (connects t) \<noteq> None \<Longrightarrow>
  deadline \<le> now c' \<and> (\<exists>e. r = Inl (ProxyFailed e))"
proof (induction connects port budget deadline c rule: connect_from.induct)
  case (1 connects port budget deadline c)
  note unf = connect_from.simps [of connects port budget deadline c]
  obtain d e where c: "connects (now c) = (d, e)" by (cases "connects (now c)")
  with "1.prems"(2) obtain x where e: "e = Some x" by (metis not_None_eq snd_conv)
  show ?case
  proof (cases "deadline \<le> now c + d")
    case True
    with "1.prems" c e show ?thesis by (auto simp: unf Let_def)
  next
    case False
    have "connect_from connects port budget deadline (os_sleep 50 (c\<lparr>now := now c + d\<rparr>)) = (c', r)"
      using "1.prems" c e False by (simp add: unf Let_def)
    then show ?thesis by (intro "1.IH" [OF refl c [symmetric] refl e _ _ "1.prems"(2)]) (use False in simp_all)
  qed
qed

section \<open>Properties\<close>

text \<open>
  C29. The end of an iOS session always comes to its end: whatever the children do with the gentle
  signals, each of them is dead and reaped when the list is cleared, none is missing, the proxy and
  the client are gone, and \<open>Stopping\<close> was shown. With threads of the proxy that end within \<open>D\<close>, and
  scheduling delays of at most \<open>J\<close>, it takes the time stated; for \<open>D + 3 J \<le> 595\<close> this is within
  \<open>IOS_SHUTDOWN_DEADLINE\<close>.
\<close>

theorem ios_shutdown_reaps:
  assumes "list_all waitable (w_children w)" and "\<forall>t. lag (w_clk w) t \<le> J" and "\<forall>d \<in> set (o_joins (w_out w)). d \<le> D"
  shows "\<exists>w' chs. ios_shutdown w = Some w' \<and> w_children w' = [] \<and> w_ended w' = w_ended w @ chs \<and>
    map sc_kind chs = map sc_kind (w_children w) \<and> map pid (child_procs chs) = map pid (child_procs (w_children w)) \<and>
    (\<forall>p \<in> set (child_procs chs). reaped p \<and> exited_by (now (w_clk w')) p) \<and>
    \<not> w_proxy w' \<and> \<not> w_client w' \<and> w_status w' = w_status w @ [IosStopping] \<and>
    now (w_clk w') \<le> now (w_clk w) + D + 6405 + 3 * J \<and>
    (D + 3 * J \<le> 595 \<longrightarrow> now (w_clk w') \<le> now (w_clk w) + IOS_SHUTDOWN_DEADLINE)"
proof -
  obtain w' chs where s: "ios_shutdown w = Some w'" "w_children w' = []" "w_ended w' = w_ended w @ chs"
    "map sc_kind chs = map sc_kind (w_children w)" "map pid (child_procs chs) = map pid (child_procs (w_children w))"
    "\<forall>p \<in> set (child_procs chs). gone (w_clk w') p" "w_status w' = w_status w @ [IosStopping]" "\<not> w_proxy w'" "\<not> w_client w'"
    "\<forall>J D. (\<forall>t. lag (w_clk w) t \<le> J) \<longrightarrow> (\<forall>d \<in> set (o_joins (w_out w)). d \<le> D) \<longrightarrow>
      now (w_clk w') \<le> now (w_clk w) + D + DELETE_SESSION_TIMEOUT + 5405 + 3 * J"
    by (rule ios_shutdown_spec [OF assms(1)])
  have "now (w_clk w') \<le> now (w_clk w) + D + 6405 + 3 * J"
    using s(10) [rule_format, OF assms(2) [rule_format] assms(3) [rule_format]] by (simp add: DELETE_SESSION_TIMEOUT_def)
  with s show ?thesis by (auto simp: gone_def IOS_SHUTDOWN_DEADLINE_def)
qed

definition quiet_outside :: outside where
  "quiet_outside = \<lparr>o_ports = (\<lambda>i. Inr (50000 + i)), o_tunnels = (\<lambda>_. (0, None)), o_parse = (\<lambda>_. Inl []),
     o_progress = (\<lambda>_ _. 0), o_listen = Inr 40000, o_connect = (\<lambda>_. (0, Some ''refused'')), o_clone = None,
     o_slot = (\<lambda>_. (new_slot, None)), o_joins = [30, 40, 50]\<rparr>"

definition some_ids :: WdaIds where
  "some_ids = \<lparr>wi_bundle_id = ''b'', wi_testrunner_id = ''t'', wi_xctestconfig = ''x''\<rparr>"

definition quiet_world :: world where
  "quiet_world = \<lparr>w_host = \<lparr>clk = clock0, issued = [], launch = (\<lambda>_ _ _ _. Inr stubborn)\<rparr>,
     w_wda = demo_wda False, w_stop = (\<lambda>n. n = 5), w_out = quiet_outside, w_ports_taken = 0, w_children = [],
     w_proxy = False, w_client = False, w_stats = stats new_slot, w_status = [IosStarting], w_ended = []\<rparr>"

definition busy_world :: world where
  "busy_world = quiet_world\<lparr>w_children := map (\<lambda>k. \<lparr>sc_kind = k, sc_session = \<lparr>sn_child = stubborn, sn_progress = (\<lambda>_. 0)\<rparr>\<rparr>)
     [Tunnel, RunWda, ForwardHttp, ForwardMjpeg], w_proxy := True, w_client := True\<rparr>"

lemmas busy_defs = busy_world_def quiet_world_def quiet_outside_def waitable_def stubborn_def clock0_def

theorem ios_shutdown_reaps_witness:
  "\<exists>w' chs. ios_shutdown busy_world = Some w' \<and> map sc_kind chs = [Tunnel, RunWda, ForwardHttp, ForwardMjpeg] \<and>
     w_ended w' = chs \<and> list_all (\<lambda>p. reaped p \<and> exited_by (now (w_clk w')) p) (child_procs chs) \<and>
     now (w_clk w') \<le> 7000"
proof -
  have "list_all waitable (w_children busy_world)" "\<forall>t. lag (w_clk busy_world) t \<le> 100" "\<forall>d \<in> set (o_joins (w_out busy_world)). d \<le> 100"
    by (simp_all add: busy_defs)
  from ios_shutdown_reaps [OF this] show ?thesis
    by (auto simp: list_all_iff busy_defs IOS_SHUTDOWN_DEADLINE_def)
qed

lemma ios_supervise_ends:
  assumes "healthy w" and "w_stop w n" and "polls (w_clk w) \<le> n"
  shows "\<exists>w' chs run last. ios_supervise options w = Some w' \<and> w_children w' = [] \<and> w_ended w' = w_ended w @ chs \<and>
    (\<forall>p \<in> set (child_procs chs). reaped p \<and> exited_by (now (w_clk w')) p) \<and> \<not> w_proxy w' \<and> \<not> w_client w' \<and>
    w_status w' = w_status w @ run @ [IosStopping, last] \<and> run \<in> {[]} \<union> range (\<lambda>port. [IosRunning port]) \<and>
    last \<in> range IosExited \<union> range (\<lambda>e. IosFailed (ios_error_code e))"
proof -
  obtain v r where s: "start_session options w = Some (v, r)" "advances w v"
    using start_session_returns [OF assms(2,3)] by blast
  obtain run where v: "w_status v = w_status w @ run" "run \<in> {[]} \<union> range (\<lambda>port. [IosRunning port])"
    "w_ended v = w_ended w" "list_all waitable (w_children v)"
    using s(2) assms(1) by (auto simp: advances_def healthy_def)
  obtain w' chs where d: "ios_shutdown v = Some w'" "w_children w' = []" "w_ended w' = w_ended v @ chs"
    "map sc_kind chs = map sc_kind (w_children v)" "map pid (child_procs chs) = map pid (child_procs (w_children v))"
    "\<forall>p \<in> set (child_procs chs). gone (w_clk w') p" "w_status w' = w_status v @ [IosStopping]" "\<not> w_proxy w'" "\<not> w_client w'"
    by (rule ios_shutdown_spec [OF v(4)])
  let ?last = "case r of Inl e \<Rightarrow> IosFailed (ios_error_code e) | Inr reason \<Rightarrow> IosExited reason"
  have "ios_supervise options w = Some (w'\<lparr>w_status := w_status w' @ [?last]\<rparr>)"
    by (simp add: ios_supervise_def s(1) d(1))
  moreover have "?last \<in> range IosExited \<union> range (\<lambda>e. IosFailed (ios_error_code e))" by (cases r) auto
  moreover have "\<forall>p \<in> set (child_procs chs). reaped p \<and> exited_by (now (w_clk w')) p" using d(6) by (simp add: gone_def)
  ultimately show ?thesis using d v
    by (intro exI [of _ "w'\<lparr>w_status := w_status w' @ [?last]\<rparr>"] exI [of _ chs] exI [of _ run] exI [of _ ?last]) simp
qed

text \<open>
  C1. A session ends, and ends clean: if a stop request is there at some look into the channel,
  the thread finishes, wherever the start-up or the run was then, and without one it may finish
  earlier. Nothing is left: every child it kept is dead and reaped, the proxy and the client are
  gone. What was shown is at most one \<open>Running\<close>, then \<open>Stopping\<close>, then one final status that carries
  a stable code or a reason and no text of a child.
\<close>

theorem ios_session_ends:
  assumes "healthy w" and "w_stop w n" and "polls (w_clk w) \<le> n"
  shows "\<exists>w' chs run last. ios_supervise options w = Some w' \<and> w_children w' = [] \<and> w_ended w' = w_ended w @ chs \<and>
    (\<forall>p \<in> set (child_procs chs). reaped p \<and> exited_by (now (w_clk w')) p) \<and> \<not> w_proxy w' \<and> \<not> w_client w' \<and>
    w_status w' = w_status w @ run @ [IosStopping, last] \<and> run \<in> {[]} \<union> range (\<lambda>port. [IosRunning port]) \<and>
    last \<in> range IosExited \<union> range (\<lambda>e. IosFailed (ios_error_code e))"
  using assms by (rule ios_supervise_ends)

theorem ios_session_ends_witness:
  "\<exists>w' run last. ios_supervise (ios_launch_options ''U'' (Launch ''ios'' some_ids []))
       quiet_world = Some w' \<and> w_children w' = [] \<and>
     list_all (\<lambda>p. reaped p \<and> exited_by (now (w_clk w')) p) (child_procs (w_ended w')) \<and>
     w_status w' = IosStarting # run @ [IosStopping, last] \<and> length run \<le> 1"
proof -
  have "healthy quiet_world" by (auto simp: healthy_def busy_defs)
  moreover have "w_stop quiet_world 5" "polls (w_clk quiet_world) \<le> 5" by (simp_all add: busy_defs)
  ultimately show ?thesis
    using ios_session_ends [of quiet_world 5 "ios_launch_options ''U'' (Launch ''ios'' some_ids [])"]
    by (fastforce simp: list_all_iff quiet_world_def)
qed



text \<open>
  The two waits of the start-up are bounded by their budgets plus one round, and a stop request
  that is there at their first look ends them at once, as a stop and not as a failure.
\<close>

theorem startup_waits_bounded:
  assumes "\<forall>t. lag (w_clk w) t \<le> J"
  shows "now (w_clk (fst (await_tunnel options w))) \<le> now (w_clk w) + io_tunnel_ready_budget options + 1305 + 2 * J \<and>
    now (w_clk (fst (await_status budget w))) \<le> now (w_clk w) + budget + 5405 + 2 * J \<and>
    (w_stop w (polls (w_clk w)) \<longrightarrow> snd (await_tunnel options w) = Inr StopRequested \<and> snd (await_status budget w) = Inr StopRequested \<and>
       now (w_clk (fst (await_tunnel options w))) = now (w_clk w) \<and> now (w_clk (fst (await_status budget w))) = now (w_clk w))"
proof (intro conjI impI)
  obtain w1 r1 where 1: "await_tunnel options w = (w1, r1)" by (cases "await_tunnel options w")
  obtain w2 r2 where 2: "await_status budget w = (w2, r2)" by (cases "await_status budget w")
  show "now (w_clk (fst (await_tunnel options w))) \<le> now (w_clk w) + io_tunnel_ready_budget options + 1305 + 2 * J"
    using tunnel_wait.wait_time [OF 1 [unfolded await_tunnel_def] assms] 1 by (simp add: IOS_STDERR_SETTLE_BUDGET_def)
  show "now (w_clk (fst (await_status budget w))) \<le> now (w_clk w) + budget + 5405 + 2 * J"
    using status_wait.wait_time [OF 2 [unfolded await_status_def] assms] 2
    by (simp add: IOS_STDERR_SETTLE_BUDGET_def REQUEST_TIMEOUT_def)
  assume s: "w_stop w (polls (w_clk w))"
  obtain v where v: "stop_polled w = (v, True)" "now (w_clk v) = now (w_clk w)"
    using s by (auto simp: stop_polled_def poll_flag_def)
  have e: "await_tunnel options w = (v, Inr StopRequested)" "await_status budget w = (v, Inr StopRequested)"
    by (simp_all add: await_tunnel_def await_status_def await_tunnel_from.simps [of _ _ w] await_status_from.simps [of _ _ w] v(1))
  with v(2) show "snd (await_tunnel options w) = Inr StopRequested" "snd (await_status budget w) = Inr StopRequested"
    "now (w_clk (fst (await_tunnel options w))) = now (w_clk w)" "now (w_clk (fst (await_status budget w))) = now (w_clk w)"
    by simp_all
qed

theorem startup_waits_bounded_witness:
  "snd (await_tunnel (ios_launch_options ''U'' (Attach 8100 9100)) (quiet_world\<lparr>w_stop := \<lambda>_. True\<rparr>)) = Inr StopRequested \<and>
   now (w_clk (fst (await_status 60000 quiet_world))) \<le> 65405"
  using startup_waits_bounded [of "quiet_world\<lparr>w_stop := \<lambda>_. True\<rparr>" 0 "ios_launch_options ''U'' (Attach 8100 9100)" 60000]
    startup_waits_bounded [of quiet_world 0 "ios_launch_options ''U'' (Attach 8100 9100)" 60000]
  by (simp add: busy_defs)

text \<open>
  The start of the proxy is deaf: while the forwarded port refuses, it goes on trying for ten
  seconds and never looks for a stop request, longer than the seven seconds that a shutdown of all
  sessions waits. Then it fails, and no proxy is kept.
\<close>

theorem proxy_start_deaf_to_stop:
  assumes "o_listen (w_out w) = Inr local_port" and "\<forall>t. snd (o_connect (w_out w) t) \<noteq> None"
  shows "case proxy_start port w of (w', r) \<Rightarrow>
    now (w_clk w) + IOS_SHUTDOWN_DEADLINE < now (w_clk w') \<and> polls (w_clk w') = polls (w_clk w) \<and>
    (\<exists>e. r = Inl (ProxyFailed e)) \<and> w_proxy w' = w_proxy w"
proof -
  obtain c r where c: "connect_upstream (o_connect (w_out w)) port UPSTREAM_CONNECT_BUDGET (w_clk w) = (c, r)"
    by (cases "connect_upstream (o_connect (w_out w)) port UPSTREAM_CONNECT_BUDGET (w_clk w)")
  note f = connect_refused [OF c [unfolded connect_upstream_def] assms(2)] connect_clock [OF c [unfolded connect_upstream_def]]
  then obtain e where "r = Inl (ProxyFailed e)" by blast
  then have "proxy_start port w = (set_clk c w, Inl (ProxyFailed e))" by (simp add: proxy_start_def assms(1) c)
  with f show ?thesis by (simp add: IOS_SHUTDOWN_DEADLINE_def UPSTREAM_CONNECT_BUDGET_def)
qed

theorem proxy_start_deaf_to_stop_witness:
  "case proxy_start 9100 quiet_world of (w', r) \<Rightarrow> IOS_SHUTDOWN_DEADLINE < now (w_clk w') \<and> polls (w_clk w') = 0"
proof -
  obtain w' r where p: "proxy_start 9100 quiet_world = (w', r)" by (cases "proxy_start 9100 quiet_world")
  have "o_listen (w_out quiet_world) = Inr 40000" "\<forall>t. snd (o_connect (w_out quiet_world) t) \<noteq> None"
    "now (w_clk quiet_world) = 0" "polls (w_clk quiet_world) = 0" by (simp_all add: busy_defs)
  with proxy_start_deaf_to_stop [of quiet_world 40000 9100] p show ?thesis by simp
qed

end
