(* ===== verification/IosStartup.thy ===== *)
theory IosStartup
  imports IosLaunch
begin

text \<open>
  An iOS session that comes up (\<open>quadcontrol-ios\<close>, \<open>session.rs\<close>): on a machine where \<open>go-ios\<close> runs, the
  tunnel of the device registers in time and WebDriverAgent answers, the thread reaches the run, shows
  the port of the pictures, and runs until it is told to stop.
\<close>

section \<open>A machine that works\<close>

definition runs :: "sup_child \<Rightarrow> bool" where
  "runs ch \<longleftrightarrow> exit_at (sn_child (sc_session ch)) = None \<and> wait_err (sn_child (sc_session ch)) = None"

text \<open>The children run, so do those that the commands \<open>Q\<close> launch, and there are free ports.\<close>

definition steady :: "(string \<Rightarrow> (string \<times> string) list \<Rightarrow> string list \<Rightarrow> bool) \<Rightarrow> world \<Rightarrow> bool" where
  "steady Q w \<longleftrightarrow> list_all runs (w_children w) \<and>
     (\<forall>i path env args. Q path env args \<longrightarrow> (\<exists>p. launch (w_host w) i path env args = Inr p \<and> exit_at p = None \<and> wait_err p = None)) \<and>
     (\<forall>i. isOk (o_ports (w_out w) i))"

text \<open>From \<open>t0\<close> on the tunnel of the device is listed, in time.\<close>

definition tunnel_up :: "string \<Rightarrow> outside \<Rightarrow> nat \<Rightarrow> bool" where
  "tunnel_up udid env t0 \<longleftrightarrow> (\<forall>t \<ge> t0. \<exists>d body tunnels. o_tunnels env t = (d, Some body) \<and> d \<le> 1000 \<and>
     parse_tunnels (o_parse env) body = Some tunnels \<and> udid \<in> set (map ti_udid tunnels))"

text \<open>WebDriverAgent is silent until the \<open>m\<close>-th request; from then on it answers in time, and opens sessions.\<close>

definition wda_up :: "wda \<Rightarrow> nat \<Rightarrow> bool" where
  "wda_up a m \<longleftrightarrow> (\<forall>log. length log < m \<longrightarrow> (\<exists>d e. wd_answer a log = (d, HttpTransport e))) \<and>
     (\<forall>log. m \<le> length log \<longrightarrow> (\<exists>d body v. wd_answer a log = (d, HttpOk body None) \<and> d \<le> REQUEST_TIMEOUT \<and>
     body \<noteq> [] \<and> length body \<le> BODY_LIMIT \<and> wd_parse a body = Inr v \<and>
     (ends_with ''/session'' (rq_url (last log)) \<longrightarrow> session_id_of v \<noteq> None)))"

text \<open>The pictures can be connected to, and flow.\<close>

definition pictures_up :: "outside \<Rightarrow> nat \<Rightarrow> bool" where
  "pictures_up env port \<longleftrightarrow> o_listen env = Inr port \<and> o_clone env = None \<and> (\<forall>t. snd (o_connect env t) = None) \<and>
     (\<forall>t. snd (o_slot env t) = None \<and> is_alive (fst (o_slot env t)))"

section \<open>Steps on such a machine\<close>

text \<open>A step that leaves the children, what was launched and the client as they are.\<close>

definition onward :: "(string \<Rightarrow> (string \<times> string) list \<Rightarrow> string list \<Rightarrow> bool) \<Rightarrow> world \<Rightarrow> world \<Rightarrow> bool" where
  "onward Q w w' \<longleftrightarrow> goes w w' \<and> steady Q w' \<and> w_children w' = w_children w \<and> issued (w_host w') = issued (w_host w) \<and> w_wda w' = w_wda w"

lemma onward_trans: "onward Q u v \<Longrightarrow> onward Q v w \<Longrightarrow> onward Q u w"
  using goes_trans by (auto simp: onward_def)

lemma onward_set_clk: "steady Q w \<Longrightarrow> now (w_clk w) \<le> now c \<Longrightarrow> lag c = lag (w_clk w) \<Longrightarrow> onward Q w (set_clk c w)"
  by (auto simp: onward_def steady_def intro: goes_set_clk)

lemma onward_pause: "steady Q w \<Longrightarrow> onward Q w (pause d w)"
  unfolding pause_def by (rule onward_set_clk) simp_all

lemma running_try_wait: "exit_at p = None \<Longrightarrow> wait_err p = None \<Longrightarrow> os_try_wait c p = (p, Inr None)"
  by (simp add: os_try_wait_def)

lemma first_exit_running: "list_all runs chs \<Longrightarrow> first_exit c chs = (chs, None)"
  by (induction chs) (simp_all add: runs_def running_try_wait)

lemma steady_look: "steady Q w \<Longrightarrow> look_for_exit w = (w, None)"
  by (simp add: steady_def look_for_exit_def first_exit_running)

lemma steady_failure: "steady Q w \<Longrightarrow> first_child_failure w = (w, None)"
  by (simp add: first_child_failure_def steady_look)

lemma steady_stop:
  assumes "steady Q w" "\<not> w_stop w (polls (w_clk w))"
  obtains w1 where "stop_polled w = (w1, False)" "onward Q w w1" "now (w_clk w1) = now (w_clk w)"
    "polls (w_clk w1) = Suc (polls (w_clk w))"
proof -
  obtain w1 b where s: "stop_polled w = (w1, b)" by (cases "stop_polled w")
  have w1: "w1 = set_clk ((w_clk w)\<lparr>polls := Suc (polls (w_clk w))\<rparr>) w" "\<not> b"
    using stop_polled_simps [OF s] assms(2) by simp_all
  have "onward Q w w1" unfolding w1(1) by (rule onward_set_clk [OF assms(1)]) simp_all
  with s w1 show thesis by (intro that [of w1]) simp_all
qed

lemma steady_spawn:
  assumes "steady Q w" "Q ios env args"
  obtains w' where "push_child (spawn_child kind ios args env wrap w) = (w', Inr ())" "goes w w'" "steady Q w'"
    "map sc_kind (w_children w') = map sc_kind (w_children w) @ [kind]"
    "issued (w_host w') = issued (w_host w) @ [(ios, env, args)]" "w_wda w' = w_wda w" "w_clk w' = w_clk w"
proof -
  obtain p where p: "launch (w_host w) (length (issued (w_host w))) ios env args = Inr p" "exit_at p = None" "wait_err p = None"
    using assms unfolding steady_def by meson
  let ?h = "(w_host w)\<lparr>issued := issued (w_host w) @ [(ios, env, args)]\<rparr>"
  let ?ch = "\<lparr>sc_kind = kind, sc_session = \<lparr>sn_child = p, sn_progress = o_progress (w_out w) (length (issued ?h))\<rparr>\<rparr>"
  have "p\<lparr>exit_at := None\<rparr> = p" using p(2) by simp
  then have "spawn_child kind ios args env wrap w = (w\<lparr>w_host := ?h\<rparr>, Inr ?ch)"
    using p by (simp add: spawn_child_def os_spawn_env_def)
  then have e: "push_child (spawn_child kind ios args env wrap w) = (w\<lparr>w_host := ?h, w_children := w_children w @ [?ch]\<rparr>, Inr ())"
    by (simp add: push_child_def)
  have st: "steady Q (w\<lparr>w_host := ?h, w_children := w_children w @ [?ch]\<rparr>)" using assms p by (simp add: steady_def runs_def)
  show thesis by (rule that [OF e conjunct1 [OF push_child_goes [OF e]] st]) simp_all
qed

lemma steady_forward:
  assumes "steady Q w" "\<And>p. Q ios env (forward_args options p remote)"
  obtains w' q where "spawn_forward kind remote options ios env w = Some (w', Inr q)" "goes w w'" "steady Q w'"
    "map sc_kind (w_children w') = map sc_kind (w_children w) @ [kind]"
    "issued (w_host w') = issued (w_host w) @ [(ios, env, forward_args options q remote)]" "w_wda w' = w_wda w"
    "polls (w_clk w') = polls (w_clk w)"
proof -
  obtain q where q: "o_ports (w_out w) (w_ports_taken w) = Inr q"
    using assms by (auto simp: steady_def) (metis isOk.elims(2))
  let ?w = "w\<lparr>w_ports_taken := w_ports_taken w + 1\<rparr>" and ?args = "forward_args options q remote"
  obtain p where p: "launch (w_host w) (length (issued (w_host w))) ios env ?args = Inr p" "exit_at p = None" "wait_err p = None"
    using assms unfolding steady_def by meson
  let ?h = "(w_host w)\<lparr>issued := issued (w_host w) @ [(ios, env, ?args)]\<rparr>"
  let ?ch = "\<lparr>sc_kind = kind, sc_session = \<lparr>sn_child = p, sn_progress = o_progress (w_out w) (length (issued ?h))\<rparr>\<rparr>"
  have "p\<lparr>exit_at := None\<rparr> = p" using p(2) by simp
  then have s: "spawn_child kind ios ?args env ForwardFailed ?w = (?w\<lparr>w_host := ?h\<rparr>, Inr ?ch)"
    using p by (simp add: spawn_child_def os_spawn_env_def)
  have settle: "\<exists>c'. forward_settle deadline c p = (c', p, False)" for deadline c
  proof (induction "deadline - now c" arbitrary: c rule: less_induct)
    case less
    show ?case
    proof (cases "now c < deadline")
      case True
      have "deadline - now (os_sleep 20 c) < deadline - now c" using True by simp
      from less.hyps [OF this] True show ?thesis
        by (simp add: forward_settle.simps [of deadline c p] running_try_wait p saw_exit_def)
    qed (simp add: forward_settle.simps [of deadline c p])
  qed
  obtain c where c: "forward_settle (now (w_clk w) + FORWARD_SETTLE) (w_clk w) p = (c, p, False)" using settle by blast
  let ?w' = "(set_clk c (?w\<lparr>w_host := ?h\<rparr>))\<lparr>w_children := w_children w @ [?ch]\<rparr>"
  have e: "spawn_forward kind remote options ios env w = Some (?w', Inr q)"
    unfolding spawn_forward_def FORWARD_PORT_ATTEMPTS_def
    by (simp add: numeral_eq_Suc free_port_def q s [simplified] c Let_def)
  have g: "goes w ?w'" "polls (w_clk ?w') = polls (w_clk w)"
    using spawn_forward_goes [of FORWARD_PORT_ATTEMPTS "[]" kind remote options ios env w] e by (auto simp: spawn_forward_def)
  have "steady Q ?w'" using assms p by (simp add: steady_def runs_def)
  then show thesis by (rule that [OF e g(1)]) (use g(2) in simp_all)
qed

text \<open>How many rounds of a wait fit before a moment, one more included.\<close>

definition rounds :: "nat \<Rightarrow> nat" where "rounds d = (d + 99) div 100 + 1"

lemma rounds_less: "a < t0 \<Longrightarrow> a + 100 \<le> b \<Longrightarrow> rounds (t0 - b) + 1 \<le> rounds (t0 - a)"
proof -
  assume *: "a < t0" "a + 100 \<le> b"
  show ?thesis
  proof (cases "b < t0")
    case True
    then have "t0 - b + 199 \<le> t0 - a + 99" using * by linarith
    then have "(t0 - b + 199) div 100 \<le> (t0 - a + 99) div 100" by (rule div_le_mono)
    moreover have "(t0 - b + 199) div 100 = (t0 - b + 99) div 100 + 1" by simp
    ultimately show ?thesis unfolding rounds_def by linarith
  next
    case False
    have "100 div 100 \<le> (t0 - a + 99) div 100" using * by (intro div_le_mono) linarith
    with False show ?thesis by (simp add: rounds_def)
  qed
qed

lemma tunnel_comes_up:
  assumes "steady Q w" "tunnel_up (io_udid options) (w_out w) t0" "t0 + 1000 \<le> deadline"
    and "\<forall>k < polls (w_clk w) + rounds (t0 - now (w_clk w)). \<not> w_stop w k"
  shows "\<exists>w'. await_tunnel_from deadline options w = (w', Inr Ready) \<and> onward Q w w' \<and>
    polls (w_clk w') \<le> polls (w_clk w) + rounds (t0 - now (w_clk w))"
  using assms
proof (induction "t0 - now (w_clk w)" arbitrary: w rule: less_induct)
  case less
  have "\<not> w_stop w (polls (w_clk w))" using less.prems(4) by (simp add: rounds_def)
  from steady_stop [OF less.prems(1) this] obtain w1 where s: "stop_polled w = (w1, False)" "onward Q w w1"
    "now (w_clk w1) = now (w_clk w)" "polls (w_clk w1) = Suc (polls (w_clk w))" .
  have st1: "steady Q w1" and o1: "w_out w1 = w_out w" using s(2) by (auto simp: onward_def goes_def)
  obtain w2 b where t: "tunnel_is_registered (io_udid options) w1 = (w2, b)" by (cases "tunnel_is_registered (io_udid options) w1")
  note tc = tunnel_clock [OF t]
  have w2: "w2 = set_clk (w_clk w2) w1" using t by (auto simp: tunnel_is_registered_def Let_def set_clk_def split: prod.splits)
  have g2: "onward Q w w2" by (subst w2, rule onward_trans [OF s(2) onward_set_clk [OF st1]]) (use tc in simp_all)
  note unf = await_tunnel_from.simps [of deadline options w]
  show ?case
  proof (cases b)
    case True
    then have "await_tunnel_from deadline options w = (w2, Inr Ready)"
      by (simp add: unf s(1) steady_failure [OF st1] t)
    with g2 s(4) tc show ?thesis by (simp add: rounds_def)
  next
    case False
    have early: "now (w_clk w) < t0"
    proof (rule ccontr)
      assume "\<not> now (w_clk w) < t0"
      with less.prems(2) obtain d body tunnels where "o_tunnels (w_out w) (now (w_clk w)) = (d, Some body)" "d \<le> 1000"
        "parse_tunnels (o_parse (w_out w)) body = Some tunnels" "io_udid options \<in> set (map ti_udid tunnels)"
        unfolding tunnel_up_def by (metis not_less)
      with t False s(3) o1 show False by (auto simp: tunnel_is_registered_def Let_def list_ex_iff)
    qed
    let ?v = "pause 100 w2"
    have eq: "await_tunnel_from deadline options w = await_tunnel_from deadline options ?v"
      using False early less.prems(3) tc s(3) by (simp add: unf s(1) steady_failure [OF st1] t)
    have gv: "onward Q w ?v" using onward_trans [OF g2 onward_pause] g2 by (auto simp: onward_def)
    have later: "now (w_clk w) + 100 \<le> now (w_clk ?v)" using tc s(3) by simp
    then have r: "rounds (t0 - now (w_clk ?v)) + 1 \<le> rounds (t0 - now (w_clk w))" using early by (intro rounds_less)
    have po: "polls (w_clk ?v) = Suc (polls (w_clk w))" using s(4) tc by simp
    have "\<exists>w'. await_tunnel_from deadline options ?v = (w', Inr Ready) \<and> onward Q ?v w' \<and>
      polls (w_clk w') \<le> polls (w_clk ?v) + rounds (t0 - now (w_clk ?v))"
    proof (rule less.hyps)
      show "t0 - now (w_clk ?v) < t0 - now (w_clk w)" using early later by linarith
      show "steady Q ?v" "tunnel_up (io_udid options) (w_out ?v) t0"
        using gv less.prems(2) by (auto simp: onward_def goes_def)
      have "w_stop ?v = w_stop w" using gv by (simp add: onward_def goes_def)
      then show "\<forall>k < polls (w_clk ?v) + rounds (t0 - now (w_clk ?v)). \<not> w_stop ?v k"
        using less.prems(4) r po by auto
    qed (rule less.prems(3))
    then obtain w' where w': "await_tunnel_from deadline options ?v = (w', Inr Ready)" "onward Q ?v w'"
      "polls (w_clk w') \<le> polls (w_clk ?v) + rounds (t0 - now (w_clk ?v))" by blast
    have "polls (w_clk w') \<le> polls (w_clk w) + rounds (t0 - now (w_clk w))" using w'(3) po r by linarith
    with w'(1) eq onward_trans [OF gv w'(2)] show ?thesis by (intro exI [of _ w']) (simp only:)
  qed
qed

section \<open>The client\<close>

lemma wda_up_answer:
  assumes "wda_up a m" "m \<le> Suc (length (wd_log a))" "rq_limit rq = REQUEST_TIMEOUT"
  obtains a' v where "http_json path rq a = (a', Inr v)" "wd_log a' = wd_log a @ [rq]" "wda_up a' m" "wd_mjpeg a' = wd_mjpeg a"
    "wd_session a' = wd_session a" "wd_base a' = wd_base a"
    "ends_with ''/session'' (rq_url rq) \<longrightarrow> session_id_of v \<noteq> None"
proof -
  let ?log = "wd_log a @ [rq]"
  obtain d body v where h: "wd_answer a ?log = (d, HttpOk body None)" "d \<le> REQUEST_TIMEOUT" "body \<noteq> []" "length body \<le> BODY_LIMIT"
    "wd_parse a body = Inr v" "ends_with ''/session'' (rq_url rq) \<longrightarrow> session_id_of v \<noteq> None"
    using assms(1,2) unfolding wda_up_def by (metis last_snoc length_append_singleton)
  have up: "wda_up (a\<lparr>wd_log := ?log, wd_clk := c\<rparr>) m" for c using assms(1) by (simp add: wda_up_def)
  show thesis
    by (rule that [of "a\<lparr>wd_log := ?log, wd_clk := (wd_clk a)\<lparr>now := now (wd_clk a) + d\<rparr>\<rparr>" v])
      (use h assms(3) up in \<open>simp_all add: http_json_def http_send_def read_json_raw_def\<close>)
qed

text \<open>A call of the client, which goes on with the machine but for the client itself.\<close>

definition onward_client :: "(string \<Rightarrow> (string \<times> string) list \<Rightarrow> string list \<Rightarrow> bool) \<Rightarrow> world \<Rightarrow> world \<Rightarrow> bool" where
  "onward_client Q w w' \<longleftrightarrow> goes w w' \<and> steady Q w' \<and> w_children w' = w_children w \<and> issued (w_host w') = issued (w_host w)"

lemma onward_client: "onward Q w w' \<Longrightarrow> onward_client Q w w'"
  by (simp add: onward_def onward_client_def)

lemma onward_client_trans: "onward_client Q u v \<Longrightarrow> onward_client Q v w \<Longrightarrow> onward_client Q u w"
  using goes_trans by (auto simp: onward_client_def)

lemma client_step:
  assumes "steady Q w" "does P n f" "with_client f w = (w', r)"
  shows "onward_client Q w w' \<and> polls (w_clk w') = polls (w_clk w) \<and> w_wda w' = fst (f ((w_wda w)\<lparr>wd_clk := w_clk w\<rparr>)) \<and>
    r = snd (f ((w_wda w)\<lparr>wd_clk := w_clk w\<rparr>))"
  using goes_client [OF assms(2,3)] assms(1,3)
  by (auto simp: onward_client_def with_client_def steady_def split: prod.splits)

lemma wda_up_clk [simp]: "wda_up (a\<lparr>wd_clk := c\<rparr>) m = wda_up a m" "wda_up (a\<lparr>wd_session := s\<rparr>) m = wda_up a m"
  "wda_up (a\<lparr>wd_mjpeg := j\<rparr>) m = wda_up a m" "wda_up (wda_new port a) m = wda_up a m"
  by (simp_all add: wda_up_def wda_new_def wda_client_def)

lemma status_up:
  assumes "wda_up a m" "m \<le> Suc (length (wd_log a))"
  shows "isOk (snd (wda_status a)) \<and> wda_up (fst (wda_status a)) m"
proof -
  obtain a' v where "get_raw ''/status'' a = (a', Inr v)" "wda_up a' m"
    unfolding get_raw_def by (rule wda_up_answer [OF assms, of "\<lparr>rq_method = GET, rq_url = wd_base a @ ''/status'', rq_body = None,
      rq_limit = REQUEST_TIMEOUT\<rparr>" "''/status''"]) simp_all
  then show ?thesis by (simp add: wda_status_def wda_get_def)
qed

lemma status_log: "length (wd_log (fst (wda_status a))) = Suc (length (wd_log a)) \<and> wd_answer (fst (wda_status a)) = wd_answer a \<and>
    wd_parse (fst (wda_status a)) = wd_parse a"
  by (auto simp: wda_status_def wda_get_def get_raw_def http_json_def http_send_def Let_def split: prod.splits http_answer.splits)

lemma create_up:
  assumes "wda_up a m" "m \<le> Suc (length (wd_log a))"
  obtains a' i where "create_session a = (a', Inr i)" "wda_up a' m" "wd_session a' = Some i" "m \<le> Suc (length (wd_log a'))"
proof -
  let ?body = "JObject [(''capabilities'', JObject [(''alwaysMatch'', JObject [])])]"
  obtain a' v where h: "post_raw ''/session'' ?body a = (a', Inr v)"
    "wda_up a' m" "session_id_of v \<noteq> None" "length (wd_log a') = Suc (length (wd_log a))"
    unfolding post_raw_def by (rule wda_up_answer [OF assms, of "\<lparr>rq_method = POST, rq_url = wd_base a @ ''/session'', rq_body = Some ?body,
      rq_limit = REQUEST_TIMEOUT\<rparr>" "''/session''"]) (simp_all add: ends_with_iff)
  then obtain i where i: "session_id_of v = Some i" by auto
  have "create_session a = (a'\<lparr>wd_session := Some i\<rparr>, Inr i)"
    using h(1) i by (simp add: create_session_def wda_post_def wda_bind_def)
  then show thesis by (rule that) (use h(2,4) assms(2) in simp_all)
qed

lemma post_up:
  assumes "wda_up a m" "m \<le> Suc (length (wd_log a))"
  shows "\<exists>a' v. post_raw path body a = (a', Inr v)"
  unfolding post_raw_def by (rule wda_up_answer [OF assms, of "\<lparr>rq_method = POST, rq_url = wd_base a @ path, rq_body = Some body,
      rq_limit = REQUEST_TIMEOUT\<rparr>" path]) auto

lemma configure_up:
  assumes "wda_up a m" "m \<le> Suc (length (wd_log a))" "wd_session a = Some i"
  shows "snd (configure_mjpeg fps quality a) = Inr ()"
proof -
  let ?a = "a\<lparr>wd_mjpeg := Some (fps, quality)\<rparr>"
  have up: "wda_up ?a m" "m \<le> Suc (length (wd_log ?a))" using assms by simp_all
  obtain a' v where c: "post_raw (''/session/'' @ i @ ''/appium/settings'')
         (JObject [(''settings'', JObject [(''mjpegServerFramerate'', JNumber (PosInt fps)),
                                        (''mjpegServerScreenshotQuality'', JNumber (PosInt quality))])]) ?a = (a', Inr v)"
    using post_up [OF up] by blast
  have "configure_mjpeg_once i fps quality ?a = (a', Inr ())"
    unfolding configure_mjpeg_once_def wda_bind_def c by simp
  then show ?thesis using assms(3) by (simp add: configure_mjpeg_def session_call_def session_of_def)
qed

lemma status_down:
  assumes "wda_up a m" "Suc (length (wd_log a)) < m"
  shows "\<exists>a' e. wda_status a = (a', Inl e) \<and> wda_up a' m \<and> length (wd_log a') = Suc (length (wd_log a))"
proof -
  let ?rq = "\<lparr>rq_method = GET, rq_url = wd_base a @ ''/status'', rq_body = None, rq_limit = REQUEST_TIMEOUT\<rparr>"
  obtain d e where d: "wd_answer a (wd_log a @ [?rq]) = (d, HttpTransport e)"
    using assms unfolding wda_up_def by (metis length_append_singleton)
  have up: "wda_up (a\<lparr>wd_log := l, wd_clk := c\<rparr>) m" for l c using assms(1) by (simp add: wda_up_def)
  show ?thesis using up by (simp add: wda_status_def wda_get_def get_raw_def http_json_def http_send_def d Let_def)
qed

lemma status_comes_up:
  assumes "steady Q w" "wda_up (w_wda w) m" "\<forall>t. lag (w_clk w) t \<le> J"
    and "now (w_clk w) + (m - Suc (length (wd_log (w_wda w)))) * (REQUEST_TIMEOUT + 200 + J) < deadline"
    and "\<forall>k \<le> polls (w_clk w) + (m - Suc (length (wd_log (w_wda w)))). \<not> w_stop w k"
  shows "\<exists>w'. await_status_from deadline budget w = (w', Inr Ready) \<and> onward_client Q w w' \<and> wda_up (w_wda w') m \<and>
    m \<le> length (wd_log (w_wda w')) \<and> polls (w_clk w') \<le> Suc (polls (w_clk w)) + (m - Suc (length (wd_log (w_wda w))))"
  using assms
proof (induction "m - length (wd_log (w_wda w))" arbitrary: w rule: less_induct)
  case less
  have "\<not> w_stop w (polls (w_clk w))" using less.prems(5) by simp
  from steady_stop [OF less.prems(1) this] obtain w1 where s: "stop_polled w = (w1, False)" "onward Q w w1"
    "now (w_clk w1) = now (w_clk w)" "polls (w_clk w1) = Suc (polls (w_clk w))" .
  have st1: "steady Q w1" and o1: "w_wda w1 = w_wda w" using s(2) by (auto simp: onward_def)
  obtain w2 r where t: "with_client wda_status w1 = (w2, r)" by (cases "with_client wda_status w1")
  let ?a = "(w_wda w1)\<lparr>wd_clk := w_clk w1\<rparr>"
  note cs = client_step [OF st1 does_status t] and tc = with_client_clock [OF t]
  have g2: "onward_client Q w w2" using onward_client_trans [OF onward_client [OF s(2)]] cs by blast
  have up: "wda_up ?a m" using less.prems(2) o1 by simp
  note unf = await_status_from.simps [of deadline budget w]
  show ?case
  proof (cases "Suc (length (wd_log (w_wda w))) < m")
    case False
    then have "isOk (snd (wda_status ?a))" "wda_up (fst (wda_status ?a)) m"
      using status_up [OF up] o1 by simp_all
    then have ok: "isOk r" "wda_up (w_wda w2) m" using cs by simp_all
    then obtain x where "r = Inr x" by (cases r) simp_all
    moreover note ok(2)
    moreover have "length (wd_log (w_wda w2)) = Suc (length (wd_log (w_wda w)))" using cs status_log [of ?a] o1 by simp
    moreover have "await_status_from deadline budget w = (w2, Inr Ready)"
      by (simp add: unf s(1) steady_failure [OF st1] t \<open>r = Inr x\<close>)
    ultimately show ?thesis using g2 cs s(4) False by simp
  next
    case True
    then obtain a' e where a': "wda_status ?a = (a', Inl e)" "wda_up a' m" "length (wd_log a') = Suc (length (wd_log (w_wda w)))"
      using status_down [OF up] o1 by auto
    then have r: "r = Inl e" "w_wda w2 = a'" using cs by simp_all
    let ?v = "pause 200 w2"
    define k where "k = m - Suc (Suc (length (wd_log (w_wda w))))"
    have k: "m - Suc (length (wd_log (w_wda w))) = Suc k" using True by (simp add: k_def)
    have lg: "lag (w_clk w2) = lag (w_clk w)" "w_stop w2 = w_stop w" using g2 by (simp_all add: onward_client_def goes_def)
    have early: "now (w_clk w2) + 200 + J + k * (REQUEST_TIMEOUT + 200 + J) < deadline"
      using less.prems(4) tc s(3) k by simp
    then have eq: "await_status_from deadline budget w = await_status_from deadline budget ?v"
      by (simp add: unf s(1) steady_failure [OF st1] t r)
    have gv: "onward_client Q w ?v"
      using onward_client_trans [OF g2 onward_client [OF onward_pause]] g2 by (auto simp: onward_client_def)
    have wv: "w_wda ?v = a'" using r by (simp add: pause_def)
    have kv: "m - Suc (length (wd_log (w_wda ?v))) = k" using wv a' by (simp add: k_def)
    have po: "polls (w_clk ?v) = Suc (polls (w_clk w))" using s(4) cs by simp
    have "\<exists>w'. await_status_from deadline budget ?v = (w', Inr Ready) \<and> onward_client Q ?v w' \<and> wda_up (w_wda w') m \<and>
      m \<le> length (wd_log (w_wda w')) \<and> polls (w_clk w') \<le> Suc (polls (w_clk ?v)) + (m - Suc (length (wd_log (w_wda ?v))))"
    proof (rule less.hyps)
      show "m - length (wd_log (w_wda ?v)) < m - length (wd_log (w_wda w))" using True wv a' by simp
      show "steady Q ?v" using gv by (simp add: onward_client_def)
      show "wda_up (w_wda ?v) m" using wv a' by simp
      show "\<forall>t. lag (w_clk ?v) t \<le> J" using less.prems(3) lg by simp
      have "now (w_clk ?v) \<le> now (w_clk w2) + 200 + J" using less.prems(3) lg by simp
      with early show "now (w_clk ?v) + (m - Suc (length (wd_log (w_wda ?v)))) * (REQUEST_TIMEOUT + 200 + J) < deadline"
        unfolding kv by simp
      show "\<forall>n \<le> polls (w_clk ?v) + (m - Suc (length (wd_log (w_wda ?v)))). \<not> w_stop ?v n"
        using less.prems(5) unfolding kv po k by (simp add: lg)
    qed
    then obtain w' where w': "await_status_from deadline budget ?v = (w', Inr Ready)" "onward_client Q ?v w'" "wda_up (w_wda w') m"
      "m \<le> length (wd_log (w_wda w'))" "polls (w_clk w') \<le> Suc (polls (w_clk ?v)) + k" unfolding kv by blast
    have "polls (w_clk w') \<le> Suc (polls (w_clk w)) + Suc k" using w'(5) po by linarith
    with w'(1,3,4) eq onward_client_trans [OF gv w'(2)] show ?thesis unfolding k by (intro exI [of _ w']) (simp only:)
  qed
qed

section \<open>The run\<close>

definition first_stop :: "world \<Rightarrow> nat \<Rightarrow> bool" where
  "first_stop w n \<longleftrightarrow> w_stop w n \<and> (\<forall>k < n. \<not> w_stop w k)"

lemma proxy_start_up:
  assumes "steady Q w" "pictures_up (w_out w) port"
  shows "\<exists>w'. proxy_start upstream w = (w', Inr port) \<and> onward Q w w' \<and> polls (w_clk w') = polls (w_clk w)"
proof -
  let ?c = "(w_clk w)\<lparr>now := now (w_clk w) + fst (o_connect (w_out w) (now (w_clk w)))\<rparr>"
  have "snd (o_connect (w_out w) (now (w_clk w))) = None" using assms(2) by (simp add: pictures_up_def)
  then have "connect_upstream (o_connect (w_out w)) upstream UPSTREAM_CONNECT_BUDGET (w_clk w) = (?c, Inr ())"
    by (simp add: connect_upstream_def connect_from.simps [of _ _ _ _ "w_clk w"] split_beta Let_def)
  then have "proxy_start upstream w = (set_clk ?c w, Inr port)"
    using assms(2) by (simp add: proxy_start_def pictures_up_def)
  moreover have "onward Q w (set_clk ?c w)" by (rule onward_set_clk [OF assms(1)]) simp_all
  ultimately show ?thesis by simp
qed

lemma run_up:
  assumes "steady Q w" "pictures_up (w_out w) port" "first_stop w n" "polls (w_clk w) \<le> n"
  shows "\<exists>w'. run_until_stop w = Some (w', Inr Requested) \<and> onward Q w w'"
  using assms
proof (induction "n - polls (w_clk w)" arbitrary: w rule: less_induct)
  case less
  note unf = run_until_stop.simps [of w]
  show ?case
  proof (cases "polls (w_clk w) = n")
    case True
    then have b: "w_stop w (polls (w_clk w))" using less.prems(3) by (simp add: first_stop_def)
    obtain w1 where s: "stop_polled w = (w1, True)" using b by (cases "stop_polled w") (auto dest: stop_polled_simps)
    have "onward Q w w1" using stop_polled_simps [OF s] less.prems(1) by (auto intro!: onward_set_clk)
    with s show ?thesis by (simp add: unf run_step_def)
  next
    case False
    then have lt: "polls (w_clk w) < n" and ns: "\<not> w_stop w (polls (w_clk w))"
      using less.prems(3,4) by (simp_all add: first_stop_def)
    from steady_stop [OF less.prems(1) ns] obtain w1 where s: "stop_polled w = (w1, False)" "onward Q w w1"
      "now (w_clk w1) = now (w_clk w)" "polls (w_clk w1) = Suc (polls (w_clk w))" .
    have st1: "steady Q w1" "w_out w1 = w_out w" using s(2) by (simp_all add: onward_def goes_def)
    obtain sl where sl: "o_slot (w_out w1) (now (w_clk w1)) = (sl, None)" "is_alive sl"
      using less.prems(2) st1(2) by (metis pictures_up_def prod.collapse)
    let ?w2 = "if w_proxy w1 then w1\<lparr>w_stats := stats sl\<rparr> else w1"
    have st2: "steady Q ?w2" using st1(1) by (simp add: steady_def)
    have g2: "onward Q w1 ?w2" using st1(1) by (simp add: onward_def goes_def healthy_def steady_def)
    have r: "run_step w = (?w2, None)" using s(1) sl steady_look [OF st2] by (simp add: run_step_def)
    let ?v = "pause 50 ?w2"
    have gv: "onward Q w ?v" using onward_trans [OF onward_trans [OF s(2) g2] onward_pause [OF st2]] .
    have "\<exists>w'. run_until_stop ?v = Some (w', Inr Requested) \<and> onward Q ?v w'"
    proof (rule less.hyps)
      show "n - polls (w_clk ?v) < n - polls (w_clk w)" using s(4) lt by simp
      show "steady Q ?v" "pictures_up (w_out ?v) port" "first_stop ?v n"
        using gv less.prems by (simp_all add: onward_def goes_def first_stop_def)
      show "polls (w_clk ?v) \<le> n" using s(4) lt by simp
    qed
    then obtain w' where w': "run_until_stop ?v = Some (w', Inr Requested)" "onward Q ?v w'" by blast
    have "run_until_stop w = Some (w', Inr Requested)" unfolding unf Let_def r snd_conv fst_conv option.case by (rule w'(1))
    with onward_trans [OF gv w'(2)] show ?thesis by blast
  qed
qed

text \<open>The looks that the wait for the client may take.\<close>

definition client_looks :: "world \<Rightarrow> nat \<Rightarrow> nat" where
  "client_looks w m = m - Suc (length (wd_log (w_wda w)))"

lemma serve_up:
  assumes "steady Q w" "wda_up (w_wda w) m" "pictures_up (w_out w) port" "first_stop w n" "\<forall>t. lag (w_clk w) t \<le> J"
    and "client_looks w m * (REQUEST_TIMEOUT + 200 + J) < io_status_budget options"
    and "polls (w_clk w) + client_looks w m < n"
  shows "\<exists>w'. serve http mjpeg options w = Some (w', Inr Requested) \<and> w_status w' = w_status w @ [IosRunning port] \<and>
    w_children w' = w_children w \<and> issued (w_host w') = issued (w_host w) \<and> w_ended w' = w_ended w \<and> steady Q w'"
proof -
  let ?w = "w\<lparr>w_wda := wda_new http (w_wda w)\<rparr>"
  have st: "steady Q ?w" using assms(1) by (simp add: steady_def)
  have l: "wd_log (wda_new http (w_wda w)) = wd_log (w_wda w)" by (simp add: wda_new_def wda_client_def)
  have "\<exists>w1. await_status_from (now (w_clk ?w) + io_status_budget options) (io_status_budget options) ?w = (w1, Inr Ready) \<and>
    onward_client Q ?w w1 \<and> wda_up (w_wda w1) m \<and>
    m \<le> length (wd_log (w_wda w1)) \<and> polls (w_clk w1) \<le> Suc (polls (w_clk ?w)) + (m - Suc (length (wd_log (w_wda ?w))))"
    by (rule status_comes_up [OF st, where J = J])
      (use assms in \<open>simp_all add: l client_looks_def first_stop_def\<close>)
  then obtain w1 where 1: "await_status (io_status_budget options) ?w = (w1, Inr Ready)" "onward_client Q ?w w1" "wda_up (w_wda w1) m"
    "m \<le> length (wd_log (w_wda w1))" "polls (w_clk w1) \<le> n"
    using assms(7) by (fastforce simp: await_status_def client_looks_def l)
  have st1: "steady Q w1" using 1(2) by (simp add: onward_client_def)
  let ?a1 = "(w_wda w1)\<lparr>wd_clk := w_clk w1\<rparr>"
  obtain a2 i where c2: "create_session ?a1 = (a2, Inr i)" "wda_up a2 m" "wd_session a2 = Some i" "m \<le> Suc (length (wd_log a2))"
    by (rule create_up [of ?a1 m]) (use 1(3,4) in simp_all)
  obtain w2 r2 where s2: "with_client create_session w1 = (w2, r2)" by (cases "with_client create_session w1")
  have "does (\<lambda>_. True) 1 create_session" by (rule does_create) simp
  note 2 = client_step [OF st1 this s2]
  have st2: "steady Q w2" and r2: "r2 = Inr i" "w_wda w2 = a2" using 2 c2 by (simp_all add: onward_client_def)
  obtain w3 r3 where s3: "with_client (configure_mjpeg MJPEG_FPS MJPEG_QUALITY) w2 = (w3, r3)"
    by (cases "with_client (configure_mjpeg MJPEG_FPS MJPEG_QUALITY) w2")
  note 3 = client_step [OF st2 does_configure s3]
  have st3: "steady Q w3" and r3: "r3 = Inr ()"
    using 3 r2 c2 configure_up [of "(w_wda w2)\<lparr>wd_clk := w_clk w2\<rparr>" m i] by (simp_all add: onward_client_def)
  have g3: "onward_client Q ?w w3" using onward_client_trans [OF onward_client_trans [OF 1(2)]] 2 3 by blast
  then have o3: "w_out w3 = w_out w" "w_stop w3 = w_stop w" by (simp_all add: onward_client_def goes_def)
  obtain w4 where s4: "proxy_start mjpeg w3 = (w4, Inr port)" "onward Q w3 w4" "polls (w_clk w4) = polls (w_clk w3)"
    using proxy_start_up [OF st3] assms(3) o3(1) by metis
  let ?w5 = "w4\<lparr>w_proxy := True, w_client := True, w_status := w_status w4 @ [IosRunning port]\<rparr>"
  have "steady Q w4" using s4(2) by (simp add: onward_def)
  then have st5: "steady Q ?w5" by (simp add: steady_def)
  have "w_out w4 = w_out w" "w_stop w4 = w_stop w" "polls (w_clk w4) \<le> n"
    using s4(2,3) o3 2 3 1(5) by (simp_all add: onward_def goes_def)
  then have "pictures_up (w_out ?w5) port" "first_stop ?w5 n" "polls (w_clk ?w5) \<le> n"
    using assms(3,4) by (simp_all add: first_stop_def)
  from run_up [OF st5 this] obtain w6 where s6: "run_until_stop ?w5 = Some (w6, Inr Requested)" "onward Q ?w5 w6" by blast
  have "serve http mjpeg options w = Some (w6, Inr Requested)"
    by (simp only: serve_def Let_def 1(1) s2 r2(1) s3 r3 s4(1) s6(1) then_w_simps Readiness.distinct if_False)
  moreover have "onward_client Q w3 w4" using s4(2) by (rule onward_client)
  ultimately show ?thesis using g3 s6(2) by (auto simp: onward_def onward_client_def goes_def)
qed

section \<open>The session\<close>

text \<open>The commands of a session.\<close>

definition session_command :: "IosLaunchOptions \<Rightarrow> string \<Rightarrow> (string \<times> string) list \<Rightarrow> string list \<Rightarrow> bool" where
  "session_command options path env args \<longleftrightarrow>
     (case io_mode options of
        Attach _ _ \<Rightarrow> False
      | Launch ios ids vars \<Rightarrow> path = ios \<and> env = vars \<and>
          (args \<in> {tunnel_args options, runwda_args options ids} \<or> (\<exists>p. \<exists>remote \<in> {8100, 9100}. args = forward_args options p remote)))"

lemma start_session_up:
  assumes "io_mode options = Launch ios ids env" "steady (session_command options) w"
    and "tunnel_up (io_udid options) (w_out w) t0" "t0 + 1000 \<le> now (w_clk w) + io_tunnel_ready_budget options"
    and "wda_up (w_wda w) m" "pictures_up (w_out w) port" "first_stop w n" "\<forall>t. lag (w_clk w) t \<le> J"
    and "client_looks w m * (REQUEST_TIMEOUT + 200 + J) < io_status_budget options"
    and "polls (w_clk w) + rounds (t0 - now (w_clk w)) + client_looks w m < n"
  shows "\<exists>w' p q. start_session options w = Some (w', Inr Requested) \<and> w_status w' = w_status w @ [IosRunning port] \<and>
    map sc_kind (w_children w') = map sc_kind (w_children w) @ [Tunnel, RunWda, ForwardHttp, ForwardMjpeg] \<and>
    issued (w_host w') = issued (w_host w) @ [(ios, env, tunnel_args options), (ios, env, runwda_args options ids),
      (ios, env, forward_args options p 8100), (ios, env, forward_args options q 9100)] \<and>
    w_ended w' = w_ended w \<and> steady (session_command options) w'"
proof -
  let ?Q = "session_command options"
  have Q: "?Q ios env (tunnel_args options)" "?Q ios env (runwda_args options ids)" "\<And>p. ?Q ios env (forward_args options p 8100)"
    "\<And>p. ?Q ios env (forward_args options p 9100)"
    using assms(1) by (auto simp: session_command_def)
  obtain w1 where 1: "push_child (spawn_child Tunnel ios (tunnel_args options) env TunnelFailed w) = (w1, Inr ())" "goes w w1" "steady ?Q w1"
    "map sc_kind (w_children w1) = map sc_kind (w_children w) @ [Tunnel]"
    "issued (w_host w1) = issued (w_host w) @ [(ios, env, tunnel_args options)]" "w_wda w1 = w_wda w" "w_clk w1 = w_clk w"
    by (rule steady_spawn [OF assms(2) Q(1)])
  have "\<exists>w2. await_tunnel_from (now (w_clk w1) + io_tunnel_ready_budget options) options w1 = (w2, Inr Ready) \<and> onward ?Q w1 w2 \<and>
    polls (w_clk w2) \<le> polls (w_clk w1) + rounds (t0 - now (w_clk w1))"
    by (rule tunnel_comes_up [OF 1(3)])
      (use 1(2,7) assms(3,4,7,10) in \<open>auto simp: goes_def first_stop_def\<close>)
  then obtain w2 where 2: "await_tunnel options w1 = (w2, Inr Ready)" "onward ?Q w1 w2"
    "polls (w_clk w2) \<le> polls (w_clk w) + rounds (t0 - now (w_clk w))"
    using 1(7) by (auto simp: await_tunnel_def)
  have st2: "steady ?Q w2" using 2(2) by (simp add: onward_def)
  obtain w3 where 3: "push_child (spawn_child RunWda ios (runwda_args options ids) env WdaUnreachable w2) = (w3, Inr ())" "goes w2 w3" "steady ?Q w3"
    "map sc_kind (w_children w3) = map sc_kind (w_children w2) @ [RunWda]"
    "issued (w_host w3) = issued (w_host w2) @ [(ios, env, runwda_args options ids)]" "w_wda w3 = w_wda w2" "w_clk w3 = w_clk w2"
    by (rule steady_spawn [OF st2 Q(2)])
  obtain w4 p where 4: "spawn_forward ForwardHttp 8100 options ios env w3 = Some (w4, Inr p)" "goes w3 w4" "steady ?Q w4"
    "map sc_kind (w_children w4) = map sc_kind (w_children w3) @ [ForwardHttp]"
    "issued (w_host w4) = issued (w_host w3) @ [(ios, env, forward_args options p 8100)]" "w_wda w4 = w_wda w3"
    "polls (w_clk w4) = polls (w_clk w3)"
    by (rule steady_forward [OF 3(3) Q(3)])
  obtain w5 q where 5: "spawn_forward ForwardMjpeg 9100 options ios env w4 = Some (w5, Inr q)" "goes w4 w5" "steady ?Q w5"
    "map sc_kind (w_children w5) = map sc_kind (w_children w4) @ [ForwardMjpeg]"
    "issued (w_host w5) = issued (w_host w4) @ [(ios, env, forward_args options q 9100)]" "w_wda w5 = w_wda w4"
    "polls (w_clk w5) = polls (w_clk w4)"
    by (rule steady_forward [OF 4(3) Q(4)])
  have o2: "goes w1 w2" "w_children w2 = w_children w1" "issued (w_host w2) = issued (w_host w1)" "w_wda w2 = w_wda w1"
    using 2(2) by (simp_all add: onward_def)
  have g5: "goes w w5" using 1(2) o2(1) 3(2) 4(2) 5(2) goes_trans by blast
  have wda5: "w_wda w5 = w_wda w" using 1(6) o2(4) 3(6) 4(6) 5(6) by simp
  have k5: "w_out w5 = w_out w" "w_stop w5 = w_stop w" "lag (w_clk w5) = lag (w_clk w)" "w_status w5 = w_status w" "w_ended w5 = w_ended w"
    using g5 by (simp_all add: goes_def)
  have "polls (w_clk w5) \<le> polls (w_clk w) + rounds (t0 - now (w_clk w))" using 2(3) 3(7) 4(7) 5(7) by simp
  then have p5: "polls (w_clk w5) + client_looks w5 m < n" using assms(10) wda5 by (simp add: client_looks_def)
  have "\<exists>w'. serve p q options w5 = Some (w', Inr Requested) \<and> w_status w' = w_status w5 @ [IosRunning port] \<and>
    w_children w' = w_children w5 \<and> issued (w_host w') = issued (w_host w5) \<and> w_ended w' = w_ended w5 \<and> steady ?Q w'"
    by (rule serve_up [OF 5(3), of m port n J])
      (use assms(5-9) p5 k5 wda5 in \<open>simp_all add: first_stop_def client_looks_def\<close>)
  then obtain w' where s: "serve p q options w5 = Some (w', Inr Requested)" "w_status w' = w_status w5 @ [IosRunning port]"
    "w_children w' = w_children w5" "issued (w_host w') = issued (w_host w5)" "w_ended w' = w_ended w5" "steady ?Q w'" by blast
  have "start_session options w = Some (w', Inr Requested)"
    by (simp only: start_session_def assms(1) LaunchMode.case 1(1) 2(1) 3(1) 4(1) 5(1) s(1) then_w_simps Readiness.distinct if_False)
  moreover have "map sc_kind (w_children w') = map sc_kind (w_children w) @ [Tunnel, RunWda, ForwardHttp, ForwardMjpeg]"
    using s(3) 5(4) 4(4) 3(4) o2(2) 1(4) by simp
  moreover have "issued (w_host w') = issued (w_host w) @ [(ios, env, tunnel_args options), (ios, env, runwda_args options ids),
      (ios, env, forward_args options p 8100), (ios, env, forward_args options q 9100)]"
    using s(4) 5(5) 4(5) 3(5) o2(3) 1(5) by simp
  ultimately show ?thesis using s(2,5,6) k5 by auto
qed

lemma ios_shutdown_issues_nothing: "ios_shutdown w = Some w' \<Longrightarrow> issued (w_host w') = issued (w_host w)"
  by (auto simp: ios_shutdown_def close_links_def proxy_stop_def with_client_def Let_def split: prod.splits option.splits if_splits)

end
