(* ===== verification/FakeProcess.thy ===== *)
theory FakeProcess
  imports OsModel
begin

text \<open>
  What the two stand-ins of the integration tests share: their environment, the files they leave, and
  the processes they are.
\<close>

section \<open>The environment and the files\<close>

type_synonym env = "(string \<times> string) list"

text \<open>A file written later is only written if the process still runs then, so many milliseconds after its start.\<close>

datatype file_op = AppendTo string string | WriteTo string string | WriteLater nat string string

definition LF :: string where "LF = [CHR 0x0A]"

section \<open>Processes\<close>

text \<open>A process that runs until a signal ends it, and one that ends by itself \<open>d\<close> after its start.\<close>

definition running_proc :: "nat \<Rightarrow> proc" where
  "running_proc i = \<lparr>pid = i, exit_at = None, on_int = Some (0, None), on_term = Some (0, None), wait_err = None, kill_err = None,
     reaped = False, delivered = [], out_chunks = [], err_chunks = [], pipe_eof = Some 0, in_err = None, in_data = []\<rparr>"

definition written :: "string \<Rightarrow> (io_error + string) list" where
  "written s = (if s = [] then [] else [Inr s])"

definition ended_proc :: "nat \<Rightarrow> nat \<Rightarrow> int \<Rightarrow> string \<Rightarrow> string \<Rightarrow> proc" where
  "ended_proc i d status stdout stderr =
     (running_proc i)\<lparr>exit_at := Some (d, Some status), out_chunks := written stdout, err_chunks := written stderr\<rparr>"

end
