(* ===== verification/FakeGoIos.thy ===== *)
theory FakeGoIos
  imports IosStartup FakeProcess "HOL-Library.Sublist"
begin

text \<open>
  The stand-in for \<open>go-ios\<close> that the integration tests of \<open>quadcontrol-ios\<close> run (\<open>bin/ios-test-helper.rs\<close>):
  one process per subcommand, ruled by environment variables. It is a \<open>launch\<close> of the model, and its
  tunnel service is what a session waits for; a session on top of it comes up.
\<close>

section \<open>The environment and the files\<close>

definition CRLF :: string where "CRLF = [CHR 0x0D, CHR 0x0A]"

text \<open>\<open>Path::join\<close> of a name without a separator.\<close>

definition path_join :: "string \<Rightarrow> string \<Rightarrow> string" where
  "path_join dir name = (if dir = [] \<or> ends_with ''/'' dir then dir @ name else dir @ ''/'' @ name)"

definition quoted :: "string \<Rightarrow> string" where
  "quoted s = [QUOTE] @ s @ [QUOTE]"

fun fixture :: "string \<Rightarrow> string option" where
  "fixture name =
     (if name = ''ios-version.stdout.json'' then Some (''{'' @ quoted ''version'' @ '':'' @ quoted ''1.2.1'' @ ''}'' @ LF)
      else if name = ''ios-list-empty.stdout.json'' then Some (''{'' @ quoted ''deviceList'' @ '':[]}'' @ LF)
      else if name = ''ios-list-empty.stderr.jsonl''
      then Some (''{'' @ quoted ''time'' @ '':'' @ quoted ''2026-09-14T00:00:21.761821-07:00'' @ '','' @ quoted ''level'' @ '':'' @
        quoted ''WARN'' @ '','' @ quoted ''msg'' @ '':'' @ quoted (''go-ios agent is not running. You might need to start it with '' @
        [CHR 0x27] @ ''ios tunnel start'' @ [CHR 0x27] @ '' for ios17+. Use ENABLE_GO_IOS_AGENT=user for userspace tunnel '' @
        ''or ENABLE_GO_IOS_AGENT=kernel for kernel tunnel for the experimental daemon mode.'') @ ''}'' @ LF)
      else None)"

declare fixture.simps [simp del]

definition log_argv :: "env \<Rightarrow> string list \<Rightarrow> file_op list" where
  "log_argv env args =
     (case map_of env ''QUADCONTROL_FAKE_ARGV_LOG'' of
        None \<Rightarrow> []
      | Some path \<Rightarrow> [AppendTo path (str_join '' '' args @ LF)])"

definition write_pid :: "env \<Rightarrow> nat \<Rightarrow> string \<Rightarrow> file_op list" where
  "write_pid env i name =
     (case map_of env ''QUADCONTROL_FAKE_PID_DIR'' of
        None \<Rightarrow> []
      | Some dir \<Rightarrow> [WriteTo (path_join dir (name @ ''.pid'')) (show_nat i)])"

section \<open>Processes\<close>

definition maybe_ignore_signals :: "env \<Rightarrow> proc \<Rightarrow> proc" where
  "maybe_ignore_signals env p =
     (let p = (if map_of env ''QUADCONTROL_FAKE_IGNORE_SIGINT'' = Some ''1'' then p\<lparr>on_int := None\<rparr> else p)
      in if map_of env ''QUADCONTROL_FAKE_IGNORE_SIGTERM'' = Some ''1'' then p\<lparr>on_term := None\<rparr> else p)"

definition run_forever :: "env \<Rightarrow> nat \<Rightarrow> string \<Rightarrow> proc \<times> file_op list" where
  "run_forever env i name = (maybe_ignore_signals env (running_proc i), write_pid env i name)"

section \<open>The tunnel and its service\<close>

definition tunnel_port_arg :: "string list \<Rightarrow> nat" where
  "tunnel_port_arg args =
     (case Option.bind (findMap (strip_prefix ''--tunnel-info-port='') args) (parse_uint u16_max) of Some p \<Rightarrow> p | None \<Rightarrow> 0)"

definition tunnel_udid_arg :: "string list \<Rightarrow> string" where
  "tunnel_udid_arg args = (case findMap (strip_prefix ''--udid='') args of Some u \<Rightarrow> u | None \<Rightarrow> [])"

text \<open>\<open>binds\<close> says whether a local port cannot be bound; \<open>took\<close> is the time until a process that ends has ended.\<close>

definition run_tunnel :: "(nat \<Rightarrow> io_error option) \<Rightarrow> nat \<Rightarrow> nat \<Rightarrow> env \<Rightarrow> string list \<Rightarrow> proc \<times> file_op list" where
  "run_tunnel binds took i env args =
     (let port = tunnel_port_arg args in
      case binds port of
        Some e \<Rightarrow> (maybe_ignore_signals env (ended_proc i took 1 []
          (''ios-test-helper: tunnel could not bind '' @ show_nat port @ '': '' @ io_text e @ LF)), [])
      | None \<Rightarrow> (maybe_ignore_signals env (running_proc i), write_pid env i ''tunnel''))"

definition tunnel_delay :: "env \<Rightarrow> nat" where
  "tunnel_delay env =
     (case Option.bind (map_of env ''QUADCONTROL_FAKE_TUNNEL_DELAY_MS'') (parse_uint u64_max) of Some d \<Rightarrow> d | None \<Rightarrow> 300)"

definition tunnel_registered :: "env \<Rightarrow> nat \<Rightarrow> bool" where
  "tunnel_registered env since \<longleftrightarrow> map_of env ''QUADCONTROL_FAKE_TUNNEL_NEVER'' \<noteq> Some ''1'' \<and> tunnel_delay env \<le> since"

definition tunnels_body :: "string \<Rightarrow> string" where
  "tunnels_body udid =
     ''[{'' @ quoted ''udid'' @ '':'' @ quoted udid @ '','' @ quoted ''rsdPort'' @ '':50028,'' @ quoted ''address'' @ '':'' @
     quoted ''fdxx::1'' @ '','' @ quoted ''userspaceTun'' @ '':true,'' @ quoted ''userspaceTunPort'' @ '':60106}]''"

text \<open>The rest of the head of a request is read away: up to an empty line, the end, or an error.\<close>

fun skip_head :: "(io_error + string) list \<Rightarrow> (io_error + string) list" where
  "skip_head [] = []"
| "skip_head (Inl e # ls) = ls"
| "skip_head (Inr l # ls) = (if l = [] \<or> str_trim l = [] then ls else skip_head ls)"

definition tunnel_reply :: "string \<Rightarrow> string \<Rightarrow> bool \<Rightarrow> string \<times> string" where
  "tunnel_reply request_line udid registered =
     (let is_tunnels = starts_with ''GET /tunnels'' request_line in
      (if is_tunnels then ''200 OK'' else ''404 Not Found'',
       if \<not> is_tunnels then ''404 page not found'' @ LF
       else if registered then tunnels_body udid
       else ''[]''))"

text \<open>What is left unread of the connection, and the response, if there is one.\<close>

definition serve_tunnel_request ::
  "bool \<Rightarrow> (io_error + string) list \<Rightarrow> string \<Rightarrow> bool \<Rightarrow> (io_error + string) list \<times> string option" where
  "serve_tunnel_request cloned ls udid registered =
     (if \<not> cloned then (ls, None) else
      case ls of
        Inr request_line # ls \<Rightarrow>
          if request_line = [] then (ls, None)
          else (let rest = skip_head ls; (status, body) = tunnel_reply request_line udid registered in
            (rest, Some (''HTTP/1.1 '' @ status @ CRLF @ ''Content-Type: application/json'' @ CRLF @ ''Content-Length: '' @
               show_nat (length body) @ CRLF @ ''Connection: close'' @ CRLF @ CRLF @ body)))
      | _ \<Rightarrow> (tl ls, None))"

section \<open>WebDriverAgent and the forwarders\<close>

definition run_wda :: "nat \<Rightarrow> nat \<Rightarrow> env \<Rightarrow> proc \<times> file_op list" where
  "run_wda took i env =
     (case map_of env ''QUADCONTROL_FAKE_RUNWDA_STDERR'' of
        Some message \<Rightarrow> (ended_proc i took 1 [] (message @ LF), [])
      | None \<Rightarrow> run_forever env i ''runwda'')"

definition run_forward :: "(nat \<Rightarrow> io_error option) \<Rightarrow> nat \<Rightarrow> nat \<Rightarrow> env \<Rightarrow> string \<Rightarrow> string \<Rightarrow> proc \<times> file_op list" where
  "run_forward binds took i env host_port target_port =
     (case binds (case parse_uint u16_max host_port of Some p \<Rightarrow> p | None \<Rightarrow> 0) of
        Some e \<Rightarrow> (maybe_ignore_signals env (ended_proc i took 1 []
          (''ios-test-helper: could not bind '' @ host_port @ '': '' @ io_text e @ LF)), write_pid env i (''forward-'' @ target_port))
      | None \<Rightarrow> (maybe_ignore_signals env (running_proc i), write_pid env i (''forward-'' @ target_port)))"

text \<open>What becomes of a connection to the forwarded port: shut, or joined with the upstream.\<close>

datatype forwarded = Shut | Joined nat

definition forward_connection :: "env \<Rightarrow> string \<Rightarrow> (nat \<Rightarrow> bool) \<Rightarrow> forwarded" where
  "forward_connection env target_port accepts =
     (case Option.bind (map_of env (''QUADCONTROL_FAKE_FORWARD_'' @ target_port)) (parse_uint u16_max) of
        None \<Rightarrow> Shut
      | Some upstream_port \<Rightarrow> if accepts upstream_port then Joined upstream_port else Shut)"

section \<open>The program\<close>

definition positional :: "string list \<Rightarrow> string list" where
  "positional args = filter (\<lambda>a. \<not> starts_with ''-'' a) args"

text \<open>\<open>dbg\<close> is the debug text of a list of strings.\<close>

definition fake_ios ::
  "(string list \<Rightarrow> string) \<Rightarrow> (nat \<Rightarrow> io_error option) \<Rightarrow> nat \<Rightarrow> nat \<Rightarrow> env \<Rightarrow> string list \<Rightarrow> proc \<times> file_op list" where
  "fake_ios dbg binds took i env args =
     (let pos = positional args;
          (p, files) =
            (if prefix [''version''] pos
             then (ended_proc i took 0 (the (fixture ''ios-version.stdout.json'') @ LF) [], [])
             else if prefix [''list''] pos
             then (ended_proc i took 0 (the (fixture ''ios-list-empty.stdout.json'') @ LF) (the (fixture ''ios-list-empty.stderr.jsonl'')), [])
             else if prefix [''tunnel'', ''start''] pos then run_tunnel binds took i env args
             else if prefix [''runwda''] pos then run_wda took i env
             else if prefix [''forward''] pos \<and> 3 \<le> length pos then run_forward binds took i env (pos ! 1) (pos ! 2)
             else (ended_proc i took 64 [] (''ios-test-helper: unsupported argv '' @ dbg args @ LF), []))
      in (p, log_argv env args @ files))"

section \<open>A session on top of it\<close>

text \<open>The variables that the parent sets come before those that are inherited, the last one set first.\<close>

definition fake_launch ::
  "(string list \<Rightarrow> string) \<Rightarrow> (nat \<Rightarrow> io_error option) \<Rightarrow> nat \<Rightarrow> env \<Rightarrow> nat \<Rightarrow> string \<Rightarrow> env \<Rightarrow> string list \<Rightarrow> io_error + proc" where
  "fake_launch dbg binds took inherited i path env args = Inr (fst (fake_ios dbg binds took i (rev env @ inherited) args))"

text \<open>What a client of the tunnel service sees, with the latency \<open>d\<close>, when the tunnel was launched at \<open>start\<close>.\<close>

definition fake_tunnels :: "env \<Rightarrow> string list \<Rightarrow> nat \<Rightarrow> nat \<Rightarrow> nat \<Rightarrow> nat \<times> string option" where
  "fake_tunnels env args start d t =
     (if t < start then (d, None)
      else let (status, body) = tunnel_reply (''GET /tunnels HTTP/1.1'' @ CRLF) (tunnel_udid_arg args) (tunnel_registered env (t - start))
           in (d, if status = ''200 OK'' then Some body else None))"

text \<open>A parser that reads the two bodies of the service.\<close>

definition reads_tunnels :: "json_parser \<Rightarrow> string \<Rightarrow> bool" where
  "reads_tunnels parse udid \<longleftrightarrow> parse ''[]'' = Inr (JArray []) \<and>
     parse (tunnels_body udid) = Inr (JArray [JObject [(''udid'', JString udid), (''rsdPort'', JNumber (PosInt 50028)),
       (''address'', JString ''fdxx::1''), (''userspaceTun'', JBool True), (''userspaceTunPort'', JNumber (PosInt 60106))]])"

lemma tunnel_udid [simp]: "tunnel_udid_arg (tunnel_args options) = io_udid options"
  by (simp add: tunnel_udid_arg_def tunnel_args_def strip_prefix_def)

lemma parse_tunnels_empty: "reads_tunnels parse udid \<Longrightarrow> parse_tunnels parse ''[]'' = Some []"
  by (simp add: reads_tunnels_def parse_tunnels_def)

lemma parse_tunnels_body: "reads_tunnels parse udid \<Longrightarrow>
  \<exists>x. parse_tunnels parse (tunnels_body udid) = Some [x] \<and> ti_udid x = udid"
  by (simp add: reads_tunnels_def parse_tunnels_def TUNNEL_FIELDS_def tunnel_fields_def opt_field_def u16_max_def)

lemma fake_tunnels_eq: "fake_tunnels env (tunnel_args options) start d t =
  (d, if t < start then None else Some (if tunnel_registered env (t - start) then tunnels_body (io_udid options) else ''[]''))"
  by (simp add: fake_tunnels_def tunnel_reply_def)

lemma fake_tunnel_up:
  assumes "map_of env ''QUADCONTROL_FAKE_TUNNEL_NEVER'' \<noteq> Some ''1''" "d \<le> 1000"
    and "o_tunnels out = fake_tunnels env (tunnel_args options) start d" "reads_tunnels (o_parse out) (io_udid options)"
  shows "tunnel_up (io_udid options) out (start + tunnel_delay env)"
  unfolding tunnel_up_def
proof (intro allI impI)
  fix t
  assume "start + tunnel_delay env \<le> t"
  then have "\<not> t < start" "tunnel_delay env \<le> t - start" by linarith+
  then have "o_tunnels out t = (d, Some (tunnels_body (io_udid options)))"
    using assms(1,3) by (simp add: fake_tunnels_eq tunnel_registered_def)
  with assms(2) parse_tunnels_body [OF assms(4)]
  show "\<exists>d body tunnels. o_tunnels out t = (d, Some body) \<and> d \<le> 1000 \<and> parse_tunnels (o_parse out) body = Some tunnels \<and>
      io_udid options \<in> set (map ti_udid tunnels)" by fastforce
qed

lemma show_nat_no_dash: "\<not> starts_with ''-'' (show_nat n)"
proof -
  obtain c cs where s: "show_nat n = c # cs" using show_nat_digits [of n] by (cases "show_nat n") auto
  with show_nat_digits [of n] have "is_ascii_digit c" by auto
  then have "c \<noteq> CHR ''-''" by (auto simp: is_ascii_digit_def)
  with s show ?thesis by simp
qed

lemma positional_session_args:
  "positional (tunnel_args options) = [''tunnel'', ''start'']" "positional (runwda_args options ids) = [''runwda'']"
  "positional (forward_args options p q) = [''forward'', show_nat p, show_nat q]"
  by (simp_all add: positional_def tunnel_args_def runwda_args_def forward_args_def show_nat_no_dash)

lemma fake_ios_dispatch:
  "positional args = [''tunnel'', ''start''] \<Longrightarrow> fst (fake_ios dbg binds took i env args) = fst (run_tunnel binds took i env args)"
  "positional args = [''runwda''] \<Longrightarrow> fst (fake_ios dbg binds took i env args) = fst (run_wda took i env)"
  "positional args = [''forward'', a, b] \<Longrightarrow> fst (fake_ios dbg binds took i env args) = fst (run_forward binds took i env a b)"
  by (simp_all add: fake_ios_def split_beta Let_def)

text \<open>Under the variables of a session the stand-in runs, unless it is told to fail or a port is taken.\<close>

lemma fake_launch_runs:
  assumes "session_command options path env args" "map_of (rev env @ inherited) ''QUADCONTROL_FAKE_RUNWDA_STDERR'' = None"
    and "\<forall>p. binds p = None"
  shows "\<exists>p. fake_launch dbg binds took inherited i path env args = Inr p \<and> exit_at p = None \<and> wait_err p = None"
proof -
  let ?env = "rev env @ inherited"
  have keeps: "exit_at (maybe_ignore_signals e p) = exit_at p" "wait_err (maybe_ignore_signals e p) = wait_err p" for e p
    by (simp_all add: maybe_ignore_signals_def Let_def)
  note parts = keeps running_proc_def run_tunnel_def run_wda_def run_forever_def run_forward_def Let_def
  consider (t) "args = tunnel_args options" | (r) ids where "args = runwda_args options ids"
    | (f) p remote where "args = forward_args options p remote"
    using assms(1) unfolding session_command_def by (cases "io_mode options") auto
  then show ?thesis
  proof cases
    case t
    show ?thesis unfolding fake_launch_def t fake_ios_dispatch(1) [OF positional_session_args(1)] by (simp add: parts assms(3))
  next
    case r
    show ?thesis unfolding fake_launch_def r fake_ios_dispatch(2) [OF positional_session_args(2)]
      by (simp add: parts assms(2) del: map_of_append)
  next
    case f
    show ?thesis unfolding fake_launch_def f fake_ios_dispatch(3) [OF positional_session_args(3)] by (simp add: parts assms(3))
  qed
qed

text \<open>
  The probe of a session and the stand-in agree: while the tunnel runs and its service answers
  within a second, the session takes the tunnel for registered exactly when the stand-in has
  registered it: when it is not told never to, and the delay has passed.
\<close>

theorem fake_tunnel_registers:
  assumes "o_tunnels (w_out w) = fake_tunnels env (tunnel_args options) start d" "d \<le> 1000"
    and "reads_tunnels (o_parse (w_out w)) (io_udid options)" "start \<le> now (w_clk w)"
  shows "snd (tunnel_is_registered (io_udid options) w) \<longleftrightarrow> tunnel_registered env (now (w_clk w) - start)"
proof (cases "tunnel_registered env (now (w_clk w) - start)")
  case True
  with assms(1,2,4) parse_tunnels_body [OF assms(3)] show ?thesis
    by (auto simp: tunnel_is_registered_def fake_tunnels_eq Let_def)
next
  case False
  with assms(1,2,4) parse_tunnels_empty [OF assms(3)] show ?thesis
    by (auto simp: tunnel_is_registered_def fake_tunnels_eq Let_def)
qed

definition fake_env :: env where
  "fake_env = [(''QUADCONTROL_FAKE_TUNNEL_DELAY_MS'', ''250''), (''QUADCONTROL_FAKE_IGNORE_SIGINT'', ''1'')]"

definition fake_options :: IosLaunchOptions where
  "fake_options = ios_launch_options ''U'' (Launch ''ios'' some_ids fake_env)"

definition fake_parse :: json_parser where
  "fake_parse s = Inr (JArray (if s = ''[]'' then [] else
     [JObject [(''udid'', JString ''U''), (''rsdPort'', JNumber (PosInt 50028)), (''address'', JString ''fdxx::1''),
       (''userspaceTun'', JBool True), (''userspaceTunPort'', JNumber (PosInt 60106))]]))"

text \<open>WebDriverAgent answers from the third request on.\<close>

definition waking_wda :: wda where
  "waking_wda = \<lparr>wd_base = [], wd_session = None, wd_mjpeg = None, wd_clk = clock0, wd_log = [],
     wd_answer = (\<lambda>log. if length log < 3 then (5, HttpTransport ''refused'') else (5, HttpOk ''{}'' None)), wd_timed_out = ''timeout'',
     wd_parse = (\<lambda>_. Inr (JObject [(''sessionId'', JString ''S'')])), wd_others = (\<lambda>_. None)\<rparr>"

definition fake_world :: world where
  "fake_world = quiet_world\<lparr>w_host := \<lparr>clk = clock0, issued = [], launch = fake_launch concat (\<lambda>_. None) 5 []\<rparr>, w_wda := waking_wda,
     w_stop := (\<lambda>n. n = 20),
     w_out := quiet_outside\<lparr>o_tunnels := fake_tunnels (rev fake_env) (tunnel_args fake_options) 0 2, o_parse := fake_parse,
       o_connect := (\<lambda>_. (0, None))\<rparr>\<rparr>"

lemma fake_reads: "reads_tunnels fake_parse ''U''"
  by (simp add: reads_tunnels_def fake_parse_def tunnels_body_def)

lemma fake_delay: "tunnel_delay (rev fake_env) = 250"
  by (simp add: tunnel_delay_def fake_env_def parse_uint_def parse_digits_def digit_val_def is_ascii_digit_def u64_max_def)

theorem fake_tunnel_registers_witness:
  "snd (tunnel_is_registered ''U'' fake_world) = False \<and>
   snd (tunnel_is_registered ''U'' (set_clk (clock0\<lparr>now := 250\<rparr>) fake_world)) = True"
  using fake_tunnel_registers [of fake_world "rev fake_env" fake_options 0 2]
    fake_tunnel_registers [of "set_clk (clock0\<lparr>now := 250\<rparr>) fake_world" "rev fake_env" fake_options 0 2] fake_reads fake_delay
  by (simp add: fake_world_def fake_options_def ios_launch_options_def tunnel_registered_def clock0_def quiet_outside_def)
    (simp add: fake_env_def)

text \<open>
  C5. A session comes up. On a machine where the commands of the session run and ports are free, where the tunnel of the
  device is listed a second before its budget ends, where WebDriverAgent answers within its budget
  (after \<open>m\<close> requests, the failed ones up to five seconds each), and where the pictures flow, the thread
  launches the tunnel, \<open>runwda\<close> and the two forwarders, each once, shows the port of the pictures, and
  runs until the stop request; then it shows \<open>Stopping\<close> and a requested exit, and its four
  children are dead and reaped.
\<close>

theorem ios_session_comes_up:
  assumes "io_mode options = Launch ios ids env" "steady (session_command options) w"
    and "tunnel_up (io_udid options) (w_out w) t0" "t0 + 1000 \<le> now (w_clk w) + io_tunnel_ready_budget options"
    and "wda_up (w_wda w) m" "pictures_up (w_out w) port" "first_stop w n" "\<forall>t. lag (w_clk w) t \<le> J"
    and "client_looks w m * (REQUEST_TIMEOUT + 200 + J) < io_status_budget options"
    and "polls (w_clk w) + rounds (t0 - now (w_clk w)) + client_looks w m < n"
  shows "\<exists>w' p q chs. ios_supervise options w = Some w' \<and>
    w_status w' = w_status w @ [IosRunning port, IosStopping, IosExited Requested] \<and>
    issued (w_host w') = issued (w_host w) @ [(ios, env, tunnel_args options), (ios, env, runwda_args options ids),
      (ios, env, forward_args options p 8100), (ios, env, forward_args options q 9100)] \<and>
    w_children w' = [] \<and> w_ended w' = w_ended w @ chs \<and>
    map sc_kind chs = map sc_kind (w_children w) @ [Tunnel, RunWda, ForwardHttp, ForwardMjpeg] \<and>
    (\<forall>p \<in> set (child_procs chs). reaped p \<and> exited_by (now (w_clk w')) p)"
proof -
  obtain v p q where v: "start_session options w = Some (v, Inr Requested)" "w_status v = w_status w @ [IosRunning port]"
    "map sc_kind (w_children v) = map sc_kind (w_children w) @ [Tunnel, RunWda, ForwardHttp, ForwardMjpeg]"
    "issued (w_host v) = issued (w_host w) @ [(ios, env, tunnel_args options), (ios, env, runwda_args options ids),
      (ios, env, forward_args options p 8100), (ios, env, forward_args options q 9100)]" "w_ended v = w_ended w" "steady (session_command options) v"
    using start_session_up [OF assms] by blast
  have "list_all waitable (w_children v)" using v(6) by (auto simp: steady_def runs_def waitable_def list_all_iff)
  then obtain w' chs where d: "ios_shutdown v = Some w'" "w_children w' = []" "w_ended w' = w_ended v @ chs"
    "map sc_kind chs = map sc_kind (w_children v)" "\<forall>p \<in> set (child_procs chs). gone (w_clk w') p"
    "w_status w' = w_status v @ [IosStopping]"
    by (rule ios_shutdown_spec)
  let ?w' = "w'\<lparr>w_status := w_status w' @ [IosExited Requested]\<rparr>"
  have "ios_supervise options w = Some ?w'" by (simp add: ios_supervise_def v(1) d(1))
  moreover have "\<forall>p \<in> set (child_procs chs). reaped p \<and> exited_by (now (w_clk ?w')) p" using d(5) by (simp add: gone_def)
  ultimately show ?thesis using d(2-4,6) v(2-5) ios_shutdown_issues_nothing [OF d(1)]
    by (intro exI [of _ ?w'] exI [of _ p] exI [of _ q] exI [of _ chs]) simp
qed

theorem ios_session_comes_up_witness:
  "\<exists>w' p q. ios_supervise fake_options fake_world = Some w' \<and>
     w_status w' = [IosStarting, IosRunning 40000, IosStopping, IosExited Requested] \<and>
     issued (w_host w') = [(''ios'', fake_env, tunnel_args fake_options), (''ios'', fake_env, runwda_args fake_options some_ids),
       (''ios'', fake_env, forward_args fake_options p 8100), (''ios'', fake_env, forward_args fake_options q 9100)] \<and>
     map sc_kind (w_ended w') = [Tunnel, RunWda, ForwardHttp, ForwardMjpeg] \<and>
     list_all (\<lambda>p. reaped p \<and> exited_by (now (w_clk w')) p) (child_procs (w_ended w'))"
proof -
  have o: "io_mode fake_options = Launch ''ios'' some_ids fake_env" "io_udid fake_options = ''U''"
    "io_tunnel_ready_budget fake_options = 10000" "io_status_budget fake_options = 60000"
    by (simp_all add: fake_options_def ios_launch_options_def TUNNEL_READY_BUDGET_def DEFAULT_STATUS_BUDGET_def)
  have q: "launch (w_host fake_world) = fake_launch concat (\<lambda>_. None) 5 []" "w_children fake_world = []" "w_clk fake_world = clock0"
    "w_stop fake_world = (\<lambda>n. n = 20)" "w_wda fake_world = waking_wda" "w_status fake_world = [IosStarting]" "w_ended fake_world = []"
    "issued (w_host fake_world) = []"
    "w_out fake_world = quiet_outside\<lparr>o_tunnels := fake_tunnels (rev fake_env) (tunnel_args fake_options) 0 2, o_parse := fake_parse,
       o_connect := (\<lambda>_. (0, None))\<rparr>"
    by (simp_all add: fake_world_def quiet_world_def)
  have st: "steady (session_command fake_options) fake_world"
    using fake_launch_runs [of fake_options _ _ _ "[]" "\<lambda>_. None"] unfolding steady_def q
    by (auto simp: session_command_def o fake_env_def quiet_outside_def)
  have tu: "tunnel_up ''U'' (w_out fake_world) 250"
    using fake_tunnel_up [of "rev fake_env" 2 "w_out fake_world" fake_options 0] fake_reads fake_delay o(2)
    by (simp add: q fake_env_def)
  have wd: "wda_up (w_wda fake_world) 3"
    by (simp add: q wda_up_def waking_wda_def REQUEST_TIMEOUT_def BODY_LIMIT_def session_id_of_def)
  have pi: "pictures_up (w_out fake_world) 40000"
    by (simp add: q pictures_up_def quiet_outside_def new_slot_def is_alive_def)
  show ?thesis
    using ios_session_comes_up [of fake_options "''ios''" some_ids fake_env fake_world 250 3 40000 20 0] o st tu wd pi
    by (auto simp: q first_stop_def clock0_def client_looks_def waking_wda_def REQUEST_TIMEOUT_def rounds_def list_all_iff)
qed

end
