(* ===== verification/PairingSuccess.thy ===== *)
theory PairingSuccess
  imports PairingFlow
begin

text \<open>
  A pairing that succeeds (\<open>quadcontrol-android\<close>, \<open>wireless.rs\<close>): when \<open>adb\<close> answers in time, lists the
  service of the phone some time, and pairs, the command \<open>pair-qr\<close> reports the serial of the phone.
\<close>

section \<open>An adb that answers\<close>

text \<open>A process that prints \<open>out\<close> and exits with success within \<open>D\<close>.\<close>

definition answers :: "nat \<Rightarrow> string \<Rightarrow> proc \<Rightarrow> bool" where
  "answers D out p \<longleftrightarrow> (\<exists>d \<le> D. exit_at p = Some (d, Some 0)) \<and> wait_err p = None \<and> pipe_eof p = Some 0 \<and> in_err p = None \<and>
     out_chunks p = [Inr out] \<and> err_chunks p = [] \<and> ascii out \<and> length out \<le> WL_OUTPUT_LIMIT"

definition tells_at :: "nat \<Rightarrow> host \<Rightarrow> string \<Rightarrow> string list \<Rightarrow> nat \<Rightarrow> string \<Rightarrow> bool" where
  "tells_at i h adb args D out \<longleftrightarrow> (\<exists>p. launch h i adb [] args = Inr p \<and> answers D out p)"

text \<open>Going on with the machine: the commands issued, and at most \<open>T\<close> milliseconds spent.\<close>

definition went :: "string \<Rightarrow> nat \<Rightarrow> string list list \<Rightarrow> host \<Rightarrow> host \<Rightarrow> bool" where
  "went adb T argvs h h' \<longleftrightarrow> launch h' = launch h \<and> lag (clk h') = lag (clk h) \<and> now (clk h) \<le> now (clk h') \<and>
     now (clk h') \<le> now (clk h) + T \<and> issued h' = issued h @ map (\<lambda>a. (adb, [], a)) argvs"

lemma went_trans: "went adb S a u v \<Longrightarrow> went adb T b v w \<Longrightarrow> went adb (S + T) (a @ b) u w"
  by (auto simp: went_def)

lemma went_clk: "now (clk h) \<le> now c \<Longrightarrow> now c \<le> now (clk h) + T \<Longrightarrow> lag c = lag (clk h) \<Longrightarrow> went adb T [] h (h\<lparr>clk := c\<rparr>)"
  by (simp add: went_def)

lemma tells_went: "went adb T a h h' \<Longrightarrow> tells_at i h' = tells_at i h"
  by (simp add: went_def tells_at_def fun_eq_iff)

lemma answers_finish:
  assumes "answers D out p" "exit_at q = Some (e, Some 0)" "e \<le> now c" "pipe_eof q = Some 0" "out_chunks q = out_chunks p"
    "err_chunks q = err_chunks p"
  shows "finish_output c q (Some 0) = Some (c, Inr (0, out, []))"
proof -
  have a: "out_chunks q = [Inr out]" "err_chunks q = []" "ascii out" "length out \<le> WL_OUTPUT_LIMIT"
    using assms by (simp_all add: answers_def)
  then have cap: "capture_all (out_chunks q) = Inr (out, False)" "capture_all (err_chunks q) = Inr ([], False)"
    by (simp_all add: capture_all_def Let_def)
  have j: "os_join_reader c q = Some c" using assms by (simp add: os_join_reader_def max_def)
  have "join_pipe (out_chunks q) c q = Some c" "join_pipe (err_chunks q) c q = Some c"
    using a j by (simp_all add: join_pipe_def)
  then show ?thesis using cap a(3) by (simp add: finish_output_def code_or_def from_utf8_lossy_ascii)
qed

lemma collect_answers:
  assumes "answers D out p" "exit_at q = Some (e, Some 0)" "wait_err q = None" "pipe_eof q = Some 0" "out_chunks q = out_chunks p"
    "err_chunks q = err_chunks p" "e \<le> started + D" "D < WL_COMMAND_TIMEOUT" "\<forall>t. lag c t \<le> J"
  shows "\<exists>c' q'. collect_loop started c q = Some (c', q', Inr (0, out, [])) \<and> lag c' = lag c \<and> now c \<le> now c' \<and>
    now c' \<le> max (now c) (e + 10 + J)"
  using assms(2-9)
proof (induction "e - now c" arbitrary: c rule: less_induct)
  case less
  note unf = collect_loop.simps [of started c q]
  show ?case
  proof (cases "e \<le> now c")
    case True
    have "finish_output c (q\<lparr>reaped := True\<rparr>) (Some 0) = Some (c, Inr (0, out, []))"
      by (rule answers_finish [OF assms(1), of _ e]) (use less.prems True in simp_all)
    with True less.prems show ?thesis by (simp add: unf os_try_wait_def)
  next
    case False
    then have early: "\<not> WL_COMMAND_TIMEOUT \<le> elapsed started c" using less.prems(6,7) by (simp add: elapsed_def)
    have "\<exists>c' q'. collect_loop started (os_sleep 10 c) q = Some (c', q', Inr (0, out, [])) \<and> lag c' = lag (os_sleep 10 c) \<and>
        now (os_sleep 10 c) \<le> now c' \<and> now c' \<le> max (now (os_sleep 10 c)) (e + 10 + J)"
      by (rule less.hyps) (use False less.prems in simp_all)
    moreover have "now (os_sleep 10 c) \<le> now c + 10 + J" using less.prems(8) by simp
    ultimately show ?thesis using False less.prems(1,2) early by (auto simp: unf os_try_wait_def)
  qed
qed

lemma run_adb_answers:
  assumes "tells_at (length (issued h)) h adb args D out" "D < WL_COMMAND_TIMEOUT" "\<forall>t. lag (clk h) t \<le> J"
  shows "\<exists>h'. run_adb adb args h = Some (h', Inr (0, out, [])) \<and> went adb (D + 10 + J) [args] h h'"
proof -
  obtain p d where p: "launch h (length (issued h)) adb [] args = Inr p" "answers D out p" "exit_at p = Some (d, Some 0)" "d \<le> D"
    "wait_err p = None" "pipe_eof p = Some 0"
    using assms(1) by (auto simp: tells_at_def answers_def)
  let ?h = "h\<lparr>issued := issued h @ [(adb, [], args)]\<rparr>" and ?q = "p\<lparr>exit_at := Some (now (clk h) + d, Some 0)\<rparr>"
  have s: "os_spawn adb args h = (?h, Inr ?q)" using p by (simp add: os_spawn_env_def)
  obtain c q where c: "collect_loop (now (clk h)) (clk h) ?q = Some (c, q, Inr (0, out, []))" "lag c = lag (clk h)" "now (clk h) \<le> now c"
    "now c \<le> max (now (clk h)) (now (clk h) + d + 10 + J)"
    using collect_answers [OF p(2), of ?q "now (clk h) + d" "now (clk h)" "clk h" J] p assms(2,3) by auto
  have "run_adb adb args h = Some (?h\<lparr>clk := c\<rparr>, Inr (0, out, []))" using s c(1) by (simp add: run_adb_def)
  moreover have "went adb (D + 10 + J) [args] h (?h\<lparr>clk := c\<rparr>)" using c p(4) by (simp add: went_def)
  ultimately show ?thesis by blast
qed

section \<open>The round\<close>

lemma poll_stop_never:
  assumes "\<forall>k. \<not> cancel k" "\<forall>k. \<not> signal_requested (signals k)"
  obtains c' where "poll_stop cancel signals c = (c', False)" "now c' = now c" "lag c' = lag c"
  using assms by (auto simp: poll_stop_def poll_flag_def)

text \<open>The pairing process of the phone: it exits at \<open>x\<close>, and has told its GUID.\<close>

definition pairing_ok :: "nat \<Rightarrow> string \<Rightarrow> PairProcess \<Rightarrow> bool" where
  "pairing_ok x guid q \<longleftrightarrow> exit_at (pp_child q) = Some (x, Some 0) \<and> x < pp_started q + WL_COMMAND_TIMEOUT \<and> wait_err (pp_child q) = None \<and>
     pipe_eof (pp_child q) = Some 0 \<and> pp_out q \<and> pp_err q \<and>
     (\<exists>out. out_chunks (pp_child q) = [Inr out] \<and> err_chunks (pp_child q) = [] \<and> ascii out \<and> length out \<le> WL_OUTPUT_LIMIT \<and>
        find_guid out = Some guid)"

text \<open>The process when it has been collected.\<close>

definition collected :: "clock \<Rightarrow> PairProcess \<Rightarrow> bool" where
  "collected c q \<longleftrightarrow> (\<exists>x k. exit_at (pp_child q) = Some (x, k) \<and> x \<le> now c) \<and> wait_err (pp_child q) = None \<and> \<not> pp_out q \<and> \<not> pp_err q"

lemma poll_waits:
  assumes "pairing_ok x guid q" "now c < x"
  shows "poll_pairs pw c [q] w = Some (c, [q], w)"
proof -
  have "os_try_wait c (pp_child q) = (pp_child q, Inr None)"
    using assms by (simp add: os_try_wait_def pairing_ok_def)
  moreover have "\<not> WL_COMMAND_TIMEOUT \<le> elapsed (pp_started q) c"
    using assms by (auto simp: pairing_ok_def elapsed_def WL_COMMAND_TIMEOUT_def)
  ultimately have "pair_poll c q = Some (c, q, Inr None)" by (simp add: pair_poll_def)
  then show ?thesis by (simp add: poll_pairs.simps)
qed

lemma poll_collects:
  assumes "pairing_ok x guid q" "x \<le> now c"
  shows "\<exists>q'. poll_pairs pw c [q] w = Some (c, [q'], w\<lparr>paired := Some guid\<rparr>) \<and> collected c q'"
proof -
  obtain out where o: "out_chunks (pp_child q) = [Inr out]" "err_chunks (pp_child q) = []" "ascii out" "length out \<le> WL_OUTPUT_LIMIT"
    "find_guid out = Some guid" using assms(1) by (auto simp: pairing_ok_def)
  let ?p = "(pp_child q)\<lparr>reaped := True\<rparr>"
  have tw: "os_try_wait c (pp_child q) = (?p, Inr (Some (Some 0)))" using assms by (simp add: os_try_wait_def pairing_ok_def)
  have cap: "capture_all (out_chunks ?p) = Inr (out, False)" "capture_all (err_chunks ?p) = Inr ([], False)"
    using o by (simp_all add: capture_all_def Let_def)
  have "os_join_reader c ?p = Some c" using assms by (simp add: os_join_reader_def pairing_ok_def max_def)
  then have "finish_output c ?p (Some 0) = Some (c, Inr (0, out, []))"
    using cap o by (simp add: finish_output_def join_pipe_def code_or_def from_utf8_lossy_ascii)
  then have "pair_poll c q = Some (c, q\<lparr>pp_child := ?p, pp_out := False, pp_err := False\<rparr>, Inr (Some (0, out, [])))"
    using assms(1) tw cap by (simp add: pair_poll_def pair_finish_def pairing_ok_def)
  moreover have "collected c (q\<lparr>pp_child := ?p, pp_out := False, pp_err := False\<rparr>)"
    using assms by (simp add: collected_def pairing_ok_def)
  ultimately show ?thesis using o(5) by (intro exI [of _ "q\<lparr>pp_child := ?p, pp_out := False, pp_err := False\<rparr>"]) (simp add: Let_def poll_pairs.simps)
qed

lemma pair_spawn_answers:
  assumes "tells_at (length (issued h)) h adb [''pair'', ep] D out" "D < WL_COMMAND_TIMEOUT" "find_guid out = Some guid"
  shows "\<exists>h' q x. pair_spawn adb ep pw h = Some (h', Inr q) \<and> went adb 0 [[''pair'', ep]] h h' \<and> pairing_ok x guid q \<and> x \<le> now (clk h) + D"
proof -
  obtain p d where p: "launch h (length (issued h)) adb [] [''pair'', ep] = Inr p" "answers D out p" "exit_at p = Some (d, Some 0)" "d \<le> D"
    "wait_err p = None" "pipe_eof p = Some 0" "in_err p = None" "out_chunks p = [Inr out]" "err_chunks p = []" "ascii out"
    "length out \<le> WL_OUTPUT_LIMIT"
    using assms(1) by (auto simp: tells_at_def answers_def)
  let ?h = "h\<lparr>issued := issued h @ [(adb, [], [''pair'', ep])]\<rparr>" and ?p = "p\<lparr>exit_at := Some (now (clk h) + d, Some 0)\<rparr>"
  let ?q = "\<lparr>pp_child = ?p\<lparr>in_data := in_data p @ pw @ [CHR 0x0A]\<rparr>, pp_out = True, pp_err = True, pp_started = now (clk h)\<rparr>"
  have "pair_spawn adb ep pw h = Some (?h, Inr ?q)"
    using p by (simp add: pair_spawn_def os_spawn_env_def os_write_stdin_def)
  moreover have "pairing_ok (now (clk h) + d) guid ?q" using p assms(2,3) by (auto simp: pairing_ok_def)
  moreover have "went adb 0 [[''pair'', ep]] h ?h" by (simp add: went_def)
  ultimately show ?thesis using p(4) by (intro exI [of _ ?h] exI [of _ ?q] exI [of _ "now (clk h) + d"]) simp
qed

text \<open>The listings of services: without the phone before the \<open>k\<close>-th command, with it from then on.\<close>

definition phone_listed :: "host \<Rightarrow> string \<Rightarrow> nat \<Rightarrow> string \<Rightarrow> string \<Rightarrow> nat \<Rightarrow> bool" where
  "phone_listed h adb D name ep k \<longleftrightarrow> (\<forall>i. \<exists>out. tells_at i h adb [''mdns'', ''services''] D out \<and>
     map endpoint_text (find_pairing_services (parse_mdns_services out) name) = (if i < k then [] else [ep]))"

lemma phone_listed_went: "went adb T a h h' \<Longrightarrow> phone_listed h' = phone_listed h"
  by (simp add: phone_listed_def tells_went fun_eq_iff)

lemma query_answers:
  assumes "phone_listed h adb D name ep k" "D < WL_COMMAND_TIMEOUT" "\<forall>t. lag (clk h) t \<le> J"
  shows "\<exists>h' found. query_services adb h v = Some (Inr (h', v, Some found)) \<and> went adb (D + 10 + J) [[''mdns'', ''services'']] h h' \<and>
    map endpoint_text (find_pairing_services found name) = (if length (issued h) < k then [] else [ep])"
proof -
  obtain out where o: "tells_at (length (issued h)) h adb [''mdns'', ''services''] D out"
    "map endpoint_text (find_pairing_services (parse_mdns_services out) name) = (if length (issued h) < k then [] else [ep])"
    using assms(1) unfolding phone_listed_def by blast
  from run_adb_answers [OF o(1) assms(2,3)] obtain h' where
    "run_adb adb [''mdns'', ''services''] h = Some (h', Inr (0, out, []))" "went adb (D + 10 + J) [[''mdns'', ''services'']] h h'" by blast
  with o(2) show ?thesis by (intro exI [of _ h'] exI [of _ "parse_mdns_services out"]) (simp add: query_services_def adb_mdns_services_def)
qed

text \<open>The end of a round that has paired: the one process was collected, and the round is open still.\<close>

definition pair_calls :: "string list list \<Rightarrow> string list list" where
  "pair_calls argvs = filter (\<lambda>a. hd a = ''pair'') argvs"

lemma pair_calls_simps [simp]:
  "pair_calls [] = []" "pair_calls ([''mdns'', c] # as) = pair_calls as" "pair_calls ([''pair'', c] # as) = [''pair'', c] # pair_calls as"
  "pair_calls (as @ bs) = pair_calls as @ pair_calls bs"
  by (simp_all add: pair_calls_def)

definition round_paired :: "string \<Rightarrow> string \<Rightarrow> string list list \<Rightarrow> host \<Rightarrow> round_end option \<Rightarrow> bool" where
  "round_paired adb guid pairs h result \<longleftrightarrow> (\<exists>h' v' T argvs q. result = Some (h', v', EvPairSucceeded guid, Inr guid) \<and>
     went adb T argvs h h' \<and> pair_calls argvs = pairs \<and> rv_pairs v' = [q] \<and> collected (clk h') q \<and> \<not> rd_closed (rv_round v'))"

lemma round_paired_went:
  "round_paired adb guid pairs u r \<Longrightarrow> went adb T argvs h u \<Longrightarrow> round_paired adb guid (pair_calls argvs @ pairs) h r"
proof -
  assume *: "round_paired adb guid pairs u r" "went adb T argvs h u"
  then obtain h' v' S cs q where r: "r = Some (h', v', EvPairSucceeded guid, Inr guid)" "went adb S cs u h'" "pair_calls cs = pairs"
    "rv_pairs v' = [q]" "collected (clk h') q" "\<not> rd_closed (rv_round v')" unfolding round_paired_def by blast
  from went_trans [OF *(2) r(2)] r show ?thesis unfolding round_paired_def by fastforce
qed

definition pairing_state :: "nat \<Rightarrow> string \<Rightarrow> string \<Rightarrow> round_vars \<Rightarrow> bool" where
  "pairing_state x guid ep v \<longleftrightarrow> (\<exists>q. rv_pairs v = [q] \<and> pairing_ok x guid q) \<and> rv_spawned v = [ep] \<and> rv_watch v = watch_new \<and>
     \<not> rd_closed (rv_round v)"

lemma turn_polls:
  assumes "discover adb secret i found h v = Some (Inr (h1, v1))" "pairing_state x guid ep v1"
  obtains (waits) "round_turn adb secret i found h v = Some (Inr (h1, v1))" "now (clk h1) < x"
  | (pairs) v2 q where "round_turn adb secret i found h v = Some (Inl (h1, v2, EvPairSucceeded guid, Inr guid))" "rv_pairs v2 = [q]"
      "collected (clk h1) q" "\<not> rd_closed (rv_round v2)"
proof -
  obtain q where q: "rv_pairs v1 = [q]" "pairing_ok x guid q" "paired (rv_watch v1) = None"
    using assms(2) by (auto simp: pairing_state_def watch_new_def)
  show thesis
  proof (cases "now (clk h1) < x")
    case True
    from poll_waits [OF q(2) True] have "poll_pairs (password secret) (clk h1) (rv_pairs v1) (rv_watch v1) = Some (clk h1, [q], rv_watch v1)"
      by (simp add: q(1))
    then have "round_turn adb secret i found h v = Some (Inr (h1, v1))"
      using assms(1) q by (simp add: round_turn_def)
    with True show thesis by (intro waits)
  next
    case False
    then obtain q' where q': "poll_pairs (password secret) (clk h1) [q] (rv_watch v1) = Some (clk h1, [q'], (rv_watch v1)\<lparr>paired := Some guid\<rparr>)"
      "collected (clk h1) q'"
      using poll_collects [OF q(2), of "clk h1" "password secret" "rv_watch v1"] by auto
    let ?v = "v1\<lparr>rv_pairs := [q'], rv_watch := (rv_watch v1)\<lparr>paired := Some guid\<rparr>\<rparr>"
    have "round_turn adb secret i found h v = Some (Inl (h1, ?v, EvPairSucceeded guid, Inr guid))"
      using assms(1) q'(1) by (simp add: round_turn_def q(1))
    with q'(2) assms(2) show thesis by (intro pairs [of ?v q']) (simp_all add: pairing_state_def)
  qed
qed

lemma discover_known:
  assumes "pairing_state x guid ep v" "map endpoint_text (find_pairing_services found (service_name secret)) = [ep]"
  shows "discover adb secret i (Some found) h v = Some (Inr (h, v))"
  using assms by (auto simp: discover_def pairing_state_def Let_def)

lemma discover_nothing:
  assumes "rv_pairs v = []" "rv_spawned v = []" "find_pairing_services found (service_name secret) = []"
  shows "discover adb secret i (Some found) h v = Some (Inr (h, v))"
  using assms by (simp add: discover_def Let_def)

lemma discover_phone:
  assumes "rv_pairs v = []" "rv_spawned v = []" "rv_watch v = watch_new" "\<not> rd_closed (rv_round v)"
    and "map endpoint_text (find_pairing_services found (service_name secret)) = [ep]"
    and "tells_at (length (issued h)) h adb [''pair'', ep] D out" "D < WL_COMMAND_TIMEOUT" "find_guid out = Some guid"
  shows "\<exists>h' v' x. discover adb secret i (Some found) h v = Some (Inr (h', v')) \<and> went adb 0 [[''pair'', ep]] h h' \<and>
    pairing_state x guid ep v' \<and> x \<le> now (clk h) + D"
proof -
  obtain h' q x where s: "pair_spawn adb ep (password secret) h = Some (h', Inr q)" "went adb 0 [[''pair'', ep]] h h'" "pairing_ok x guid q"
    "x \<le> now (clk h) + D"
    using pair_spawn_answers [OF assms(6-8)] by blast
  let ?v = "v\<lparr>rv_pairs := [q], rv_spawned := [ep], rv_round := (rv_round v)\<lparr>pair_in_flight := True\<rparr>\<rparr>"
  have "find_pairing_services found (service_name secret) \<noteq> []" using assms(5) by auto
  then have "discover adb secret i (Some found) h v = Some (Inr (h', ?v))"
    using assms(1,2,5) s(1) by (simp add: discover_def Let_def)
  moreover have "pairing_state x guid ep ?v" using assms(3,4) s(3) by (simp add: pairing_state_def)
  ultimately show ?thesis using s(2,4) by blast
qed

text \<open>Where nothing cancels.\<close>

definition unbothered :: "(nat \<Rightarrow> bool) \<Rightarrow> (nat \<Rightarrow> 8 word) \<Rightarrow> bool" where
  "unbothered cancel signals \<longleftrightarrow> (\<forall>k. \<not> cancel k) \<and> (\<forall>k. \<not> signal_requested (signals k))"

text \<open>One round of the loop: the poll for a stop and the query have no effect but the time they take.\<close>

lemma loop_turn:
  assumes "unbothered cancel signals" "phone_listed h adb D (service_name secret) ep k" "D < WL_COMMAND_TIMEOUT" "\<forall>t. lag (clk h) t \<le> J"
    and "now (clk h) < deadline"
  obtains h1 found where "went adb (D + 10 + J) [[''mdns'', ''services'']] h h1"
    "map endpoint_text (find_pairing_services found (service_name secret)) = (if length (issued h) < k then [] else [ep])"
    "round_loop adb secret i deadline cancel signals h v =
      (case round_turn adb secret i (Some found) h1 v of
         None \<Rightarrow> None
       | Some (Inl e) \<Rightarrow> Some e
       | Some (Inr (h2, v2)) \<Rightarrow> round_loop adb secret i deadline cancel signals (h2\<lparr>clk := os_sleep 250 (clk h2)\<rparr>) v2)"
proof -
  obtain c where c: "poll_stop cancel signals (clk h) = (c, False)" "now c = now (clk h)" "lag c = lag (clk h)"
    using assms(1) poll_stop_never unfolding unbothered_def by metis
  let ?h = "h\<lparr>clk := c\<rparr>"
  have w: "went adb 0 [] h ?h" using c by (intro went_clk) simp_all
  have "phone_listed ?h adb D (service_name secret) ep k" "\<forall>t. lag (clk ?h) t \<le> J"
    using assms(2,4) phone_listed_went [OF w] c by simp_all
  from query_answers [OF this(1) assms(3) this(2), of v] obtain h1 found where q: "query_services adb ?h v = Some (Inr (h1, v, Some found))"
    "went adb (D + 10 + J) [[''mdns'', ''services'']] ?h h1"
    "map endpoint_text (find_pairing_services found (service_name secret)) = (if length (issued h) < k then [] else [ep])" by auto
  have "went adb (D + 10 + J) [[''mdns'', ''services'']] h h1" using went_trans [OF w q(2)] by simp
  moreover have "round_loop adb secret i deadline cancel signals h v =
      (case round_turn adb secret i (Some found) h1 v of
         None \<Rightarrow> None
       | Some (Inl e) \<Rightarrow> Some e
       | Some (Inr (h2, v2)) \<Rightarrow> round_loop adb secret i deadline cancel signals (h2\<lparr>clk := os_sleep 250 (clk h2)\<rparr>) v2)"
    unfolding round_loop.simps [of adb secret i deadline cancel signals h v] using c assms(5) q(1) by simp
  ultimately show thesis using q(3) by (intro that)
qed

lemma went_sleep: "\<forall>t. lag (clk h) t \<le> J \<Longrightarrow> went adb (d + J) [] h (h\<lparr>clk := os_sleep d (clk h)\<rparr>)"
  by (rule went_clk) (simp_all add: os_sleep_def)

lemma went_time: "went adb T a u v \<Longrightarrow> now (clk u) \<le> now (clk v) \<and> now (clk v) \<le> now (clk u) + T \<and> lag (clk v) = lag (clk u) \<and>
    length (issued v) = length (issued u) + length a"
  by (simp add: went_def)

lemma loop_pairs:
  assumes "unbothered cancel signals" "pairing_state x guid ep v" "k \<le> length (issued h)"
    and "phone_listed h adb D (service_name secret) ep k" "D < WL_COMMAND_TIMEOUT" "\<forall>t. lag (clk h) t \<le> J"
    and "now (clk h) < deadline" "x + 250 + J \<le> deadline"
  shows "round_paired adb guid [] h (round_loop adb secret i deadline cancel signals h v)"
  using assms
proof (induction "x - now (clk h)" arbitrary: h v rule: less_induct)
  case less
  have nk: "\<not> length (issued h) < k" using less.prems(3) by simp
  obtain h1 found where t: "went adb (D + 10 + J) [[''mdns'', ''services'']] h h1"
    "map endpoint_text (find_pairing_services found (service_name secret)) = [ep]"
    "round_loop adb secret i deadline cancel signals h v =
      (case round_turn adb secret i (Some found) h1 v of
         None \<Rightarrow> None
       | Some (Inl e) \<Rightarrow> Some e
       | Some (Inr (h2, v2)) \<Rightarrow> round_loop adb secret i deadline cancel signals (h2\<lparr>clk := os_sleep 250 (clk h2)\<rparr>) v2)"
    by (rule loop_turn [OF less.prems(1,4,5,6,7), where v = v and i = i, unfolded if_not_P [OF nk]])
  note w = went_time [OF t(1)]
  from discover_known [OF less.prems(2) t(2), of adb i h1] less.prems(2) show ?case
  proof (cases rule: turn_polls)
    case waits
    let ?h = "h1\<lparr>clk := os_sleep 250 (clk h1)\<rparr>"
    have l1: "\<forall>t. lag (clk h1) t \<le> J" using less.prems(6) w by simp
    note s = went_sleep [OF l1, of adb 250] and wt = went_time [OF went_sleep [OF l1, of adb 250]]
    note g = went_trans [OF t(1) s]
    have "round_paired adb guid [] ?h (round_loop adb secret i deadline cancel signals ?h v)"
    proof (rule less.hyps)
      have "now (clk h) < now (clk ?h)" "now (clk h) < x" using waits(2) w by (simp_all add: os_sleep_def)
      then show "x - now (clk ?h) < x - now (clk h)" by (intro diff_less_mono2)
      show "unbothered cancel signals" "pairing_state x guid ep v" "D < WL_COMMAND_TIMEOUT" "x + 250 + J \<le> deadline"
        using less.prems by simp_all
      show "k \<le> length (issued ?h)" "\<forall>t. lag (clk ?h) t \<le> J" using less.prems(3) w l1 by simp_all
      show "phone_listed ?h adb D (service_name secret) ep k" using less.prems(4) phone_listed_went [OF g] by simp
      show "now (clk ?h) < deadline" using wt waits(2) less.prems(8) by linarith
    qed
    from round_paired_went [OF this g] show ?thesis using t(3) waits(1) by simp
  next
    case (pairs v2 q)
    with t w show ?thesis unfolding round_paired_def by (fastforce simp: t(3))
  qed
qed

text \<open>The commands that the round may still issue before the phone is listed.\<close>

definition seeking :: "round_vars \<Rightarrow> bool" where
  "seeking v \<longleftrightarrow> rv_pairs v = [] \<and> rv_spawned v = [] \<and> rv_watch v = watch_new \<and> \<not> rd_closed (rv_round v)"

lemma loop_seeks:
  assumes "unbothered cancel signals" "seeking v"
    and "phone_listed h adb D (service_name secret) ep k" "D < WL_COMMAND_TIMEOUT" "\<forall>t. lag (clk h) t \<le> J"
    and "\<forall>i. tells_at i h adb [''pair'', ep] E out" "E < WL_COMMAND_TIMEOUT" "find_guid out = Some guid"
    and "now (clk h) + Suc (k - length (issued h)) * (D + 260 + 2 * J) + E \<le> deadline"
  shows "round_paired adb guid [[''pair'', ep]] h (round_loop adb secret i deadline cancel signals h v)"
  using assms
proof (induction "k - length (issued h)" arbitrary: h v)
  case 0
  have nk: "\<not> length (issued h) < k" using 0(1) by simp
  have dl: "now (clk h) + D + 260 + 2 * J + E \<le> deadline" using "0.prems"(9) 0(1) by simp
  then have lt: "now (clk h) < deadline" by linarith
  obtain h1 found where t: "went adb (D + 10 + J) [[''mdns'', ''services'']] h h1"
    "map endpoint_text (find_pairing_services found (service_name secret)) = [ep]"
    "round_loop adb secret i deadline cancel signals h v =
      (case round_turn adb secret i (Some found) h1 v of
         None \<Rightarrow> None
       | Some (Inl e) \<Rightarrow> Some e
       | Some (Inr (h2, v2)) \<Rightarrow> round_loop adb secret i deadline cancel signals (h2\<lparr>clk := os_sleep 250 (clk h2)\<rparr>) v2)"
    by (rule loop_turn [OF "0.prems"(1,3,4,5) lt, where v = v and i = i, unfolded if_not_P [OF nk]])
  have tl: "tells_at (length (issued h1)) h1 adb [''pair'', ep] E out" using "0.prems"(6) tells_went [OF t(1)] by simp
  have v: "rv_pairs v = []" "rv_spawned v = []" "rv_watch v = watch_new" "\<not> rd_closed (rv_round v)"
    using "0.prems"(2) by (simp_all add: seeking_def)
  obtain h2 v2 x where d: "discover adb secret i (Some found) h1 v = Some (Inr (h2, v2))" "went adb 0 [[''pair'', ep]] h1 h2"
    "pairing_state x guid ep v2" "x \<le> now (clk h1) + E"
    using discover_phone [OF v t(2) tl "0.prems"(7,8)] by blast
  note g2 = went_trans [OF t(1) d(2)] and w1 = went_time [OF t(1)] and w2 = went_time [OF went_trans [OF t(1) d(2)]]
  from d(1,3) show ?case
  proof (cases rule: turn_polls)
    case waits
    let ?h = "h2\<lparr>clk := os_sleep 250 (clk h2)\<rparr>"
    have l2: "\<forall>t. lag (clk h2) t \<le> J" using "0.prems"(5) w2 by simp
    note wt = went_time [OF went_sleep [OF l2, of adb 250]] and g = went_trans [OF g2 went_sleep [OF l2, of adb 250]]
    have "round_paired adb guid [] ?h (round_loop adb secret i deadline cancel signals ?h v2)"
    proof (rule loop_pairs)
      show "unbothered cancel signals" "pairing_state x guid ep v2" "D < WL_COMMAND_TIMEOUT"
        using "0.prems" d(3) by simp_all
      show "k \<le> length (issued ?h)" "\<forall>t. lag (clk ?h) t \<le> J" using 0(1) w2 l2 by simp_all
      show "phone_listed ?h adb D (service_name secret) ep k" using "0.prems"(3) phone_listed_went [OF g] by simp
      show "x + 250 + J \<le> deadline" using d(4) w1 dl by linarith
      then show "now (clk ?h) < deadline" using wt waits(2) by linarith
    qed
    from round_paired_went [OF this g] show ?thesis using t(3) waits(1) by simp
  next
    case (pairs v3 q)
    with t g2 show ?thesis unfolding round_paired_def by (fastforce simp: t(3))
  qed
next
  case (Suc n)
  have lk: "length (issued h) < k" using Suc(2) by simp
  have dl: "now (clk h) + (D + 260 + 2 * J) + Suc n * (D + 260 + 2 * J) + E \<le> deadline" using Suc.prems(9) Suc(2) by simp
  then have lt: "now (clk h) < deadline" by simp
  obtain h1 found where t: "went adb (D + 10 + J) [[''mdns'', ''services'']] h h1"
    "map endpoint_text (find_pairing_services found (service_name secret)) = []"
    "round_loop adb secret i deadline cancel signals h v =
      (case round_turn adb secret i (Some found) h1 v of
         None \<Rightarrow> None
       | Some (Inl e) \<Rightarrow> Some e
       | Some (Inr (h2, v2)) \<Rightarrow> round_loop adb secret i deadline cancel signals (h2\<lparr>clk := os_sleep 250 (clk h2)\<rparr>) v2)"
    by (rule loop_turn [OF Suc.prems(1,3,4,5) lt, where v = v and i = i, unfolded if_P [OF lk]])
  have v: "rv_pairs v = []" "rv_spawned v = []" "failure (rv_watch v) = None" "paired (rv_watch v) = None"
    using Suc.prems(2) by (simp_all add: seeking_def watch_new_def)
  let ?v = "v\<lparr>rv_round := (rv_round v)\<lparr>pair_in_flight := False\<rparr>\<rparr>"
  have "discover adb secret i (Some found) h1 v = Some (Inr (h1, v))" using t(2) by (intro discover_nothing v) simp
  then have rt: "round_turn adb secret i (Some found) h1 v = Some (Inr (h1, ?v))"
    using v by (simp add: round_turn_def Let_def)
  let ?h = "h1\<lparr>clk := os_sleep 250 (clk h1)\<rparr>"
  note w1 = went_time [OF t(1)]
  have l1: "\<forall>t. lag (clk h1) t \<le> J" using Suc.prems(5) w1 by simp
  note wt = went_time [OF went_sleep [OF l1, of adb 250]] and g = went_trans [OF t(1) went_sleep [OF l1, of adb 250]]
  have "round_paired adb guid [[''pair'', ep]] ?h (round_loop adb secret i deadline cancel signals ?h ?v)"
  proof (rule Suc.hyps(1))
    show n: "n = k - length (issued ?h)" using Suc(2) w1 by simp
    show "unbothered cancel signals" "D < WL_COMMAND_TIMEOUT" "E < WL_COMMAND_TIMEOUT" "find_guid out = Some guid"
      using Suc.prems by simp_all
    show "seeking ?v" using Suc.prems(2) by (simp add: seeking_def)
    show "phone_listed ?h adb D (service_name secret) ep k" using Suc.prems(3) phone_listed_went [OF g] by simp
    show "\<forall>t. lag (clk ?h) t \<le> J" using l1 by simp
    show "\<forall>i. tells_at i ?h adb [''pair'', ep] E out" using Suc.prems(6) tells_went [OF g] by simp
    show "now (clk ?h) + Suc (k - length (issued ?h)) * (D + 260 + 2 * J) + E \<le> deadline"
      unfolding n [symmetric] using wt w1 dl by simp
  qed
  from round_paired_went [OF this g] show ?case using t(3) rt by simp
qed

section \<open>After the round\<close>

lemma close_paired:
  assumes "collected c q" "\<not> rd_closed r"
  shows "\<exists>x. round_close c r [q] secret qr (EvPairSucceeded g) = Some x \<and> ce_clock x = c \<and> ce_result x = Inr () \<and> ce_reason x = CSuccess"
proof -
  obtain x k where e: "exit_at (pp_child q) = Some (x, k)" "x \<le> now c" "wait_err (pp_child q) = None" "\<not> pp_out q" "\<not> pp_err q"
    using assms(1) by (auto simp: collected_def)
  let ?q = "q\<lparr>pp_child := (pp_child q)\<lparr>reaped := True\<rparr>\<rparr>"
  have tw: "os_try_wait c (pp_child q) = ((pp_child q)\<lparr>reaped := True\<rparr>, Inr (Some k))"
    "os_try_wait c (pp_child ?q) = ((pp_child q)\<lparr>reaped := True\<rparr>, Inr (Some k))"
    using e by (simp_all add: os_try_wait_def)
  have r: "reap_pairs c [q] None = Some (c, [?q], None)" using tw(1) by (simp add: Let_def)
  have "drop_pair c ?q = Some (c, ?q\<lparr>pp_out := False, pp_err := False\<rparr>)"
    using tw(2) e by (simp add: drop_pair_def join_both_def saw_exit_def)
  then have "drop_pairs c [?q] = Some (c, [?q\<lparr>pp_out := False, pp_err := False\<rparr>])" by simp
  with r assms(2) show ?thesis by (simp add: round_close_def observe_def close_round_def Let_def)
qed

lemma wait_guid_answers:
  assumes "unbothered cancel signals" "tells_at (length (issued h)) h adb [''devices'', ''-l''] D out" "D < WL_COMMAND_TIMEOUT"
    "\<forall>t. lag (clk h) t \<le> J" "parse_devices out = Inr ds" "device_for_guid guid ds = Some s"
  shows "\<exists>h'. wait_for_guid_with_cancel adb guid ROUND_TIMEOUT cancel signals h = Some (h', Inr s) \<and>
    went adb (D + 10 + J) [[''devices'', ''-l'']] h h'"
proof -
  obtain c where c: "poll_stop cancel signals (clk h) = (c, False)" "now c = now (clk h)" "lag c = lag (clk h)"
    using assms(1) poll_stop_never unfolding unbothered_def by metis
  let ?h = "h\<lparr>clk := c\<rparr>"
  have w: "went adb 0 [] h ?h" using c by (intro went_clk) simp_all
  have "tells_at (length (issued ?h)) ?h adb [''devices'', ''-l''] D out" "\<forall>t. lag (clk ?h) t \<le> J"
    using assms(2,4) tells_went [OF w] c by simp_all
  from run_adb_answers [OF this(1) assms(3) this(2)] obtain h' where r: "run_adb adb [''devices'', ''-l''] ?h = Some (h', Inr (0, out, []))"
    "went adb (D + 10 + J) [[''devices'', ''-l'']] ?h h'" by blast
  have "wait_for_guid_with_cancel adb guid ROUND_TIMEOUT cancel signals h = Some (h', Inr s)"
    unfolding wait_for_guid_with_cancel_def wait_guid_loop.simps [of adb guid "now (clk h)" ROUND_TIMEOUT cancel signals h]
    using c r(1) assms(5,6) by (simp add: elapsed_def ROUND_TIMEOUT_def)
  with went_trans [OF w r(2)] show ?thesis by auto
qed

lemma run_loop_answers:
  assumes "exit_at q = Some (e, Some 0)" "wait_err q = None" "e \<le> started + D" "D < timeout" "\<forall>t. lag c t \<le> J"
  shows "\<exists>c'. run_loop started timeout command c q = Some (c', q\<lparr>reaped := True\<rparr>, Inr (Some 0)) \<and> lag c' = lag c \<and> now c \<le> now c' \<and>
    e \<le> now c' \<and> now c' \<le> max (now c) (e + 10 + J)"
  using assms
proof (induction "e - now c" arbitrary: c rule: less_induct)
  case less
  note unf = run_loop.simps [of started timeout command c q]
  show ?case
  proof (cases "e \<le> now c")
    case True
    with less.prems show ?thesis by (simp add: unf os_try_wait_def)
  next
    case False
    then have early: "\<not> timeout \<le> elapsed started c" using less.prems(3,4) by (simp add: elapsed_def)
    have "\<exists>c'. run_loop started timeout command (os_sleep 10 c) q = Some (c', q\<lparr>reaped := True\<rparr>, Inr (Some 0)) \<and> lag c' = lag (os_sleep 10 c) \<and>
        now (os_sleep 10 c) \<le> now c' \<and> e \<le> now c' \<and> now c' \<le> max (now (os_sleep 10 c)) (e + 10 + J)"
      by (rule less.hyps) (use False less.prems in simp_all)
    moreover have "now (os_sleep 10 c) \<le> now c + 10 + J" using less.prems(5) by simp
    ultimately show ?thesis using False less.prems(1,2) early by (auto simp: unf os_try_wait_def)
  qed
qed

lemma devices_answers:
  assumes "tells_at (length (issued h)) h adb [''devices'', ''-l''] D out" "D < COMMAND_TIMEOUT" "\<forall>t. lag (clk h) t \<le> J"
    "parse_devices out = Inr ds"
  shows "\<exists>h'. devices adb h = Some (h', Inr ds) \<and> went adb (D + 10 + J) [[''devices'', ''-l'']] h h'"
proof -
  obtain p d where p: "launch h (length (issued h)) adb [] [''devices'', ''-l''] = Inr p" "exit_at p = Some (d, Some 0)" "d \<le> D"
    "wait_err p = None" "pipe_eof p = Some 0" "out_chunks p = [Inr out]" "err_chunks p = []" "ascii out" "length out \<le> OUTPUT_LIMIT"
    using assms(1) by (auto simp: tells_at_def answers_def WL_OUTPUT_LIMIT_def OUTPUT_LIMIT_def)
  let ?h = "h\<lparr>issued := issued h @ [(adb, [], [''devices'', ''-l''])]\<rparr>" and ?q = "p\<lparr>exit_at := Some (now (clk h) + d, Some 0)\<rparr>"
  have s: "os_spawn adb [''devices'', ''-l''] h = (?h, Inr ?q)" using p by (simp add: os_spawn_env_def)
  obtain c where c: "run_loop (now (clk h)) COMMAND_TIMEOUT DevicesLong (clk h) ?q = Some (c, ?q\<lparr>reaped := True\<rparr>, Inr (Some 0))"
    "lag c = lag (clk h)" "now (clk h) \<le> now c" "now (clk h) + d \<le> now c" "now c \<le> max (now (clk h)) (now (clk h) + d + 10 + J)"
    using run_loop_answers [of ?q "now (clk h) + d" "now (clk h)" D COMMAND_TIMEOUT "clk h" J DevicesLong] p assms(2,3) by auto
  have j: "os_join_reader c (?q\<lparr>reaped := True\<rparr>) = Some c" using p c(4) by (simp add: os_join_reader_def max_def)
  have cap: "join_capture (read_limited (out_chunks p) OUTPUT_LIMIT) ''stdout'' = Inr (out, False)"
    "join_capture (read_limited (err_chunks p) OUTPUT_LIMIT) ''stderr'' = Inr ([], False)"
    using p by (simp_all add: join_capture_def read_limited_def Let_def)
  have "system_run (system_runner_new adb) h DevicesLong =
      Some (?h\<lparr>clk := c\<rparr>, Inr \<lparr>co_status = 0, co_stdout = out, co_stderr = []\<rparr>)"
    using s c(1) j cap p by (simp add: system_run_def system_runner_new_def join_pipe_def code_or_def from_utf8_lossy_ascii)
  then have "devices adb h = Some (?h\<lparr>clk := c\<rparr>, Inr ds)" using assms(4) by (simp add: devices_def)
  moreover have "went adb (D + 10 + J) [[''devices'', ''-l'']] h (?h\<lparr>clk := c\<rparr>)" using c p(3) by (simp add: went_def)
  ultimately show ?thesis by blast
qed

lemma identities_answer:
  assumes "\<forall>d \<in> set ds. \<forall>i. \<exists>out. tells_at i h adb [''-s'', dev_serial d, ''shell'', ''getprop'', ''ro.serialno''] D out"
    "D < WL_COMMAND_TIMEOUT" "\<forall>t. lag (clk h) t \<le> J"
  shows "\<exists>h' rs T argvs. read_identities adb ds h = Some (h', rs) \<and> went adb T argvs h h' \<and> pair_calls argvs = []"
  using assms
proof (induction ds arbitrary: h)
  case Nil
  have "went adb 0 [] h h" by (simp add: went_def)
  then show ?case by (metis read_identities.simps(1) pair_calls_simps(1))
next
  case (Cons d ds)
  let ?argv = "[''-s'', dev_serial d, ''shell'', ''getprop'', ''ro.serialno'']"
  have "\<exists>out. tells_at (length (issued h)) h adb ?argv D out" using Cons.prems(1) by simp
  then obtain out where "tells_at (length (issued h)) h adb ?argv D out" by (rule exE)
  from run_adb_answers [OF this Cons.prems(2,3)] obtain h1 where h1: "run_adb adb ?argv h = Some (h1, Inr (0, out, []))"
    "went adb (D + 10 + J) [?argv] h h1" by blast
  have "\<forall>d \<in> set ds. \<forall>i. \<exists>out. tells_at i h1 adb [''-s'', dev_serial d, ''shell'', ''getprop'', ''ro.serialno''] D out"
    "\<forall>t. lag (clk h1) t \<le> J"
    using Cons.prems(1,3) tells_went [OF h1(2)] went_time [OF h1(2)] by auto
  from Cons.IH [OF this(1) Cons.prems(2) this(2)] obtain h2 rs T cs where h2: "read_identities adb ds h1 = Some (h2, rs)"
    "went adb T cs h1 h2" "pair_calls cs = []" by blast
  have "\<exists>x. read_identities adb (d # ds) h = Some (h2, x)"
    using h1(1) h2(1) by (simp add: read_identity_or_unknown_def read_ro_serialno_def)
  moreover have "pair_calls ([?argv] @ cs) = []" using h2(3) by (simp add: pair_calls_def)
  ultimately show ?case using went_trans [OF h1(2) h2(2)] by blast
qed

section \<open>The command\<close>

text \<open>
  An \<open>adb\<close> that is recent and answers within \<open>D\<close>, sees the phone from the \<open>k\<close>-th command on, pairs it
  within \<open>E\<close>, and lists it under the serial \<open>s\<close>.
\<close>

definition working_adb :: "host \<Rightarrow> string \<Rightarrow> nat \<Rightarrow> nat \<Rightarrow> string \<Rightarrow> string \<Rightarrow> nat \<Rightarrow> string \<Rightarrow> string \<Rightarrow> bool" where
  "working_adb h adb D E name ep k guid s \<longleftrightarrow>
     (\<exists>out v. require_supported_adb out = Inr v \<and> (\<forall>i. tells_at i h adb [''version''] D out)) \<and>
     (\<exists>out. \<forall>i. tells_at i h adb [''mdns'', ''check''] D out) \<and>
     phone_listed h adb D name ep k \<and>
     (\<exists>out. find_guid out = Some guid \<and> (\<forall>i. tells_at i h adb [''pair'', ep] E out)) \<and>
     (\<exists>out ds. parse_devices out = Inr ds \<and> device_for_guid guid ds = Some s \<and> (\<forall>i. tells_at i h adb [''devices'', ''-l''] D out) \<and>
        (\<forall>d \<in> set ds. \<forall>i. \<exists>out. tells_at i h adb [''-s'', dev_serial d, ''shell'', ''getprop'', ''ro.serialno''] D out))"

lemma working_went: "went adb T a h h' \<Longrightarrow> working_adb h' adb D E name ep k guid s = working_adb h adb D E name ep k guid s"
  by (simp add: working_adb_def tells_went phone_listed_went)

lemma poll_cancel_never:
  assumes "unbothered cancel signals"
  obtains h' where "poll_cancel cancel h = (h', False)" "went adb 0 [] h h'"
proof -
  have "poll_cancel cancel h = (h\<lparr>clk := (clk h)\<lparr>polls := Suc (polls (clk h))\<rparr>\<rparr>, False)"
    using assms by (simp add: poll_cancel_def poll_flag_def unbothered_def)
  moreover have "went adb 0 [] h (h\<lparr>clk := (clk h)\<lparr>polls := Suc (polls (clk h))\<rparr>\<rparr>)" by (rule went_clk) simp_all
  ultimately show thesis by (rule that)
qed

lemma check_answers:
  assumes "working_adb h adb D E name ep k guid s" "D < WL_COMMAND_TIMEOUT" "\<forall>t. lag (clk h) t \<le> J"
  shows "\<exists>h' a T. check_adb adb h = Some (h', Inr a) \<and> went adb T [[''version''], [''mdns'', ''check'']] h h'"
proof -
  obtain out v where o: "require_supported_adb out = Inr v" "\<forall>i. tells_at i h adb [''version''] D out"
    using assms(1) unfolding working_adb_def by blast
  obtain out2 where o2: "\<forall>i. tells_at i h adb [''mdns'', ''check''] D out2" using assms(1) unfolding working_adb_def by blast
  from run_adb_answers [OF o(2) [rule_format] assms(2,3)] obtain h1 where h1: "run_adb adb [''version''] h = Some (h1, Inr (0, out, []))"
    "went adb (D + 10 + J) [[''version'']] h h1" by blast
  have "tells_at (length (issued h1)) h1 adb [''mdns'', ''check''] D out2" "\<forall>t. lag (clk h1) t \<le> J"
    using o2 assms(3) tells_went [OF h1(2)] went_time [OF h1(2)] by simp_all
  from run_adb_answers [OF this(1) assms(2) this(2)] obtain h2 where h2: "run_adb adb [''mdns'', ''check''] h1 = Some (h2, Inr (0, out2, []))"
    "went adb (D + 10 + J) [[''mdns'', ''check'']] h1 h2" by blast
  have "\<exists>a. check_adb adb h = Some (h2, Inr a)" using h1(1) h2(1) o(1) by (simp add: check_adb_def)
  then show ?thesis using went_trans [OF h1(2) h2(2), unfolded append.simps] by (elim exE) (intro exI conjI)
qed

lemma after_round_answers:
  assumes "working_adb (pe_host e) adb D E name ep k guid s" "unbothered cancel signals" "D < COMMAND_TIMEOUT"
    "\<forall>t. lag (clk (pe_host e)) t \<le> J"
  shows "\<exists>h' n T argvs. after_round adb cancel signals guid reason e = Some (e\<lparr>pe_host := h', pe_answer := Inr (s, n, reason)\<rparr>) \<and>
    went adb T argvs (pe_host e) h' \<and> pair_calls argvs = []"
proof -
  have D: "D < WL_COMMAND_TIMEOUT" using assms(3) by (simp add: COMMAND_TIMEOUT_def WL_COMMAND_TIMEOUT_def)
  obtain out ds where o: "parse_devices out = Inr ds" "device_for_guid guid ds = Some s"
    "\<forall>i. tells_at i (pe_host e) adb [''devices'', ''-l''] D out"
    "\<forall>d \<in> set ds. \<forall>i. \<exists>out. tells_at i (pe_host e) adb [''-s'', dev_serial d, ''shell'', ''getprop'', ''ro.serialno''] D out"
    using assms(1) unfolding working_adb_def by blast
  obtain h1 where h1: "poll_cancel cancel (pe_host e) = (h1, False)" "went adb 0 [] (pe_host e) h1" by (rule poll_cancel_never [OF assms(2)])
  have t1: "tells_at (length (issued h1)) h1 adb [''devices'', ''-l''] D out" "\<forall>t. lag (clk h1) t \<le> J"
    using o(3) assms(4) tells_went [OF h1(2)] went_time [OF h1(2)] by simp_all
  from wait_guid_answers [OF assms(2) t1(1) D t1(2) o(1,2)] obtain h2 where
    h2: "wait_for_guid_with_cancel adb guid ROUND_TIMEOUT cancel signals h1 = Some (h2, Inr s)"
      "went adb (D + 10 + J) [[''devices'', ''-l'']] h1 h2" by blast
  have b: "bring_up adb guid cancel signals h1 = Some (h2, Inr s)" using h2(1) by (simp add: bring_up_def Let_def)
  obtain h3 where h3: "poll_cancel cancel h2 = (h3, False)" "went adb 0 [] h2 h3" by (rule poll_cancel_never [OF assms(2)])
  note g3 = went_trans [OF went_trans [OF h1(2) h2(2)] h3(2)]
  have t3: "tells_at (length (issued h3)) h3 adb [''devices'', ''-l''] D out" "\<forall>t. lag (clk h3) t \<le> J"
    using o(3) assms(4) tells_went [OF g3] went_time [OF g3] by simp_all
  from devices_answers [OF t3(1) assms(3) t3(2) o(1)] obtain h4 where h4: "devices adb h3 = Some (h4, Inr ds)"
    "went adb (D + 10 + J) [[''devices'', ''-l'']] h3 h4" by blast
  note g4 = went_trans [OF g3 h4(2)]
  have t4: "\<forall>d \<in> set ds. \<forall>i. \<exists>out. tells_at i h4 adb [''-s'', dev_serial d, ''shell'', ''getprop'', ''ro.serialno''] D out"
    "\<forall>t. lag (clk h4) t \<le> J"
    using o(4) assms(4) tells_went [OF g4] went_time [OF g4] by simp_all
  from identities_answer [OF t4(1) D t4(2)] obtain h5 rs T cs where h5: "read_identities adb ds h4 = Some (h5, rs)" "went adb T cs h4 h5"
    "pair_calls cs = []" by blast
  obtain n where "count_visible adb h3 = Some (h5, Inr n)" using h4(1) h5(1) by (simp add: count_visible_def identity_pairs_def)
  then have "after_round adb cancel signals guid reason e = Some (e\<lparr>pe_host := h5, pe_answer := Inr (s, n, reason)\<rparr>)"
    using h1(1) b h3(1) by (simp add: after_round_def)
  moreover have "pair_calls ((([] @ [[''devices'', ''-l'']]) @ []) @ [[''devices'', ''-l'']] @ cs) = []" using h5(3) by (simp add: pair_calls_def)
  ultimately show ?thesis using went_trans [OF g4 h5(2)] by (metis append.assoc)
qed

end
