(* ===== verification/FakeAdb.thy ===== *)
theory FakeAdb
  imports PairingSuccess FakeProcess
begin

text \<open>
  The stand-in for \<open>scrcpy\<close> and \<open>adb\<close> that the integration tests of \<open>quadcontrol-android\<close> run
  (\<open>bin/scrcpy-test-helper.rs\<close>): one process per call, ruled by environment variables and, in two modes, by
  files. In the mode \<open>pair-success\<close> it is an \<open>adb\<close> with which a phone gets paired.
\<close>

section \<open>What a process sees\<close>

text \<open>
  \<open>fk_files\<close> are the files as the process reads them, by the number of its looks at a file before;
  \<open>fk_writable\<close> are the paths that can be written; \<open>fk_took\<close> is the time until it has read and printed all,
  \<open>fk_panic\<close> what a panic prints.
\<close>

record fake_machine =
  fk_files :: "nat \<Rightarrow> string \<Rightarrow> string option"
  fk_writable :: "string \<Rightarrow> bool"
  fk_took :: nat
  fk_panic :: string

type_synonym fake_run = "proc \<times> file_op list"

definition env_or_empty :: "env \<Rightarrow> string \<Rightarrow> string" where
  "env_or_empty env name = (case map_of env name of Some v \<Rightarrow> v | None \<Rightarrow> [])"

text \<open>\<open>str::parse::<i32>\<close>, and the status that an exit code leaves.\<close>

definition parse_i32 :: "string \<Rightarrow> int option" where
  "parse_i32 s =
     (case s of
        CHR ''-'' # ds \<Rightarrow>
          if starts_with ''+'' ds then None else map_option (\<lambda>n. - int n) (parse_uint 2147483648 ds)
      | _ \<Rightarrow> map_option int (parse_uint 2147483647 s))"

definition exit_status :: "int \<Rightarrow> int" where
  "exit_status n = n mod 256"

definition says :: "fake_machine \<Rightarrow> nat \<Rightarrow> string list \<Rightarrow> fake_run" where
  "says m i ls = (ended_proc i (fk_took m) 0 (concat (map (\<lambda>l. l @ LF) ls)) [], [])"

section \<open>The fake adb\<close>

definition COMPETITOR :: string where "COMPETITOR = ''127.0.0.1:41002''"

text \<open>The services that vanish: the first call lists one, the second none, the later ones fail.\<close>

definition mdns_lost :: "fake_machine \<Rightarrow> nat \<Rightarrow> env \<Rightarrow> fake_run" where
  "mdns_lost m i env =
     (let counter = env_or_empty env ''QUADCONTROL_FAKE_COUNTER'';
          n = (case Option.bind (fk_files m 0 counter) (\<lambda>v. parse_uint u32_max (str_trim v)) of Some n \<Rightarrow> n | None \<Rightarrow> 0);
          files = (if fk_writable m counter then [WriteTo counter (show_nat ((n + 1) mod 2 ^ 32))] else []);
          name = env_or_empty env ''QUADCONTROL_FAKE_SERVICE'' in
      if n = 0
      then (fst (says m i [''List of discovered mdns services'', name @ ''._adb-tls-pairing._tcp. 127.0.0.1:41002'']), files)
      else if n = 1 then (fst (says m i [''List of discovered mdns services'']), files)
      else (ended_proc i (fk_took m) 1 [] (''mdns query failed'' @ LF), files))"

definition mdns_listed :: "fake_machine \<Rightarrow> nat \<Rightarrow> env \<Rightarrow> string \<Rightarrow> fake_run" where
  "mdns_listed m i env mode =
     (let name = env_or_empty env ''QUADCONTROL_FAKE_SERVICE'' in
      says m i ([''List of discovered mdns services''] @
        (if mode = ''pair-competition'' \<or> mode = ''pair-success'' then [name @ ''._adb-tls-pairing._tcp. 127.0.0.1:37145''] else []) @
        (if mode = ''pair-competition'' then [name @ ''._adb-tls-pairing._tcp. 127.0.0.1:41002''] else []) @
        [''adb-FAKEGUID-0001._adb-tls-connect._tcp. 127.0.0.1:5555'']))"

text \<open>The winner of a competition waits until the loser is in the log, 500 looks at most.\<close>

fun looks_for_loser :: "fake_machine \<Rightarrow> string \<Rightarrow> nat \<Rightarrow> nat \<Rightarrow> nat" where
  "looks_for_loser m path n 0 = 0"
| "looks_for_loser m path n (Suc k) =
     (if str_contains COMPETITOR (case fk_files m n path of Some s \<Rightarrow> s | None \<Rightarrow> []) then 0
      else 10 + looks_for_loser m path (Suc n) k)"

definition fake_pair :: "fake_machine \<Rightarrow> nat \<Rightarrow> env \<Rightarrow> string \<Rightarrow> string list \<Rightarrow> fake_run" where
  "fake_pair m i env mode args =
     (let log = map_of env ''QUADCONTROL_FAKE_PAIR_LOG'';
          endpoint = (case args of _ # e # _ \<Rightarrow> e | _ \<Rightarrow> []);
          files = (case log of None \<Rightarrow> [] | Some path \<Rightarrow> [AppendTo path (endpoint @ '' '' @ show_nat i @ LF)]) in
      if endpoint = COMPETITOR
      then (if mode = ''pair-service-lost''
            then (ended_proc i (fk_took m + 1500) 1 [] (''pair failed after service disappeared'' @ LF),
              files @ (case map_of env ''QUADCONTROL_FAKE_SURVIVED'' of None \<Rightarrow> [] | Some path \<Rightarrow> [WriteLater 1500 path ''survived'']))
            else (running_proc i, files))
      else (ended_proc i (fk_took m + (case log of
              Some path \<Rightarrow> if mode = ''pair-competition'' then looks_for_loser m path 0 500 else 0
            | None \<Rightarrow> 0)) 0 (''Successfully paired to 127.0.0.1:37145 [guid=adb-FAKEGUID-0001]'' @ LF) [], files))"

definition fake_adb_pairing :: "fake_machine \<Rightarrow> nat \<Rightarrow> env \<Rightarrow> string \<Rightarrow> string list \<Rightarrow> fake_run option" where
  "fake_adb_pairing m i env mode args =
     (let sub = (case args of a # _ \<Rightarrow> a | [] \<Rightarrow> []); second = (case args of _ # b # _ \<Rightarrow> Some b | _ \<Rightarrow> None) in
      if sub = ''version'' then Some (says m i [''Android Debug Bridge version 1.0.41'', ''Version 37.0.1-13206524''])
      else if sub = ''mdns'' \<and> second = Some ''check'' then Some (says m i [''mdns daemon version [openscreen discovery]''])
      else if sub = ''mdns'' \<and> mode = ''pair-service-lost'' then Some (mdns_lost m i env)
      else if sub = ''mdns'' then Some (mdns_listed m i env mode)
      else if sub = ''pair'' then Some (fake_pair m i env mode args)
      else if sub = ''devices'' then Some (says m i [''List of devices attached'', ''adb-FAKEGUID-0001 device product:test''])
      else if sub = ''connect'' then Some (says m i [''connected to 127.0.0.1:5555''])
      else if sub = ''-s'' then Some (says m i [''REDACTEDSERIAL''])
      else None)"

section \<open>The fake scrcpy\<close>

definition fake_version :: "fake_machine \<Rightarrow> nat \<Rightarrow> string \<Rightarrow> fake_run" where
  "fake_version m i mode =
     (if mode = ''prerelease'' then says m i [''scrcpy 4.1-rc1'']
      else if mode = ''invalid'' then says m i [''not a version'']
      else if mode = ''old'' then says m i [''scrcpy 3.3'']
      else if mode = ''version-fail'' then (ended_proc i (fk_took m) 9 [] (''version command failed'' @ LF), [])
      else says m i [''scrcpy 4.1'', ''revision: test''])"

text \<open>What a session is: it may flood its standard error, leave its process id, run on, or exit with a code.\<close>

definition fake_session :: "fake_machine \<Rightarrow> nat \<Rightarrow> env \<Rightarrow> string \<Rightarrow> fake_run" where
  "fake_session m i env mode =
     (let flood = (if mode = ''stderr-flood'' then concat (replicate 200000 (''stderr-flood'' @ LF)) else []);
          path = map_of env ''QUADCONTROL_FAKE_PID'';
          files = (case path of Some p \<Rightarrow> if fk_writable m p then [WriteTo p (show_nat i)] else [] | None \<Rightarrow> []) in
      if (case path of Some p \<Rightarrow> \<not> fk_writable m p | None \<Rightarrow> False)
      then (ended_proc i (fk_took m) 101 [] (flood @ fk_panic m), [])
      else if mode = ''wait'' then ((running_proc i)\<lparr>err_chunks := written flood\<rparr>, files)
      else (ended_proc i (fk_took m)
              (case Option.bind (strip_prefix ''exit-'' mode) parse_i32 of Some n \<Rightarrow> exit_status n | None \<Rightarrow> 0) [] flood, files))"

definition fake_scrcpy :: "fake_machine \<Rightarrow> nat \<Rightarrow> string \<Rightarrow> env \<Rightarrow> string list \<Rightarrow> fake_run" where
  "fake_scrcpy m i program env args =
     (let mode = env_or_empty env ''QUADCONTROL_FAKE_MODE'' in
      case (if starts_with ''pair-'' mode then fake_adb_pairing m i env mode args else None) of
        Some r \<Rightarrow> r
      | None \<Rightarrow>
          if ''--version'' \<in> set (program # args) then fake_version m i mode
          else if mode = ''adb-ready'' then says m i [''List of devices attached'', ''REDACTEDSERIAL device product:test'']
          else if mode = ''adb-unauthorized'' then says m i [''List of devices attached'', ''REDACTEDSERIAL unauthorized product:test'']
          else fake_session m i env mode)"

section \<open>A phone gets paired\<close>

definition fake_adb_launch :: "fake_machine \<Rightarrow> env \<Rightarrow> nat \<Rightarrow> string \<Rightarrow> env \<Rightarrow> string list \<Rightarrow> io_error + proc" where
  "fake_adb_launch m inherited i path env args = Inr (fst (fake_scrcpy m i path (rev env @ inherited) args))"

definition demo_machine :: fake_machine where
  "demo_machine = \<lparr>fk_files = (\<lambda>_ _. None), fk_writable = (\<lambda>_. True), fk_took = 30, fk_panic = []\<rparr>"

definition demo_env :: env where
  "demo_env = [(''QUADCONTROL_FAKE_MODE'', ''pair-success''), (''QUADCONTROL_FAKE_SERVICE'', ''studio-x'')]"

definition demo_host :: host where
  "demo_host = \<lparr>clk = clock0, issued = [], launch = fake_adb_launch demo_machine demo_env\<rparr>"

definition demo_secret :: PairingSecret where
  "demo_secret = \<lparr>service_name = ''studio-x'', password = ''pw'', payload = ''p''\<rparr>"

lemma demo_tells:
  assumes "fake_adb_pairing demo_machine i demo_env ''pair-success'' args = Some (ended_proc i 30 0 out [], files)"
    "out \<noteq> []" "ascii out" "length out \<le> WL_OUTPUT_LIMIT"
  shows "tells_at i demo_host ''adb'' args 30 out"
proof -
  have "env_or_empty demo_env ''QUADCONTROL_FAKE_MODE'' = ''pair-success''" by (simp add: env_or_empty_def demo_env_def)
  then have "launch demo_host i ''adb'' [] args = Inr (ended_proc i 30 0 out [])"
    using assms(1) by (simp add: demo_host_def fake_adb_launch_def fake_scrcpy_def)
  then show ?thesis using assms(2-4) by (simp add: tells_at_def answers_def ended_proc_def running_proc_def written_def)
qed

lemmas demo_defs = fake_adb_pairing_def says_def mdns_listed_def fake_pair_def demo_machine_def demo_env_def env_or_empty_def
  COMPETITOR_def LF_def WL_OUTPUT_LIMIT_def ascii_def

lemma demo_version: "tells_at i demo_host ''adb'' [''version''] 30
    (''Android Debug Bridge version 1.0.41'' @ LF @ ''Version 37.0.1-13206524'' @ LF)"
  by (rule demo_tells [where files = "[]"]) (simp_all add: demo_defs)

lemma demo_check: "tells_at i demo_host ''adb'' [''mdns'', ''check''] 30 (''mdns daemon version [openscreen discovery]'' @ LF)"
  by (rule demo_tells [where files = "[]"]) (simp_all add: demo_defs)

lemma demo_services: "tells_at i demo_host ''adb'' [''mdns'', ''services''] 30
    (''List of discovered mdns services'' @ LF @ ''studio-x._adb-tls-pairing._tcp. 127.0.0.1:37145'' @ LF @
     ''adb-FAKEGUID-0001._adb-tls-connect._tcp. 127.0.0.1:5555'' @ LF)"
  by (rule demo_tells [where files = "[]"]) (simp_all add: demo_defs)

lemma demo_pair: "tells_at i demo_host ''adb'' [''pair'', ''127.0.0.1:37145''] 30
    (''Successfully paired to 127.0.0.1:37145 [guid=adb-FAKEGUID-0001]'' @ LF)"
  by (rule demo_tells [where files = "[]"]) (simp_all add: demo_defs)

lemma demo_devices: "tells_at i demo_host ''adb'' [''devices'', ''-l''] 30
    (''List of devices attached'' @ LF @ ''adb-FAKEGUID-0001 device product:test'' @ LF)"
  by (rule demo_tells [where files = "[]"]) (simp_all add: demo_defs)

lemma demo_serialno: "tells_at i demo_host ''adb'' [''-s'', s, ''shell'', ''getprop'', ''ro.serialno''] 30 (''REDACTEDSERIAL'' @ LF)"
  by (rule demo_tells [where files = "[]"]) (simp_all add: demo_defs)

text \<open>What \<open>pair-qr\<close> reads in these answers.\<close>

lemmas parse_uint_eval = parse_uint_def parse_digits_def digit_val_def is_ascii_digit_def u64_max_def u16_max_def

lemma demo_reads_version:
  "require_supported_adb (''Android Debug Bridge version 1.0.41'' @ LF @ ''Version 37.0.1-13206524'' @ LF) = Inr (37, 0, 1)"
proof -
  have l: "str_lines (''Android Debug Bridge version 1.0.41'' @ LF @ ''Version 37.0.1-13206524'' @ LF) =
      [''Android Debug Bridge version 1.0.41'', ''Version 37.0.1-13206524'']" by code_simp
  have w: "str_split_ws ''37.0.1-13206524'' = [''37.0.1-13206524'']" "str_split CHR ''-'' ''37.0.1-13206524'' = [''37.0.1'', ''13206524'']"
    "str_split CHR ''.'' ''37.0.1'' = [''37'', ''0'', ''1'']" by code_simp+
  have p: "parse_uint u64_max ''37'' = Some 37" "parse_uint u64_max ''0'' = Some 0" "parse_uint u64_max ''1'' = Some 1"
    by (simp_all add: parse_uint_eval)
  have "adb_version_of_line ''Android Debug Bridge version 1.0.41'' = None"
    by (simp add: adb_version_of_line_def strip_prefix_def)
  moreover have sp: "strip_prefix ''Version '' ''Version 37.0.1-13206524'' = Some ''37.0.1-13206524''" by (simp add: strip_prefix_def)
  have "adb_version_of_line ''Version 37.0.1-13206524'' = Some (37, 0, 1)"
    unfolding adb_version_of_line_def sp by (simp add: w p [simplified])
  ultimately have "parse_adb_version (''Android Debug Bridge version 1.0.41'' @ LF @ ''Version 37.0.1-13206524'' @ LF) = Some (37, 0, 1)"
    unfolding parse_adb_version_def l by simp
  then show ?thesis by (simp add: require_supported_adb_def version_less_def)
qed

lemma demo_reads_guid:
  "find_guid (''Successfully paired to 127.0.0.1:37145 [guid=adb-FAKEGUID-0001]'' @ LF) = Some ''adb-FAKEGUID-0001''"
  by code_simp

lemma demo_reads_devices:
  "case parse_devices (''List of devices attached'' @ LF @ ''adb-FAKEGUID-0001 device product:test'' @ LF) of
     Inl _ \<Rightarrow> False
   | Inr ds \<Rightarrow> device_for_guid ''adb-FAKEGUID-0001'' ds = Some ''adb-FAKEGUID-0001''"
  by code_simp

lemma demo_reads_services:
  "map endpoint_text (find_pairing_services (parse_mdns_services (''List of discovered mdns services'' @ LF @
     ''studio-x._adb-tls-pairing._tcp. 127.0.0.1:37145'' @ LF @ ''adb-FAKEGUID-0001._adb-tls-connect._tcp. 127.0.0.1:5555'' @ LF)) ''studio-x'') =
   [''127.0.0.1:37145'']"
proof -
  let ?a = "''studio-x._adb-tls-pairing._tcp. 127.0.0.1:37145''" and ?b = "''adb-FAKEGUID-0001._adb-tls-connect._tcp. 127.0.0.1:5555''"
  have l: "str_lines (''List of discovered mdns services'' @ LF @ ?a @ LF @ ?b @ LF) = [''List of discovered mdns services'', ?a, ?b]"
    by code_simp
  have w: "str_split_ws ''List of discovered mdns services'' = [''List'', ''of'', ''discovered'', ''mdns'', ''services'']"
    "str_split_ws ?a = [''studio-x._adb-tls-pairing._tcp.'', ''127.0.0.1:37145'']"
    "str_split_ws ?b = [''adb-FAKEGUID-0001._adb-tls-connect._tcp.'', ''127.0.0.1:5555'']" by code_simp+
  have q: "position is_adb_service [''studio-x._adb-tls-pairing._tcp.'', ''127.0.0.1:37145''] = None"
    "position is_adb_service [''adb-FAKEGUID-0001._adb-tls-connect._tcp.'', ''127.0.0.1:5555''] = None"
    "position (str_contains ''._adb-tls-'') [''studio-x._adb-tls-pairing._tcp.'', ''127.0.0.1:37145''] = Some 0"
    "position (str_contains ''._adb-tls-'') [''adb-FAKEGUID-0001._adb-tls-connect._tcp.'', ''127.0.0.1:5555''] = Some 0"
    "split_joined ''studio-x._adb-tls-pairing._tcp.'' = Some (''studio-x'', ''pairing._tcp.'')"
    "split_joined ''adb-FAKEGUID-0001._adb-tls-connect._tcp.'' = Some (''adb-FAKEGUID-0001'', ''connect._tcp.'')"
    "trim_end_matches CHR ''.'' ''pairing._tcp.'' = ''pairing._tcp''" "trim_end_matches CHR ''.'' ''connect._tcp.'' = ''connect._tcp''"
    "eq_ignore_ascii_case ''List'' ''List''" "\<not> eq_ignore_ascii_case ''studio-x._adb-tls-pairing._tcp.'' ''List''"
    "\<not> eq_ignore_ascii_case ''adb-FAKEGUID-0001._adb-tls-connect._tcp.'' ''List''"
    "rsplit_once CHR '':'' ''127.0.0.1:37145'' = Some (''127.0.0.1'', ''37145'')" "rsplit_once CHR '':'' ''127.0.0.1:5555'' = Some (''127.0.0.1'', ''5555'')"
    by code_simp+
  have p: "parse_uint u16_max ''37145'' = Some 37145" "parse_uint u16_max ''5555'' = Some 5555" by (simp_all add: parse_uint_eval)
  have e: "endpoint_of [''127.0.0.1:37145''] = Some (''127.0.0.1'', 37145)" "endpoint_of [''127.0.0.1:5555''] = Some (''127.0.0.1'', 5555)"
    using q(12,13) p by (simp_all add: endpoint_of_def split_endpoint_def)
  have s: "show_nat 37145 = ''37145''" by (simp add: show_nat.simps) code_simp
  have "parse_mdns_line ''List of discovered mdns services'' = None"
    using w(1) q(9) by (simp add: parse_mdns_line_def)
  moreover have "parse_mdns_line ?a = Some \<lparr>ms_instance = ''studio-x'', ms_service = ''_adb-tls-pairing._tcp'', ms_address = ''127.0.0.1'', ms_port = 37145\<rparr>"
    unfolding parse_mdns_line_def w using q e by simp
  moreover have "parse_mdns_line ?b = Some \<lparr>ms_instance = ''adb-FAKEGUID-0001'', ms_service = ''_adb-tls-connect._tcp'', ms_address = ''127.0.0.1'', ms_port = 5555\<rparr>"
    unfolding parse_mdns_line_def w using q e by simp
  ultimately show ?thesis
    unfolding parse_mdns_services_def l
    by (simp add: find_pairing_services_def endpoint_text_def map_filter_simps s)
qed

text \<open>
  C9. A phone that scans the code is paired. With an \<open>adb\<close> that answers in time, lists the service of
  the phone from the \<open>k\<close>-th command on (while the five minutes of the round last), pairs with it and
  then lists it, \<open>pair-qr\<close>, when nobody cancels, shows the code once and reports success with the
  serial of the phone; it has started exactly one pairing process, at the endpoint listed.
\<close>

theorem phone_gets_paired:
  assumes "working_adb h adb D E (service_name secret) ep k guid s" "unbothered cancel signals"
    and "render_qr enc (payload secret) = Inr qr" "D < COMMAND_TIMEOUT" "E < WL_COMMAND_TIMEOUT" "\<forall>t. lag (clk h) t \<le> J"
    and "Suc (k - (length (issued h) + 2)) * (D + 260 + 2 * J) + E \<le> ROUND_TIMEOUT"
  shows "\<exists>e n argvs. pair_qr_command_with_cancel enc adb secret cancel signals h = Some e \<and> pe_answer e = Inr (s, n, CSuccess) \<and>
    pe_shown e = [qr] \<and> issued (pe_host e) = issued h @ map (\<lambda>a. (adb, [], a)) argvs \<and> pair_calls argvs = [[''pair'', ep]]"
proof -
  have D: "D < WL_COMMAND_TIMEOUT" using assms(4) by (simp add: COMMAND_TIMEOUT_def WL_COMMAND_TIMEOUT_def)
  from check_answers [OF assms(1) D assms(6)] obtain h1 a R where h1: "check_adb adb h = Some (h1, Inr a)"
    "went adb R [[''version''], [''mdns'', ''check'']] h h1" by blast
  note w1 = went_time [OF h1(2)]
  have l1: "\<forall>t. lag (clk h1) t \<le> J" using assms(6) w1 by simp
  have k1: "working_adb h1 adb D E (service_name secret) ep k guid s" using assms(1) working_went [OF h1(2)] by simp
  then obtain out where o: "find_guid out = Some guid" "\<forall>i. tells_at i h1 adb [''pair'', ep] E out" unfolding working_adb_def by blast
  have pl: "phone_listed h1 adb D (service_name secret) ep k" using k1 by (simp add: working_adb_def)
  have "round_paired adb guid [[''pair'', ep]] h1 (run_pairing_round_with_cancel adb secret (round_new 1) [] cancel signals h1)"
    unfolding run_pairing_round_with_cancel_def
    by (rule loop_seeks [OF assms(2) _ pl D l1 o(2) assms(5) o(1)])
      (use assms(7) w1 in \<open>simp_all add: seeking_def round_new_def\<close>)
  then obtain h2 v T cs q where h2: "run_pairing_round_with_cancel adb secret (round_new 1) [] cancel signals h1 =
      Some (h2, v, EvPairSucceeded guid, Inr guid)" "went adb T cs h1 h2" "pair_calls cs = [[''pair'', ep]]" "rv_pairs v = [q]"
    "collected (clk h2) q" "\<not> rd_closed (rv_round v)"
    unfolding round_paired_def by blast
  from close_paired [OF h2(5,6), of secret qr guid] obtain x where x: "round_close (clk h2) (rv_round v) [q] secret qr (EvPairSucceeded guid) = Some x"
    "ce_clock x = clk h2" "ce_result x = Inr ()" "ce_reason x = CSuccess" by blast
  let ?e = "\<lparr>pe_host = h2\<lparr>clk := ce_clock x\<rparr>, pe_shown = [qr], pe_secret = ce_secret x, pe_qr = ce_qr x,
      pe_round = ce_round x, pe_pairs = ce_pairs x, pe_answer = Inl WCancelled\<rparr>"
  note g2 = went_trans [OF h1(2) h2(2)]
  have ph: "pe_host ?e = h2" using x(2) by simp
  have "working_adb (pe_host ?e) adb D E (service_name secret) ep k guid s" "\<forall>t. lag (clk (pe_host ?e)) t \<le> J"
    unfolding ph using assms(1,6) working_went [OF g2] went_time [OF g2] by simp_all
  from after_round_answers [OF this(1) assms(2,4) this(2), of CSuccess] obtain h3 n S ds where
    h3: "after_round adb cancel signals guid CSuccess ?e = Some (?e\<lparr>pe_host := h3, pe_answer := Inr (s, n, CSuccess)\<rparr>)"
      "went adb S ds h2 h3" "pair_calls ds = []" unfolding ph by blast
  have "pair_qr_command_with_cancel enc adb secret cancel signals h = Some (?e\<lparr>pe_host := h3, pe_answer := Inr (s, n, CSuccess)\<rparr>)"
    using h1(1) assms(3) h2(1,4) x h3(1) by (simp add: pair_qr_command_with_cancel_def)
  moreover have "issued h3 = issued h @ map (\<lambda>a. (adb, [], a)) (([[''version''], [''mdns'', ''check'']] @ cs) @ ds)"
    using went_trans [OF g2 h3(2)] unfolding went_def by blast
  moreover have "pair_calls (([[''version''], [''mdns'', ''check'']] @ cs) @ ds) = [[''pair'', ep]]"
    using h2(3) h3(3) by (simp add: pair_calls_def)
  ultimately show ?thesis
    by (intro exI [of _ "?e\<lparr>pe_host := h3, pe_answer := Inr (s, n, CSuccess)\<rparr>"] exI [of _ n] exI [of _ "([[''version''], [''mdns'', ''check'']] @ cs) @ ds"] conjI)
      (simp_all only: pair_end.select_convs pair_end.update_convs)
qed

theorem phone_gets_paired_witness:
  "\<exists>e n argvs. pair_qr_command_with_cancel (\<lambda>_. Inr (1, [True])) ''adb'' demo_secret (\<lambda>_. False) (\<lambda>_. 0) demo_host = Some e \<and>
     pe_answer e = Inr (''adb-FAKEGUID-0001'', n, CSuccess) \<and> issued (pe_host e) = map (\<lambda>a. (''adb'', [], a)) argvs \<and>
     pair_calls argvs = [[''pair'', ''127.0.0.1:37145'']]"
proof -
  let ?g = "''adb-FAKEGUID-0001''"
  obtain ds where ds: "parse_devices (''List of devices attached'' @ LF @ ''adb-FAKEGUID-0001 device product:test'' @ LF) = Inr ds"
    "device_for_guid ?g ds = Some ?g"
    using demo_reads_devices by (auto split: sum.splits)
  have l: "phone_listed demo_host ''adb'' 30 (service_name demo_secret) ''127.0.0.1:37145'' 0"
    unfolding phone_listed_def
  proof
    fix i :: nat
    have n: "service_name demo_secret = ''studio-x''" by (simp add: demo_secret_def)
    show "\<exists>out. tells_at i demo_host ''adb'' [''mdns'', ''services''] 30 out \<and>
        map endpoint_text (find_pairing_services (parse_mdns_services out) (service_name demo_secret)) = (if i < 0 then [] else [''127.0.0.1:37145''])"
      unfolding n if_not_P [OF not_less0] by (intro exI conjI, rule demo_services, rule demo_reads_services)
  qed
  have w: "working_adb demo_host ''adb'' 30 30 (service_name demo_secret) ''127.0.0.1:37145'' 0 ?g ?g"
    unfolding working_adb_def
    by (intro conjI exI allI ballI, rule demo_reads_version, rule demo_version, rule demo_check, rule l, rule demo_reads_guid,
        rule demo_pair, rule ds(1), rule ds(2), rule demo_devices, rule demo_serialno)
  have u: "unbothered (\<lambda>_. False) (\<lambda>_. 0)" by (simp add: unbothered_def signal_requested_def)
  have q: "\<exists>qr. render_qr (\<lambda>_. Inr (1, [True])) (payload demo_secret) = Inr qr"
    by (simp add: render_qr_def qr_matrix_def)
  then obtain qr where qr: "render_qr (\<lambda>_. Inr (1, [True])) (payload demo_secret) = Inr qr" by blast
  have "30 < COMMAND_TIMEOUT" "30 < WL_COMMAND_TIMEOUT" "\<forall>t. lag (clk demo_host) t \<le> 0" "issued demo_host = []"
    "Suc (0 - (length (issued demo_host) + 2)) * (30 + 260 + 2 * 0) + 30 \<le> ROUND_TIMEOUT"
    by (simp_all add: COMMAND_TIMEOUT_def WL_COMMAND_TIMEOUT_def ROUND_TIMEOUT_def demo_host_def clock0_def)
  from phone_gets_paired [OF w u qr this(1-3,5)] this(4) show ?thesis by auto
qed

end
