(* ===== verification/GuiPairing.thy ===== *)
theory GuiPairing
  imports PairingFlow
begin

text \<open>
  The desktop program (\<open>quadcontrol-gui\<close>, \<open>lib.rs\<close>): pairing. One state machine serves pairing by
  a QR code and by hand: the state and the cancel token of the round in flight, the commands of the
  web view, and the workers that run a round on another thread. A token is named by the generation
  of the start that made it; the clones the store and the worker hold are one token. The mutexes
  are held for one command at a time and nothing in these sections panics, so the error branches of
  \<open>lock\<close> are not modelled. Parsing an IP address is a parameter.
\<close>

section \<open>The state\<close>

datatype PairingState =
    PairIdle
  | PairWaiting nat nat
  | PairSucceeded nat string
  | PairFailed nat string
  | PairCancelling nat

record PairingStore =
  ps_state :: PairingState
  ps_cancel :: "nat option"
  ps_next_generation :: nat

record PairingStartDto =
  sd_generation :: nat
  sd_side :: nat
  sd_modules :: "bool list"
  sd_total_secs :: nat

record PairingStatusDto =
  pd_generation :: nat
  pd_state :: string
  pd_remaining_secs :: "nat option"
  pd_device_name :: "string option"
  pd_error_code :: "string option"

fun pairing_generation :: "PairingState \<Rightarrow> nat" where
  "pairing_generation PairIdle = 0"
| "pairing_generation (PairWaiting generation _) = generation"
| "pairing_generation (PairSucceeded generation _) = generation"
| "pairing_generation (PairFailed generation _) = generation"
| "pairing_generation (PairCancelling generation) = generation"

fun pairing_is_active :: "PairingState \<Rightarrow> bool" where
  "pairing_is_active (PairWaiting _ _) = True"
| "pairing_is_active (PairCancelling _) = True"
| "pairing_is_active _ = False"

definition status_dto :: "nat \<Rightarrow> string \<Rightarrow> nat option \<Rightarrow> string option \<Rightarrow> string option \<Rightarrow> PairingStatusDto" where
  "status_dto generation state remaining name why =
     \<lparr>pd_generation = generation, pd_state = state, pd_remaining_secs = remaining, pd_device_name = name,
      pd_error_code = why\<rparr>"

fun pairing_status_from :: "nat \<Rightarrow> PairingState \<Rightarrow> PairingStatusDto" where
  "pairing_status_from t PairIdle = status_dto 0 ''idle'' None None None"
| "pairing_status_from t (PairWaiting generation started) =
     status_dto generation ''waiting'' (Some (ROUND_TIMEOUT div 1000 - (t - started) div 1000)) None None"
| "pairing_status_from t (PairSucceeded generation name) = status_dto generation ''succeeded'' None (Some name) None"
| "pairing_status_from t (PairFailed generation why) = status_dto generation ''failed'' None None (Some why)"
| "pairing_status_from t (PairCancelling generation) = status_dto generation ''cancelling'' None None None"

fun is_cancelling :: "PairingState \<Rightarrow> bool" where
  "is_cancelling (PairCancelling _) = True"
| "is_cancelling _ = False"

definition set_pairing_result :: "nat \<Rightarrow> string + string \<Rightarrow> PairingStore \<Rightarrow> PairingStore" where
  "set_pairing_result generation result s =
     (if pairing_generation (ps_state s) \<noteq> generation then s
      else if is_cancelling (ps_state s) then s\<lparr>ps_state := PairIdle, ps_cancel := None\<rparr>
      else s\<lparr>ps_state := (case result of Inr name \<Rightarrow> PairSucceeded generation name | Inl why \<Rightarrow> PairFailed generation why),
             ps_cancel := None\<rparr>)"

section \<open>The workers\<close>

fun pairing_error_code :: "WirelessError \<Rightarrow> string" where
  "pairing_error_code RoundTimedOut = ''pair_timed_out''"
| "pairing_error_code WTimedOut = ''pair_timed_out''"
| "pairing_error_code WCancelled = ''pair_cancelled''"
| "pairing_error_code _ = ''pair_failed''"

definition paired_device_name :: "string \<Rightarrow> string \<Rightarrow> host \<Rightarrow> (host \<times> string) option" where
  "paired_device_name adb serial h =
     (case devices adb h of
        None \<Rightarrow> None
      | Some (h, Inl _) \<Rightarrow> Some (h, ''Android'')
      | Some (h, Inr ds) \<Rightarrow>
          Some (h, case Option.bind (find (\<lambda>d. dev_serial d = serial) ds) dev_model of
                     Some name \<Rightarrow> name | None \<Rightarrow> ''Android''))"

text \<open>The jobs, on a machine where no signal handler is installed. \<open>None\<close>: \<open>adb\<close> hangs.\<close>

definition qr_worker ::
  "qr_encoder \<Rightarrow> string \<Rightarrow> PairingSecret \<Rightarrow> (nat \<Rightarrow> bool) \<Rightarrow> host \<Rightarrow> (host \<times> (string + string)) option" where
  "qr_worker enc adb secret cancel h =
     (case pair_qr_command_with_cancel enc adb secret cancel (\<lambda>_. 0) h of
        None \<Rightarrow> None
      | Some e \<Rightarrow>
          (case pe_answer e of
             Inl error \<Rightarrow> Some (pe_host e, Inl (pairing_error_code error))
           | Inr (serial, _, _) \<Rightarrow> map_option (\<lambda>(h, name). (h, Inr name)) (paired_device_name adb serial (pe_host e))))"

definition manual_endpoint :: "string \<Rightarrow> nat \<Rightarrow> string" where
  "manual_endpoint host port =
     (if CHR '':'' \<in> set host then ''['' @ host @ '']:'' @ show_nat port else host @ '':'' @ show_nat port)"

text \<open>The result is what the thread returns and what is left of the code.\<close>

definition manual_worker ::
  "string \<Rightarrow> string \<Rightarrow> nat \<Rightarrow> string \<Rightarrow> (nat \<Rightarrow> bool) \<Rightarrow> host \<Rightarrow> (host \<times> string \<times> (string + string)) option" where
  "manual_worker adb host port pin cancel h =
     (case wl_pair adb (manual_endpoint host port) pin h of
        None \<Rightarrow> None
      | Some (h, outcome) \<Rightarrow>
          (let pin = wipe_string pin in
           case outcome of
             Inl _ \<Rightarrow> Some (h, pin, Inl ''pair_failed'')
           | Inr guid \<Rightarrow>
               (case wait_for_guid_with_cancel adb guid ROUND_TIMEOUT cancel (\<lambda>_. 0) h of
                  None \<Rightarrow> None
                | Some (h, Inr serial) \<Rightarrow> map_option (\<lambda>(h, name). (h, pin, Inr name)) (paired_device_name adb serial h)
                | Some (h, Inl _) \<Rightarrow>
                    (case poll_cancel cancel h of
                       (h, cancelled) \<Rightarrow>
                         Some (h, pin, Inl (if cancelled then ''pair_cancelled'' else ''manual_pair_needs_connect_port''))))))"

datatype pair_job = QrJob PairingSecret | ManualJob string nat string

text \<open>What a job may report: what it returns on some machine, or that its thread panicked.\<close>

inductive job_result :: "pair_job \<Rightarrow> string + string \<Rightarrow> bool" where
  Qr: "qr_worker enc adb secret cancel h = Some (h', r) \<Longrightarrow> job_result (QrJob secret) r"
| Manual: "manual_worker adb host port pin cancel h = Some (h', pin', r) \<Longrightarrow> job_result (ManualJob host port pin) r"
| Panic: "job_result job (Inl ''pair_failed'')"

section \<open>The commands\<close>

record pair_worker =
  wk_generation :: nat
  wk_job :: pair_job

text \<open>The store, the workers in flight, and the tokens that were told to cancel.\<close>

record pair_world =
  pw_store :: PairingStore
  pw_workers :: "pair_worker list"
  pw_told :: "nat list"

definition reserve_round :: "nat \<Rightarrow> pair_job \<Rightarrow> pair_world \<Rightarrow> pair_world \<times> (string + nat)" where
  "reserve_round t job g =
     (let s = pw_store g; generation = ps_next_generation s + 1; s = s\<lparr>ps_next_generation := generation\<rparr> in
      if pairing_is_active (ps_state s) then (g\<lparr>pw_store := s\<rparr>, Inl ''pairing_already_running'')
      else (g\<lparr>pw_store := s\<lparr>ps_state := PairWaiting generation t, ps_cancel := Some generation\<rparr>,
              pw_workers := pw_workers g @ [\<lparr>wk_generation = generation, wk_job = job\<rparr>]\<rparr>, Inr generation))"

definition start_pairing :: "qr_encoder \<Rightarrow> PairingSecret \<Rightarrow> nat \<Rightarrow> pair_world \<Rightarrow> pair_world \<times> (string + PairingStartDto)" where
  "start_pairing enc secret t g =
     (case qr_matrix enc (payload secret) of
        Inl _ \<Rightarrow> (g, Inl ''pair_failed'')
      | Inr matrix \<Rightarrow>
          (case reserve_round t (QrJob secret) g of
             (g, Inl e) \<Rightarrow> (g, Inl e)
           | (g, Inr generation) \<Rightarrow>
               (g, Inr \<lparr>sd_generation = generation, sd_side = qr_side matrix, sd_modules = qr_modules matrix,
                        sd_total_secs = ROUND_TIMEOUT div 1000\<rparr>)))"

definition pairing_status :: "nat \<Rightarrow> pair_world \<Rightarrow> PairingStatusDto" where
  "pairing_status t g = pairing_status_from t (ps_state (pw_store g))"

definition cancel_pairing :: "pair_world \<Rightarrow> pair_world" where
  "cancel_pairing g =
     (let s = pw_store g in
      case ps_state s of
        PairWaiting generation _ \<Rightarrow>
          g\<lparr>pw_told := (case ps_cancel s of Some token \<Rightarrow> token # pw_told g | None \<Rightarrow> pw_told g),
            pw_store := s\<lparr>ps_state := PairCancelling generation\<rparr>\<rparr>
      | _ \<Rightarrow> g)"

definition validate_manual_inputs :: "(string \<Rightarrow> bool) \<Rightarrow> string \<Rightarrow> nat \<Rightarrow> string \<Rightarrow> string + unit" where
  "validate_manual_inputs is_ip host port pin =
     (if \<not> is_ip host then Inl ''pair_failed''
      else if port = 0 \<or> \<not> list_all is_ascii_digit pin \<or> length pin \<noteq> 6 then Inl ''pair_failed''
      else Inr ())"

text \<open>The second result is the code as it is left in the command: wiped, or moved to the worker.\<close>

definition pair_manual ::
  "(string \<Rightarrow> bool) \<Rightarrow> string \<Rightarrow> nat \<Rightarrow> string \<Rightarrow> nat \<Rightarrow> pair_world \<Rightarrow> pair_world \<times> string \<times> (string + nat)" where
  "pair_manual is_ip host port pin t g =
     (case validate_manual_inputs is_ip host port pin of
        Inl _ \<Rightarrow> (g, wipe_string pin, Inl ''pair_failed'')
      | Inr _ \<Rightarrow>
          (case reserve_round t (ManualJob host port pin) g of
             (g, Inl e) \<Rightarrow> (g, wipe_string pin, Inl e)
           | (g, Inr generation) \<Rightarrow> (g, [], Inr generation)))"

definition worker_ends :: "nat \<Rightarrow> string + string \<Rightarrow> pair_world \<Rightarrow> pair_world" where
  "worker_ends i result g =
     g\<lparr>pw_store := set_pairing_result (wk_generation (pw_workers g ! i)) result (pw_store g),
       pw_workers := take i (pw_workers g) @ drop (Suc i) (pw_workers g)\<rparr>"

text \<open>\<open>reclaim\_sessions\<close>, its first step: the token is told, the state is left alone.\<close>

definition cancel_at_exit :: "pair_world \<Rightarrow> pair_world" where
  "cancel_at_exit g =
     g\<lparr>pw_told := (case ps_cancel (pw_store g) of Some token \<Rightarrow> token # pw_told g | None \<Rightarrow> pw_told g)\<rparr>"

definition pair_start :: pair_world where
  "pair_start = \<lparr>pw_store = \<lparr>ps_state = PairIdle, ps_cancel = None, ps_next_generation = 0\<rparr>, pw_workers = [], pw_told = []\<rparr>"

inductive pair_step :: "pair_world \<Rightarrow> pair_world \<Rightarrow> bool" where
  Start: "start_pairing enc secret t g = (g', r) \<Longrightarrow> pair_step g g'"
| ByHand: "pair_manual is_ip host port pin t g = (g', left, r) \<Longrightarrow> pair_step g g'"
| Cancel: "pair_step g (cancel_pairing g)"
| Ends: "i < length (pw_workers g) \<Longrightarrow> job_result (wk_job (pw_workers g ! i)) result \<Longrightarrow> pair_step g (worker_ends i result g)"
| AtExit: "pair_step g (cancel_at_exit g)"

inductive_cases pair_stepE: "pair_step g g'"

inductive pair_reach :: "pair_world \<Rightarrow> pair_world \<Rightarrow> bool" where
  Here: "pair_reach g g"
| Further: "pair_reach g v \<Longrightarrow> pair_step v w \<Longrightarrow> pair_reach g w"

section \<open>One round at a time\<close>

text \<open>What a worker may report: one of four stable codes, or a name.\<close>

definition PAIR_CODES :: "string list" where
  "PAIR_CODES = [''pair_timed_out'', ''pair_cancelled'', ''pair_failed'', ''manual_pair_needs_connect_port'']"

lemma pairing_error_code_stable: "pairing_error_code e \<in> set PAIR_CODES"
  by (cases e) (simp_all add: PAIR_CODES_def)

lemma job_result_stable: "job_result job (Inl why) \<Longrightarrow> why \<in> set PAIR_CODES"
proof (induction job "Inl why :: string + string" rule: job_result.induct)
  case (Qr enc adb secret cancel h h')
  then show ?case
    using pairing_error_code_stable by (auto simp: qr_worker_def split: option.splits sum.splits)
next
  case (Manual adb host port pin cancel h h' pin')
  then show ?case
    by (auto simp: manual_worker_def Let_def PAIR_CODES_def split: option.splits sum.splits prod.splits if_splits)
qed (simp add: PAIR_CODES_def)

text \<open>
  The bookkeeping: a worker is in flight exactly while the state is active; the generations and the
  token are its own; tokens told to cancel are not from the future.
\<close>

definition pair_wf :: "pair_world \<Rightarrow> bool" where
  "pair_wf g \<longleftrightarrow>
     (let s = pw_store g; generation = pairing_generation (ps_state s) in
      map wk_generation (pw_workers g) = (if pairing_is_active (ps_state s) then [generation] else []) \<and>
      ps_cancel s = (if pairing_is_active (ps_state s) then Some generation else None) \<and>
      generation \<le> ps_next_generation s \<and> (ps_state s \<noteq> PairIdle \<longrightarrow> 0 < generation) \<and>
      (\<forall>token \<in> set (pw_told g). token \<le> ps_next_generation s) \<and>
      (is_cancelling (ps_state s) \<longrightarrow> generation \<in> set (pw_told g)) \<and>
      (\<forall>generation why. ps_state s = PairFailed generation why \<longrightarrow> why \<in> set PAIR_CODES))"

lemma pair_start_wf: "pair_wf pair_start"
  by (simp add: pair_wf_def pair_start_def)

lemma reserve_round_cases:
  assumes "reserve_round t job g = (g', r)"
  obtains (busy) "pairing_is_active (ps_state (pw_store g))" "r = Inl ''pairing_already_running''"
      "g' = g\<lparr>pw_store := (pw_store g)\<lparr>ps_next_generation := ps_next_generation (pw_store g) + 1\<rparr>\<rparr>"
  | (free) n where "\<not> pairing_is_active (ps_state (pw_store g))" "n = ps_next_generation (pw_store g) + 1" "r = Inr n"
      "g' = g\<lparr>pw_store := \<lparr>ps_state = PairWaiting n t, ps_cancel = Some n, ps_next_generation = n\<rparr>,
              pw_workers := pw_workers g @ [\<lparr>wk_generation = n, wk_job = job\<rparr>]\<rparr>"
  using assms by (cases "pairing_is_active (ps_state (pw_store g))") (auto simp: reserve_round_def Let_def)

lemma reserve_round_wf: "reserve_round t job g = (g', r) \<Longrightarrow> pair_wf g \<Longrightarrow> pair_wf g'"
proof (erule reserve_round_cases, goal_cases)
  case 1
  then show ?case by (simp add: pair_wf_def Let_def) fastforce
next
  case (2 n)
  then show ?case by (simp add: pair_wf_def Let_def) fastforce
qed

lemma cancel_pairing_wf: "pair_wf g \<Longrightarrow> pair_wf (cancel_pairing g)"
  by (auto simp: cancel_pairing_def pair_wf_def Let_def split: PairingState.splits)

lemma cancel_at_exit_wf: "pair_wf g \<Longrightarrow> pair_wf (cancel_at_exit g)"
  by (auto simp: cancel_at_exit_def pair_wf_def Let_def split: option.splits)

lemma worker_is_current:
  assumes "pair_wf g" "i < length (pw_workers g)"
  shows "i = 0 \<and> length (pw_workers g) = 1 \<and> pairing_is_active (ps_state (pw_store g)) \<and>
    wk_generation (pw_workers g ! i) = pairing_generation (ps_state (pw_store g))"
  using assms by (cases "pw_workers g") (auto simp: pair_wf_def Let_def split: if_splits)

lemma worker_ends_wf:
  assumes "pair_wf g" "i < length (pw_workers g)" "job_result (wk_job (pw_workers g ! i)) result"
  shows "pair_wf (worker_ends i result g)"
proof -
  note c = worker_is_current [OF assms(1,2)]
  have "why \<in> set PAIR_CODES" if "result = Inl why" for why
    using job_result_stable assms(3) that by blast
  moreover have "0 < pairing_generation (ps_state (pw_store g))"
    using assms(1) c by (cases "ps_state (pw_store g)") (auto simp: pair_wf_def Let_def)
  ultimately show ?thesis
    using assms(1) c unfolding pair_wf_def Let_def worker_ends_def
    by (auto simp: set_pairing_result_def split: sum.splits)
qed

lemma start_pairing_world: "start_pairing enc secret t g = (g', r) \<Longrightarrow>
  g' = g \<or> (\<exists>q. reserve_round t (QrJob secret) g = (g', q))"
  by (auto simp: start_pairing_def split: sum.splits prod.splits)

lemma pair_manual_world: "pair_manual is_ip host port pin t g = (g', left, r) \<Longrightarrow>
  g' = g \<or> (\<exists>q. reserve_round t (ManualJob host port pin) g = (g', q))"
  by (auto simp: pair_manual_def split: sum.splits prod.splits)

lemma pair_step_wf: "pair_step g g' \<Longrightarrow> pair_wf g \<Longrightarrow> pair_wf g'"
proof (induction rule: pair_step.induct)
  case (Start enc secret t g g' r)
  then show ?case using start_pairing_world reserve_round_wf by blast
next
  case (ByHand is_ip host port pin t g g' left r)
  then show ?case using pair_manual_world reserve_round_wf by blast
qed (simp_all add: cancel_pairing_wf cancel_at_exit_wf worker_ends_wf)

lemma pair_reach_wf: "pair_reach g g' \<Longrightarrow> pair_wf g \<Longrightarrow> pair_wf g'"
  by (induction rule: pair_reach.induct) (auto dest: pair_step_wf)

text \<open>A cancelled round is over: its generation comes to no result.\<close>

definition settled :: "nat \<Rightarrow> pair_world \<Rightarrow> bool" where
  "settled n g \<longleftrightarrow> n \<le> ps_next_generation (pw_store g) \<and> n \<in> set (pw_told g) \<and>
     (pairing_generation (ps_state (pw_store g)) = n \<longrightarrow> ps_state (pw_store g) = PairCancelling n)"

lemma reserve_round_settled: "reserve_round t job g = (g', r) \<Longrightarrow> settled n g \<Longrightarrow> settled n g'"
  by (erule reserve_round_cases) (simp_all add: settled_def)

lemma pair_step_settled: "pair_step g g' \<Longrightarrow> pair_wf g \<Longrightarrow> 0 < n \<Longrightarrow> settled n g \<Longrightarrow> settled n g'"
proof (induction rule: pair_step.induct)
  case (Start enc secret t g g' r)
  then show ?case using start_pairing_world reserve_round_settled by blast
next
  case (ByHand is_ip host port pin t g g' left r)
  then show ?case using pair_manual_world reserve_round_settled by blast
next
  case (Cancel g)
  then show ?case
    by (cases "ps_state (pw_store g)"; cases "ps_cancel (pw_store g)") (simp_all add: cancel_pairing_def settled_def Let_def)
next
  case (AtExit g)
  then show ?case by (cases "ps_cancel (pw_store g)") (simp_all add: cancel_at_exit_def settled_def)
next
  case (Ends i g result)
  note c = worker_is_current [OF Ends.prems(1) Ends.hyps(1)]
  show ?case
  proof (cases "pairing_generation (ps_state (pw_store g)) = n")
    case True
    with Ends.prems have "ps_state (pw_store g) = PairCancelling n" by (simp add: settled_def)
    with Ends.prems c show ?thesis by (simp add: worker_ends_def set_pairing_result_def settled_def)
  next
    case False
    with Ends.prems c show ?thesis
      by (cases result) (simp_all add: worker_ends_def set_pairing_result_def settled_def)
  qed
qed

lemma pair_reach_settled: "pair_reach g g' \<Longrightarrow> pair_wf g \<Longrightarrow> 0 < n \<Longrightarrow> settled n g \<Longrightarrow> settled n g'"
  by (induction rule: pair_reach.induct) (auto dest: pair_step_settled pair_reach_wf)

lemma pair_reach_trans: "pair_reach v w \<Longrightarrow> pair_reach u v \<Longrightarrow> pair_reach u w"
  by (induction rule: pair_reach.induct) (auto intro: pair_reach.intros)

section \<open>Properties\<close>

text \<open>
  C10. One pairing at a time, and always within reach: in every state that any interleaving of the
  commands and the ends of workers leads to, there is a worker in flight exactly while the state is
  active, it is the only one, its generation is the one shown, and the token in the store is its own.
  A start in such a state is refused and starts no worker.
\<close>

theorem pairing_single_flight:
  assumes "pair_reach pair_start g" and "reserve_round t job g = (g', r)"
  shows "(if pairing_is_active (ps_state (pw_store g))
    then map wk_generation (pw_workers g) = [pairing_generation (ps_state (pw_store g))] \<and>
         ps_cancel (pw_store g) = Some (pairing_generation (ps_state (pw_store g))) \<and>
         r = Inl ''pairing_already_running'' \<and> pw_workers g' = pw_workers g \<and> ps_state (pw_store g') = ps_state (pw_store g)
    else pw_workers g = [] \<and> ps_cancel (pw_store g) = None \<and>
         (\<exists>n. r = Inr n \<and> pairing_generation (ps_state (pw_store g)) < n \<and> n \<notin> set (pw_told g) \<and>
            map wk_generation (pw_workers g') = [n] \<and> ps_cancel (pw_store g') = Some n))"
proof -
  have w: "pair_wf g" by (rule pair_reach_wf [OF assms(1) pair_start_wf])
  from assms(2) show ?thesis
  proof (cases rule: reserve_round_cases)
    case busy
    with w show ?thesis by (simp add: pair_wf_def Let_def)
  next
    case (free n)
    with w have "pairing_generation (ps_state (pw_store g)) < n" "n \<notin> set (pw_told g)" "pw_workers g = []"
      by (auto simp: pair_wf_def Let_def)
    with free w show ?thesis by (simp add: pair_wf_def Let_def)
  qed
qed

definition paired_by_hand :: pair_world where
  "paired_by_hand = fst (pair_manual (\<lambda>_. True) ''10.0.0.2'' 37000 ''123456'' 5 pair_start)"

lemma paired_by_hand_reached: "pair_reach pair_start paired_by_hand"
proof -
  obtain g left r where "pair_manual (\<lambda>_. True) ''10.0.0.2'' 37000 ''123456'' 5 pair_start = (g, left, r)"
    by (cases "pair_manual (\<lambda>_. True) ''10.0.0.2'' 37000 ''123456'' 5 pair_start")
  then show ?thesis by (auto simp: paired_by_hand_def intro: pair_reach.intros pair_step.ByHand)
qed

lemma paired_by_hand_eq: "paired_by_hand =
  \<lparr>pw_store = \<lparr>ps_state = PairWaiting 1 5, ps_cancel = Some 1, ps_next_generation = 1\<rparr>,
   pw_workers = [\<lparr>wk_generation = 1, wk_job = ManualJob ''10.0.0.2'' 37000 ''123456''\<rparr>], pw_told = []\<rparr>"
  by (simp add: paired_by_hand_def pair_manual_def validate_manual_inputs_def is_ascii_digit_def reserve_round_def pair_start_def)

theorem pairing_single_flight_witness:
  "case reserve_round 9 (ManualJob ''10.0.0.2'' 37000 ''123456'') paired_by_hand of (g', r) \<Rightarrow>
     r = Inl ''pairing_already_running'' \<and> length (pw_workers g') = 1"
proof -
  obtain g' r where e: "reserve_round 9 (ManualJob ''10.0.0.2'' 37000 ''123456'') paired_by_hand = (g', r)"
    by (cases "reserve_round 9 (ManualJob ''10.0.0.2'' 37000 ''123456'') paired_by_hand")
  from pairing_single_flight [OF paired_by_hand_reached e] show ?thesis by (simp add: e) (simp add: paired_by_hand_eq)
qed

text \<open>
  C19. A cancelled round stays cancelled: the token of its worker has been told, and whatever happens
  from then on, the success or failure that the worker reports later is never shown, neither as the
  result of this round nor in place of a later one.
\<close>

theorem cancelled_pairing_stays_silent:
  assumes "pair_reach pair_start g" and "ps_state (pw_store g) = PairWaiting n t" and "pair_reach (cancel_pairing g) g'"
  shows "n \<in> set (pw_told g') \<and>
    ps_state (pw_store g') \<notin> range (PairWaiting n) \<union> range (PairSucceeded n) \<union> range (PairFailed n)"
proof -
  have w: "pair_wf g" by (rule pair_reach_wf [OF assms(1) pair_start_wf])
  then have "0 < n" "settled n (cancel_pairing g)"
    using assms(2) by (auto simp: cancel_pairing_def settled_def pair_wf_def Let_def)
  from pair_reach_settled [OF assms(3) cancel_pairing_wf [OF w] this] show ?thesis by (auto simp: settled_def)
qed

theorem cancelled_pairing_stays_silent_witness:
  "ps_state (pw_store (worker_ends 0 (Inl ''pair_failed'') (cancel_pairing paired_by_hand))) \<notin> range (PairFailed 1)"
proof -
  have p: "ps_state (pw_store paired_by_hand) = PairWaiting 1 5" "length (pw_workers (cancel_pairing paired_by_hand)) = 1"
    by (simp_all add: paired_by_hand_eq cancel_pairing_def)
  have "pair_reach (cancel_pairing paired_by_hand) (worker_ends 0 (Inl ''pair_failed'') (cancel_pairing paired_by_hand))"
    by (rule pair_reach.Further [OF pair_reach.Here pair_step.Ends]) (simp_all add: p(2) job_result.Panic)
  from cancelled_pairing_stays_silent [OF paired_by_hand_reached p(1) this] show ?thesis by auto
qed

text \<open>
  C32. What the web view is told of a pairing has one of five shapes: the seconds left are there
  exactly while waiting and at most the five minutes of a round, a name exactly after a success, an
  error exactly after a failure, and then it is one of the stable codes and never text of \<open>adb\<close>.
  Generation 0 is shown only when idle.
\<close>

theorem pairing_status_well_formed:
  assumes "pair_reach pair_start g"
  shows "(pairing_status t g, pd_generation (pairing_status t g)) \<in>
    {(status_dto 0 ''idle'' None None None, 0)} \<union>
    {(status_dto n ''waiting'' (Some left) None None, n) | n left. 0 < n \<and> left \<le> 300} \<union>
    {(status_dto n ''succeeded'' None (Some name) None, n) | n name. 0 < n} \<union>
    {(status_dto n ''failed'' None None (Some why), n) | n why. 0 < n \<and> why \<in> set PAIR_CODES} \<union>
    {(status_dto n ''cancelling'' None None None, n) | n. 0 < n}"
proof -
  have w: "pair_wf g" by (rule pair_reach_wf [OF assms pair_start_wf])
  then show ?thesis
    by (cases "ps_state (pw_store g)")
      (auto simp: pairing_status_def pair_wf_def Let_def ROUND_TIMEOUT_def status_dto_def)
qed

theorem pairing_status_well_formed_witness:
  "pairing_status 2005 paired_by_hand = status_dto 1 ''waiting'' (Some 298) None None \<and>
   pd_error_code (pairing_status 2005 paired_by_hand) = None"
  using pairing_status_well_formed [OF paired_by_hand_reached, of 2005]
  by (simp add: paired_by_hand_eq pairing_status_def ROUND_TIMEOUT_def) (auto simp: status_dto_def)

end
