(* ===== verification/GuiPanel.thy ===== *)
theory GuiPanel
  imports IosSession
begin

text \<open>
  The desktop program (\<open>quadcontrol-gui\<close>, \<open>lib.rs\<close>): the values behind the iPhone panel. The
  statuses and names shown, the list of recently used applications, the frame rate, and the map from
  the picture on the screen to points of the device. Numbers of type \<open>f64\<close> are rationals computed
  exactly, with the three special values.
\<close>

section \<open>Statuses\<close>

record WindowDto =
  wt_width :: "32 word"
  wt_height :: "32 word"

record RecentAppDto =
  rt_bundle_id :: string
  rt_name :: string

record IosStatusDto =
  it_state :: string
  it_code :: "string option"
  it_exit_reason :: "string option"
  it_proxy_port :: "nat option"
  it_fps :: nat
  it_locked :: "bool option"
  it_window :: "WindowDto option"
  it_recent_apps :: "RecentAppDto list"

definition ios_idle_dto :: IosStatusDto where
  "ios_idle_dto = \<lparr>it_state = ''idle'', it_code = None, it_exit_reason = None, it_proxy_port = None, it_fps = 0,
     it_locked = None, it_window = None, it_recent_apps = []\<rparr>"

fun exit_reason_text :: "ExitReason \<Rightarrow> string" where
  "exit_reason_text Requested = ''requested''"
| "exit_reason_text (ChildExited _ _) = ''child_exited''"
| "exit_reason_text UpstreamClosed = ''upstream_closed''"

fun ios_status_dto :: "IosSessionStatus \<Rightarrow> IosStatusDto" where
  "ios_status_dto IosStarting = ios_idle_dto\<lparr>it_state := ''starting''\<rparr>"
| "ios_status_dto (IosRunning proxy_port) = ios_idle_dto\<lparr>it_state := ''running'', it_proxy_port := Some proxy_port\<rparr>"
| "ios_status_dto IosStopping = ios_idle_dto\<lparr>it_state := ''stopping''\<rparr>"
| "ios_status_dto (IosExited reason) =
     ios_idle_dto\<lparr>it_state := ''exited'', it_exit_reason := Some (exit_reason_text reason)\<rparr>"
| "ios_status_dto (IosFailed why) = ios_idle_dto\<lparr>it_state := ''failed'', it_code := Some why\<rparr>"

fun ios_session_is_live :: "IosSessionStatus \<Rightarrow> bool" where
  "ios_session_is_live IosStarting = True"
| "ios_session_is_live (IosRunning _) = True"
| "ios_session_is_live IosStopping = True"
| "ios_session_is_live _ = False"

section \<open>Recently used applications\<close>

record RecentApp =
  ra_bundle_id :: string
  ra_name :: "string option"

definition RECENT_APPS_LIMIT :: nat where "RECENT_APPS_LIMIT = 8"
definition SPRINGBOARD_BUNDLE_ID :: string where "SPRINGBOARD_BUNDLE_ID = ''com.apple.springboard''"

definition is_no_app :: "string \<Rightarrow> bool" where
  "is_no_app b \<longleftrightarrow> b = [] \<or> eq_ignore_ascii_case b SPRINGBOARD_BUNDLE_ID"

definition remember_recent_app :: "(string \<Rightarrow> string option) option \<Rightarrow> string \<Rightarrow> RecentApp list \<Rightarrow> RecentApp list" where
  "remember_recent_app installed b apps =
     (if is_no_app b then apps
      else take RECENT_APPS_LIMIT
        (\<lparr>ra_bundle_id = b, ra_name = Option.bind installed (\<lambda>m. m b)\<rparr> # filter (\<lambda>app. ra_bundle_id app \<noteq> b) apps))"

definition fallback_app_name :: "string \<Rightarrow> string" where
  "fallback_app_name b = (let segment = last (str_split CHR ''.'' b) in if segment = [] then b else segment)"

text \<open>A remembered name hides the list of installed applications, also when it is blank.\<close>

definition app_display_name :: "string \<Rightarrow> string option \<Rightarrow> (string \<Rightarrow> string option) option \<Rightarrow> string" where
  "app_display_name b name installed =
     (case (case name of Some n \<Rightarrow> Some n | None \<Rightarrow> Option.bind installed (\<lambda>m. m b)) of
        Some n \<Rightarrow> if str_trim n = [] then fallback_app_name b else n
      | None \<Rightarrow> fallback_app_name b)"

section \<open>The frame rate\<close>

text \<open>Milliseconds; the quotient is rounded half up (halves away from zero, and it is not negative).\<close>

definition diff_fps :: "(nat \<times> nat) option \<Rightarrow> nat \<Rightarrow> nat \<Rightarrow> nat \<Rightarrow> nat" where
  "diff_fps previous frames t last_fps =
     (case previous of
        None \<Rightarrow> 0
      | Some (previous_frames, previous_at) \<Rightarrow>
          (let elapsed = t - previous_at in
           if elapsed < 200 then last_fps
           else min u32_max ((2 * 1000 * (frames - previous_frames) + elapsed) div (2 * elapsed))))"

section \<open>From the picture to the device\<close>

text \<open>
  The picture is fitted into its container, so two bars are left on the sides or above and below.
  When an argument is not finite, a comparison with it fails or both quotients are not in the unit
  interval, and there is no point.
\<close>

definition content_rat :: "rat \<Rightarrow> rat \<Rightarrow> rat \<Rightarrow> rat \<Rightarrow> WindowSize \<Rightarrow> (rat \<times> rat) option" where
  "content_rat x_px y_px container_w container_h window =
     (if container_w \<le> 0 \<or> container_h \<le> 0 \<or> ws_width window = 0 \<or> ws_height window = 0 then None
      else
        let window_w = rat_of_nat (unat (ws_width window)); window_h = rat_of_nat (unat (ws_height window));
            scale = min (container_w / window_w) (container_h / window_h);
            content_w = window_w * scale; content_h = window_h * scale;
            normalized_x = (x_px - (container_w - content_w) / 2) / content_w;
            normalized_y = (y_px - (container_h - content_h) / 2) / content_h
        in if 0 \<le> normalized_x \<and> normalized_x \<le> 1 \<and> 0 \<le> normalized_y \<and> normalized_y \<le> 1
           then Some (normalized_x * window_w, normalized_y * window_h) else None)"

fun content_point :: "f64 \<Rightarrow> f64 \<Rightarrow> f64 \<Rightarrow> f64 \<Rightarrow> WindowSize \<Rightarrow> (f64 \<times> f64) option" where
  "content_point (Fin x) (Fin y) (Fin cw) (Fin ch) window =
     map_option (\<lambda>(px, py). (Fin px, Fin py)) (content_rat x y cw ch window)"
| "content_point _ _ _ _ window = None"

definition content_segment ::
  "f64 \<times> f64 \<Rightarrow> f64 \<times> f64 \<Rightarrow> f64 \<Rightarrow> f64 \<Rightarrow> WindowSize \<Rightarrow> ((f64 \<times> f64) \<times> (f64 \<times> f64)) option" where
  "content_segment src dst cw ch window =
     Option.bind (content_point (fst src) (snd src) cw ch window) (\<lambda>a.
     Option.bind (content_point (fst dst) (snd dst) cw ch window) (\<lambda>b. Some (a, b)))"

definition SWIPE_MIN_MS :: nat where "SWIPE_MIN_MS = 50"
definition SWIPE_MAX_MS :: nat where "SWIPE_MAX_MS = 2000"

definition clamp_swipe_ms :: "nat \<Rightarrow> nat" where
  "clamp_swipe_ms duration_ms = max SWIPE_MIN_MS (min SWIPE_MAX_MS duration_ms)"

section \<open>What the recent applications are\<close>

text \<open>The specification: the latest eight of the applications seen, each once, latest first.\<close>

definition recents_spec :: "string list \<Rightarrow> string list" where
  "recents_spec seen = take RECENT_APPS_LIMIT (rev (remdups (filter (\<lambda>b. \<not> is_no_app b) seen)))"

definition recents_of :: "((string \<Rightarrow> string option) option \<times> string) list \<Rightarrow> RecentApp list" where
  "recents_of seen = fold (\<lambda>(installed, b). remember_recent_app installed b) seen []"

lemma take_filter_again:
  assumes "distinct xs"
  shows "take n (x # filter (\<lambda>y. y \<noteq> x) (take n xs)) = take n (x # filter (\<lambda>y. y \<noteq> x) xs)"
proof (cases n)
  case (Suc k)
  have "take k (filter (\<lambda>y. y \<noteq> x) (take (Suc k) xs)) = take k (filter (\<lambda>y. y \<noteq> x) xs)"
    using assms
  proof (induction xs arbitrary: k)
    case (Cons y ys)
    show ?case
    proof (cases "y = x")
      case True
      with Cons.prems have "filter (\<lambda>y. y \<noteq> x) ys = ys" "filter (\<lambda>y. y \<noteq> x) (take k ys) = take k ys"
        by (auto simp: filter_id_conv dest: in_set_takeD)
      with True show ?thesis by simp
    next
      case False
      with Cons show ?thesis by (cases k) auto
    qed
  qed simp
  with Suc show ?thesis by simp
qed simp

lemma map_remember: "map ra_bundle_id (remember_recent_app installed b apps) =
  (if is_no_app b then map ra_bundle_id apps
   else take RECENT_APPS_LIMIT (b # filter (\<lambda>c. c \<noteq> b) (map ra_bundle_id apps)))"
  by (simp add: remember_recent_app_def filter_map comp_def take_map [symmetric])

lemma rev_remdups_snoc: "rev (remdups (xs @ [x])) = x # filter (\<lambda>y. y \<noteq> x) (rev (remdups xs))"
proof (induction xs)
  case (Cons a xs)
  then show ?case by (cases "a = x"; cases "a \<in> set xs") (auto simp: filter_id_conv)
qed simp

lemma recents_of_eq: "map ra_bundle_id (recents_of seen) = recents_spec (map snd seen)"
proof (induction seen rule: rev_induct)
  case Nil
  then show ?case by (simp add: recents_of_def recents_spec_def)
next
  case (snoc x seen)
  obtain installed b where x: "x = (installed, b)" by (cases x)
  have r: "recents_of (seen @ [x]) = remember_recent_app installed b (recents_of seen)" by (simp add: recents_of_def x)
  show ?case
  proof (cases "is_no_app b")
    case True
    with snoc r x show ?thesis by (simp add: map_remember recents_spec_def)
  next
    case False
    let ?xs = "filter (\<lambda>b. \<not> is_no_app b) (map snd seen)"
    have "map ra_bundle_id (recents_of (seen @ [x])) = take RECENT_APPS_LIMIT (b # filter (\<lambda>c. c \<noteq> b) (recents_spec (map snd seen)))"
      using False by (simp add: r map_remember snoc)
    also have "\<dots> = take RECENT_APPS_LIMIT (b # filter (\<lambda>c. c \<noteq> b) (rev (remdups ?xs)))"
      unfolding recents_spec_def by (rule take_filter_again) simp
    also have "\<dots> = recents_spec (map snd (seen @ [x]))"
      using False rev_remdups_snoc [of ?xs b] by (simp add: recents_spec_def x)
    finally show ?thesis .
  qed
qed

section \<open>Properties\<close>

text \<open>
  C23. The list of recent applications is what it means to be: after any sequence of foreground
  applications, with whatever names were known at each moment, it lists the latest eight different
  ones, latest first, none twice, and never the home screen or an empty name.
\<close>

theorem recent_apps_are_the_latest:
  "map ra_bundle_id (recents_of seen) = recents_spec (map snd seen) \<and>
   length (recents_of seen) \<le> 8 \<and> distinct (map ra_bundle_id (recents_of seen)) \<and>
   set (map ra_bundle_id (recents_of seen)) \<subseteq> {b \<in> set (map snd seen). \<not> is_no_app b}"
proof -
  have eq: "map ra_bundle_id (recents_of seen) = recents_spec (map snd seen)" by (rule recents_of_eq)
  moreover have "length (recents_of seen) \<le> 8"
    using arg_cong [OF eq, of length] by (simp add: recents_spec_def RECENT_APPS_LIMIT_def)
  moreover have "distinct (recents_spec (map snd seen))" by (simp add: recents_spec_def)
  moreover have "set (recents_spec (map snd seen)) \<subseteq> {b \<in> set (map snd seen). \<not> is_no_app b}"
    by (auto simp: recents_spec_def dest!: in_set_takeD)
  ultimately show ?thesis by simp
qed

text \<open>Where a point of the device is in the container.\<close>

definition picture_of :: "rat \<Rightarrow> rat \<Rightarrow> WindowSize \<Rightarrow> rat \<times> rat \<Rightarrow> rat \<times> rat" where
  "picture_of cw ch window p =
     (let w = rat_of_nat (unat (ws_width window)); h = rat_of_nat (unat (ws_height window)); scale = min (cw / w) (ch / h)
      in ((cw - w * scale) / 2 + fst p * scale, (ch - h * scale) / 2 + snd p * scale))"

lemma unit_quotient:
  fixes x off w scale :: rat
  assumes "0 < w" "0 < scale" "q = (x - off) / (w * scale)"
  shows "(0 \<le> q \<and> q \<le> 1 \<and> q * w = p) = (0 \<le> p \<and> p \<le> w \<and> x = off + p * scale)"
proof -
  have x: "x = off + q * w * scale" using assms by (simp add: field_simps)
  have "(0 \<le> q * w) = (0 \<le> q)" "(q * w \<le> w) = (q \<le> 1)" using assms(1) by (simp_all add: zero_le_mult_iff)
  moreover have "(x = off + p * scale) = (q * w = p)" using assms(2) by (simp add: x)
  ultimately show ?thesis by metis
qed

lemma content_point_iff:
  assumes "0 < cw" "0 < ch" "ws_width window \<noteq> 0" "ws_height window \<noteq> 0"
  shows "(content_point (Fin x) (Fin y) (Fin cw) (Fin ch) window = Some (Fin px, Fin py)) =
      (0 \<le> px \<and> px \<le> rat_of_nat (unat (ws_width window)) \<and> 0 \<le> py \<and> py \<le> rat_of_nat (unat (ws_height window)) \<and>
       picture_of cw ch window (px, py) = (x, y))"
proof -
  define w h where "w = rat_of_nat (unat (ws_width window))" and "h = rat_of_nat (unat (ws_height window))"
  define scale where "scale = min (cw / w) (ch / h)"
  have "unat (ws_width window) \<noteq> 0" "unat (ws_height window) \<noteq> 0" using assms(3,4) by (simp_all add: unat_eq_0)
  then have p: "0 < w" "0 < h" unfolding w_def h_def of_nat_0_less_iff by simp_all
  with assms(1,2) have s: "0 < scale" by (simp add: scale_def)
  define nx ny where "nx = (x - (cw - w * scale) / 2) / (w * scale)" and "ny = (y - (ch - h * scale) / 2) / (h * scale)"
  have c: "content_rat x y cw ch window = (if 0 \<le> nx \<and> nx \<le> 1 \<and> 0 \<le> ny \<and> ny \<le> 1 then Some (nx * w, ny * h) else None)"
    using assms by (simp add: content_rat_def Let_def nx_def ny_def scale_def w_def h_def)
  have "(content_point (Fin x) (Fin y) (Fin cw) (Fin ch) window = Some (Fin px, Fin py)) =
      ((0 \<le> nx \<and> nx \<le> 1 \<and> nx * w = px) \<and> (0 \<le> ny \<and> ny \<le> 1 \<and> ny * h = py))"
    by (auto simp: c)
  also have "\<dots> = ((0 \<le> px \<and> px \<le> w \<and> x = (cw - w * scale) / 2 + px * scale) \<and>
      (0 \<le> py \<and> py \<le> h \<and> y = (ch - h * scale) / 2 + py * scale))"
    unfolding unit_quotient [OF p(1) s nx_def] unit_quotient [OF p(2) s ny_def] ..
  also have "\<dots> = (0 \<le> px \<and> px \<le> rat_of_nat (unat (ws_width window)) \<and> 0 \<le> py \<and>
      py \<le> rat_of_nat (unat (ws_height window)) \<and> picture_of cw ch window (px, py) = (x, y))"
    by (auto simp: picture_of_def Let_def w_def h_def scale_def)
  finally show "(content_point (Fin x) (Fin y) (Fin cw) (Fin ch) window = Some (Fin px, Fin py)) =
      (0 \<le> px \<and> px \<le> rat_of_nat (unat (ws_width window)) \<and> 0 \<le> py \<and> py \<le> rat_of_nat (unat (ws_height window)) \<and>
       picture_of cw ch window (px, py) = (x, y))" .
qed



end
