(* ===== verification/GuiIos.thy ===== *)
theory GuiIos
  imports GuiPanel
begin

text \<open>
  The desktop program (\<open>quadcontrol-gui\<close>, \<open>lib.rs\<close>): the store of the one iOS session and its
  commands. A command that waits for another thread between two of its critical sections is two
  definitions, so that other commands come between them. Handles are shared between the store and
  the commands, so they are in a map from their ids; a session goes on by itself. Locks are not
  poisoned, as in \<open>GuiPairing\<close>; what a status poll writes after its queries is one section.
\<close>

section \<open>What a session may be started with\<close>

definition DEFAULT_WDA_BUNDLE_ID :: string where
  "DEFAULT_WDA_BUNDLE_ID = ''com.facebook.WebDriverAgentRunner.xctrunner''"
definition DEFAULT_WDA_TESTRUNNER_ID :: string where
  "DEFAULT_WDA_TESTRUNNER_ID = ''com.facebook.WebDriverAgentRunner.xctrunner''"
definition DEFAULT_WDA_XCTESTCONFIG :: string where
  "DEFAULT_WDA_XCTESTCONFIG = ''WebDriverAgentRunner.xctest''"

text \<open>The platform and the kind of build, and the environment.\<close>

record build =
  on_windows :: bool
  on_macos :: bool
  debug_build :: bool
  env_var :: "string \<Rightarrow> string option"

definition ios_launch_allowed :: "build \<Rightarrow> string + unit" where
  "ios_launch_allowed b =
     (if on_windows b then Inl ''windows_session_unsupported''
      else if on_macos b \<and> \<not> (debug_build b \<and> env_var b ''QUADCONTROL_IOS_DEV_WDA'' = Some ''1'')
      then Inl ''macos_uses_iphone_mirroring'' else Inr ())"

definition dev_attach_ports :: "build \<Rightarrow> (nat \<times> nat) option" where
  "dev_attach_ports b =
     (if \<not> debug_build b \<or> \<not> on_macos b \<or> \<not> isOk (ios_launch_allowed b) then None
      else Option.bind (env_var b ''QUADCONTROL_IOS_ATTACH'') (\<lambda>raw.
           Option.bind (split_once CHR '':'' raw) (\<lambda>(http, mjpeg).
           Option.bind (parse_uint u16_max (str_trim http)) (\<lambda>h.
           Option.bind (parse_uint u16_max (str_trim mjpeg)) (\<lambda>m. Some (h, m))))))"

definition env_or :: "build \<Rightarrow> string \<Rightarrow> string \<Rightarrow> string" where
  "env_or b name fallback =
     (case env_var b name of Some v \<Rightarrow> if str_trim v = [] then fallback else v | None \<Rightarrow> fallback)"

definition wda_ids_from_env :: "build \<Rightarrow> WdaIds" where
  "wda_ids_from_env b =
     \<lparr>wi_bundle_id = env_or b ''QUADCONTROL_WDA_BUNDLE_ID'' DEFAULT_WDA_BUNDLE_ID,
      wi_testrunner_id = env_or b ''QUADCONTROL_WDA_TESTRUNNER_ID'' DEFAULT_WDA_TESTRUNNER_ID,
      wi_xctestconfig = env_or b ''QUADCONTROL_WDA_XCTESTCONFIG'' DEFAULT_WDA_XCTESTCONFIG\<rparr>"

definition gui_launch_options :: "build \<Rightarrow> string \<Rightarrow> string \<Rightarrow> IosLaunchOptions" where
  "gui_launch_options b ios device_id =
     ios_launch_options device_id
       (case dev_attach_ports b of
          Some (http_port, mjpeg_port) \<Rightarrow> Attach http_port mjpeg_port
        | None \<Rightarrow> Launch ios (wda_ids_from_env b) [])"

section \<open>The store\<close>

datatype IosSlot = SlotStarting | SlotFailed string | SlotHandle nat

record IosMeta =
  im_frames :: "(nat \<times> nat) option"
  im_fps :: nat
  im_window :: "WindowSize option"
  im_locked :: "bool option"
  im_recent_apps :: "RecentApp list"
  im_installed :: "(string \<Rightarrow> string option) option"
  im_installed_requested :: "nat option"
  im_polls :: "64 word"
  im_session_id :: "nat option"

definition default_meta :: IosMeta where
  "default_meta = \<lparr>im_frames = None, im_fps = 0, im_window = None, im_locked = None, im_recent_apps = [],
     im_installed = None, im_installed_requested = None, im_polls = 0, im_session_id = None\<rparr>"

record IosSessionStore =
  is_session :: "IosSlot option"
  is_next_id :: nat
  is_meta :: IosMeta
  is_device_id :: "string option"

text \<open>A session as its handle shows it, and whether it was asked to stop.\<close>

record ios_view =
  iv_status :: IosSessionStatus
  iv_frames :: nat
  iv_client :: bool
  iv_told :: bool

definition fresh_view :: ios_view where
  "fresh_view = \<lparr>iv_status = IosStarting, iv_frames = 0, iv_client = False, iv_told = False\<rparr>"

text \<open>
  The panel: the store, the handles made so far, the starts whose blocking part runs and those whose
  session is spawned and not yet in the store, the listings of applications in flight with the device
  they run on, and whether the program is closing.
\<close>

record panel =
  pn_store :: IosSessionStore
  pn_handles :: "nat \<Rightarrow> ios_view option"
  pn_starting :: "nat list"
  pn_spawned :: "nat list"
  pn_loads :: "(nat \<times> string) list"
  pn_closed :: bool

definition panel_start :: panel where
  "panel_start = \<lparr>pn_store = \<lparr>is_session = None, is_next_id = 1, is_meta = default_meta, is_device_id = None\<rparr>,
     pn_handles = (\<lambda>_. None), pn_starting = [], pn_spawned = [], pn_loads = [], pn_closed = False\<rparr>"

definition handle_view :: "panel \<Rightarrow> nat \<Rightarrow> ios_view" where
  "handle_view w i = (case pn_handles w i of Some v \<Rightarrow> v | None \<Rightarrow> fresh_view)"

definition set_slot :: "IosSlot option \<Rightarrow> panel \<Rightarrow> panel" where
  "set_slot slot w = w\<lparr>pn_store := (pn_store w)\<lparr>is_session := slot\<rparr>\<rparr>"

definition set_meta :: "IosMeta \<Rightarrow> panel \<Rightarrow> panel" where
  "set_meta meta w = w\<lparr>pn_store := (pn_store w)\<lparr>is_meta := meta\<rparr>\<rparr>"

definition set_device :: "string option \<Rightarrow> panel \<Rightarrow> panel" where
  "set_device device_id w = w\<lparr>pn_store := (pn_store w)\<lparr>is_device_id := device_id\<rparr>\<rparr>"

definition tell_stop :: "nat \<Rightarrow> panel \<Rightarrow> panel" where
  "tell_stop i w = w\<lparr>pn_handles := (pn_handles w)(i := map_option (iv_told_update (\<lambda>_. True)) (pn_handles w i))\<rparr>"

fun slot_status :: "panel \<Rightarrow> IosSlot \<Rightarrow> IosSessionStatus" where
  "slot_status w SlotStarting = IosStarting"
| "slot_status w (SlotFailed why) = IosFailed why"
| "slot_status w (SlotHandle i) = iv_status (handle_view w i)"

fun ios_slot_is_live :: "panel \<Rightarrow> IosSlot \<Rightarrow> bool" where
  "ios_slot_is_live w SlotStarting = True"
| "ios_slot_is_live w (SlotFailed _) = False"
| "ios_slot_is_live w (SlotHandle i) = ios_session_is_live (iv_status (handle_view w i))"

section \<open>Starting and stopping\<close>

text \<open>\<open>start\_ios\_session\<close> up to its blocking part.\<close>

definition start_ios_begin :: "build \<Rightarrow> string \<Rightarrow> panel \<Rightarrow> panel \<times> (string + nat)" where
  "start_ios_begin b device_id w =
     (case ios_launch_allowed b of
        Inl e \<Rightarrow> (w, Inl e)
      | Inr _ \<Rightarrow>
          (let w = set_device (Some device_id) w; s = pn_store w in
           if (case is_session s of Some slot \<Rightarrow> ios_slot_is_live w slot | None \<Rightarrow> False)
           then (w, Inl ''ios_session_already_running'')
           else (let i = is_next_id s in
                 (w\<lparr>pn_store := s\<lparr>is_session := Some SlotStarting, is_next_id := i + 1\<rparr>,
                    pn_starting := pn_starting w @ [i]\<rparr>, Inr i))))"

text \<open>The blocking part fails (with its code, or \<open>ios_process_error\<close> for a panic), or it succeeds.\<close>

definition start_ios_failed :: "nat \<Rightarrow> string \<Rightarrow> panel \<Rightarrow> panel \<times> (string + unit)" where
  "start_ios_failed i why w =
     ((set_slot (Some (SlotFailed why)) w)\<lparr>pn_starting := remove1 i (pn_starting w)\<rparr>, Inl why)"

definition start_ios_spawned :: "nat \<Rightarrow> panel \<Rightarrow> panel" where
  "start_ios_spawned i w =
     w\<lparr>pn_starting := remove1 i (pn_starting w), pn_handles := (pn_handles w)(i := Some fresh_view),
       pn_spawned := pn_spawned w @ [i]\<rparr>"

definition start_ios_install :: "nat \<Rightarrow> panel \<Rightarrow> panel \<times> (string + unit)" where
  "start_ios_install i w =
     (let w = w\<lparr>pn_spawned := remove1 i (pn_spawned w)\<rparr> in
      if (case is_session (pn_store w) of Some (SlotHandle j) \<Rightarrow> ios_slot_is_live w (SlotHandle j) | _ \<Rightarrow> False)
      then (tell_stop i w, Inl ''ios_session_already_running'')
      else (set_meta default_meta (set_slot (Some (SlotHandle i)) w), Inr ()))"

definition stop_ios_session :: "panel \<Rightarrow> panel \<times> (string + unit)" where
  "stop_ios_session w =
     (let w = set_device None w in
      (case is_session (pn_store w) of Some (SlotHandle i) \<Rightarrow> tell_stop i w | _ \<Rightarrow> w, Inr ()))"

text \<open>\<open>ios_client\<close>: the client of a running session, seen as the id of its handle.\<close>

definition ios_client :: "panel \<Rightarrow> string + nat" where
  "ios_client w =
     (case is_session (pn_store w) of
        Some (SlotHandle i) \<Rightarrow> if iv_client (handle_view w i) then Inr i else Inl ''ios_session_not_running''
      | _ \<Rightarrow> Inl ''ios_session_not_running'')"

section \<open>The status that is polled\<close>

record poll_ticket =
  tk_dto :: IosStatusDto
  tk_session :: nat
  tk_client :: bool
  tk_query :: bool

definition window_dto :: "WindowSize \<Rightarrow> WindowDto" where
  "window_dto window = \<lparr>wt_width = ws_width window, wt_height = ws_height window\<rparr>"

text \<open>\<open>ios_session_status\<close> up to the queries: a status that is final for this round, or the round goes on.\<close>

definition poll_begin :: "nat \<Rightarrow> panel \<Rightarrow> panel \<times> (IosStatusDto + poll_ticket)" where
  "poll_begin t w =
     (case is_session (pn_store w) of
        None \<Rightarrow> (w, Inl ios_idle_dto)
      | Some slot \<Rightarrow>
          (let dto = ios_status_dto (slot_status w slot);
               (frames, client, session) =
                 (case slot of
                    SlotHandle i \<Rightarrow> (iv_frames (handle_view w i), iv_client (handle_view w i), i)
                  | _ \<Rightarrow> (0, False, 0)) in
           if it_state dto \<noteq> ''running''
           then (let w = set_meta default_meta w in
                 (if it_state dto \<in> {''exited'', ''failed''} then set_device None w else w, Inl dto))
           else (let m = is_meta (pn_store w);
                     m = m\<lparr>im_session_id := Some session, im_fps := diff_fps (im_frames m) frames t (im_fps m),
                           im_frames := Some (frames, t), im_polls := im_polls m + 1\<rparr> in
                 (set_meta m w,
                  Inr \<lparr>tk_dto = dto\<lparr>it_fps := im_fps m, it_window := map_option window_dto (im_window m)\<rparr>,
                       tk_session = session, tk_client = client, tk_query = odd (unat (im_polls m))\<rparr>))))"

text \<open>What the queries said; the last one counts in every other round only.\<close>

record poll_answers =
  an_locked :: "bool option"
  an_window :: "WindowSize option"
  an_active :: "string option"

definition take_answers :: "poll_ticket \<Rightarrow> poll_answers \<Rightarrow> IosMeta \<Rightarrow> IosMeta" where
  "take_answers ticket a m =
     (if \<not> tk_client ticket then m
      else let m = (case an_locked a of Some l \<Rightarrow> m\<lparr>im_locked := Some l\<rparr> | None \<Rightarrow> m);
               m = (case an_window a of Some win \<Rightarrow> m\<lparr>im_window := Some win\<rparr> | None \<Rightarrow> m)
           in case an_active a of
                Some bid \<Rightarrow>
                  if tk_query ticket then m\<lparr>im_recent_apps := remember_recent_app (im_installed m) bid (im_recent_apps m)\<rparr>
                  else m
              | None \<Rightarrow> m)"

definition recent_dtos :: "IosMeta \<Rightarrow> RecentAppDto list" where
  "recent_dtos m =
     map (\<lambda>app. \<lparr>rt_bundle_id = ra_bundle_id app,
                 rt_name = app_display_name (ra_bundle_id app) (ra_name app) (im_installed m)\<rparr>) (im_recent_apps m)"

definition spawn_installed_apps_load :: "nat \<Rightarrow> panel \<Rightarrow> panel" where
  "spawn_installed_apps_load session w =
     (case is_device_id (pn_store w) of
        None \<Rightarrow> w
      | Some udid \<Rightarrow>
          (if im_installed_requested (is_meta (pn_store w)) = Some session then w
           else (set_meta ((is_meta (pn_store w))\<lparr>im_installed_requested := Some session\<rparr>) w)
                  \<lparr>pn_loads := pn_loads w @ [(session, udid)]\<rparr>))"

definition poll_end :: "poll_ticket \<Rightarrow> poll_answers \<Rightarrow> panel \<Rightarrow> panel \<times> IosStatusDto" where
  "poll_end ticket a w =
     (let m = take_answers ticket a (is_meta (pn_store w)); dto = tk_dto ticket;
          dto = (if tk_client ticket then dto\<lparr>it_locked := im_locked m\<rparr> else dto);
          dto = (case an_window a of Some win \<Rightarrow> if tk_client ticket then dto\<lparr>it_window := Some (window_dto win)\<rparr> else dto | None \<Rightarrow> dto);
          dto = dto\<lparr>it_recent_apps := recent_dtos m\<rparr>
      in (spawn_installed_apps_load (tk_session ticket) (set_meta m w), dto))"

text \<open>A listing comes back, or fails; one of another session is dropped.\<close>

definition names_of :: "InstalledApp list \<Rightarrow> string \<Rightarrow> string option" where
  "names_of apps = map_of (rev (map (\<lambda>a. (bundle_id a, app_name a)) (filter (\<lambda>a. str_trim (app_name a) \<noteq> []) apps)))"

definition load_ends :: "nat \<Rightarrow> InstalledApp list option \<Rightarrow> panel \<Rightarrow> panel" where
  "load_ends k apps w =
     (let session = fst (pn_loads w ! k); m = is_meta (pn_store w);
          w = w\<lparr>pn_loads := take k (pn_loads w) @ drop (Suc k) (pn_loads w)\<rparr> in
      case apps of
        None \<Rightarrow> w
      | Some apps \<Rightarrow> if im_session_id m \<noteq> Some session then w else set_meta (m\<lparr>im_installed := Some (names_of apps)\<rparr>) w)"

text \<open>\<open>reclaim_sessions\<close>: the session is taken out of the store and asked to stop.\<close>

definition reclaim_ios :: "panel \<Rightarrow> panel \<times> nat list" where
  "reclaim_ios w =
     (let taken = is_session (pn_store w); w = (set_slot None w)\<lparr>pn_closed := True\<rparr> in
      case taken of Some (SlotHandle i) \<Rightarrow> (tell_stop i w, [i]) | _ \<Rightarrow> (w, []))"

section \<open>Everything that may happen\<close>

fun ios_phase :: "IosSessionStatus \<Rightarrow> nat" where
  "ios_phase IosStarting = 0"
| "ios_phase (IosRunning _) = 1"
| "ios_phase IosStopping = 2"
| "ios_phase (IosExited _) = 3"
| "ios_phase (IosFailed _) = 3"

text \<open>A session goes on: its status never goes back (that the supervising thread keeps to it is shown in \<open>Spec2Isabelle\<close>).\<close>

instantiation IosSessionStatus :: preorder
begin

definition less_eq_IosSessionStatus :: "IosSessionStatus \<Rightarrow> IosSessionStatus \<Rightarrow> bool" where
  "s \<le> s' \<longleftrightarrow> ios_phase s \<le> ios_phase s'"

definition less_IosSessionStatus :: "IosSessionStatus \<Rightarrow> IosSessionStatus \<Rightarrow> bool" where
  "s < s' \<longleftrightarrow> ios_phase s < ios_phase s'"

instance by standard (auto simp: less_eq_IosSessionStatus_def less_IosSessionStatus_def)

end

declare less_eq_IosSessionStatus_def [simp]

interpretation ios_statuses: mortal ios_session_is_live
proof unfold_locales
  show "s \<le> s' \<Longrightarrow> ios_session_is_live s' \<Longrightarrow> ios_session_is_live s" for s s'
    by (cases s; cases s') simp_all
qed

definition session_moves :: "ios_view \<Rightarrow> ios_view \<Rightarrow> bool" where
  "session_moves v v' \<longleftrightarrow> iv_status v \<le> iv_status v' \<and> iv_told v' = iv_told v"

inductive panel_step :: "panel \<Rightarrow> panel \<Rightarrow> bool" where
  Begin: "panel_step w (fst (start_ios_begin b device_id w))"
| Failed: "i \<in> set (pn_starting w) \<Longrightarrow> panel_step w (fst (start_ios_failed i why w))"
| Spawned: "i \<in> set (pn_starting w) \<Longrightarrow> panel_step w (start_ios_spawned i w)"
| Install: "i \<in> set (pn_spawned w) \<Longrightarrow> panel_step w (fst (start_ios_install i w))"
| Stop: "panel_step w (fst (stop_ios_session w))"
| Moves: "pn_handles w i = Some v \<Longrightarrow> session_moves v v' \<Longrightarrow> panel_step w (w\<lparr>pn_handles := (pn_handles w)(i := Some v')\<rparr>)"
| PollBegin: "panel_step w (fst (poll_begin t w))"
| PollEnd: "panel_step w (fst (poll_end ticket a w))"
| Load: "k < length (pn_loads w) \<Longrightarrow> panel_step w (load_ends k apps w)"
| Reclaim: "panel_step w (fst (reclaim_ios w))"

inductive panel_run :: "panel \<Rightarrow> bool" where
  First: "panel_run panel_start"
| Next: "panel_run w \<Longrightarrow> panel_step w w' \<Longrightarrow> panel_run w'"

section \<open>One session at a time\<close>

lemmas panel_defs = set_slot_def set_meta_def set_device_def

lemma handle_view_simps [simp]:
  "handle_view (set_slot x w) i = handle_view w i" "handle_view (set_meta m w) i = handle_view w i"
  "handle_view (set_device d w) i = handle_view w i"
  by (simp_all add: handle_view_def panel_defs)

text \<open>The sessions that are alive.\<close>

definition live :: "panel \<Rightarrow> nat \<Rightarrow> bool" where
  "live w i \<longleftrightarrow> (\<exists>v. pn_handles w i = Some v \<and> ios_session_is_live (iv_status v))"

text \<open>
  Until the program closes: the placeholder is in the slot exactly while a start is in flight, which
  is then the only one; a session that lives is in the slot or about to be put there; ids are fresh.
\<close>

definition panel_wf :: "panel \<Rightarrow> bool" where
  "panel_wf w \<longleftrightarrow>
     (if is_session (pn_store w) = Some SlotStarting then length (pn_starting w @ pn_spawned w) = 1
      else pn_starting w = [] \<and> pn_spawned w = []) \<and>
     (\<forall>i. live w i \<longrightarrow> is_session (pn_store w) = Some (SlotHandle i) \<or> i \<in> set (pn_spawned w)) \<and>
     (\<forall>i. pn_handles w i \<noteq> None \<longrightarrow> i < is_next_id (pn_store w)) \<and>
     (\<forall>i \<in> set (pn_starting w). pn_handles w i = None) \<and>
     (\<forall>i \<in> set (pn_starting w @ pn_spawned w). i < is_next_id (pn_store w))"

text \<open>What the order of the sections looks at.\<close>

definition same_books :: "panel \<Rightarrow> panel \<Rightarrow> bool" where
  "same_books w w' \<longleftrightarrow> is_session (pn_store w') = is_session (pn_store w) \<and> is_next_id (pn_store w') = is_next_id (pn_store w) \<and>
     pn_starting w' = pn_starting w \<and> pn_spawned w' = pn_spawned w \<and> pn_closed w' = pn_closed w \<and>
     (\<forall>i. live w' i \<longrightarrow> live w i) \<and> (\<forall>i. pn_handles w' i = None \<longleftrightarrow> pn_handles w i = None)"

lemma same_books_wf: "same_books w w' \<Longrightarrow> panel_wf w \<Longrightarrow> panel_wf w'"
  unfolding same_books_def panel_wf_def by (elim conjE, intro conjI) auto

lemma same_books_refl [simp]: "same_books w w" by (simp add: same_books_def)

lemma same_books_trans: "same_books u v \<Longrightarrow> same_books v w \<Longrightarrow> same_books u w"
  by (auto simp: same_books_def)

lemma same_books_set [simp]: "same_books u (set_meta m w) = same_books u w" "same_books u (set_device d w) = same_books u w"
  "same_books u (w\<lparr>pn_loads := ls\<rparr>) = same_books u w"
  by (simp_all add: same_books_def live_def panel_defs)

lemma same_books_tell [simp]: "same_books u w \<Longrightarrow> same_books u (tell_stop i w)"
  by (auto simp: same_books_def live_def tell_stop_def)

lemma same_books_closed: "same_books w w' \<Longrightarrow> pn_closed w' = pn_closed w"
  by (simp add: same_books_def)

lemma same_books_poll_begin: "same_books w (fst (poll_begin t w))"
proof (cases "is_session (pn_store w)")
  case (Some slot)
  then show ?thesis
    by (cases slot) (auto simp: poll_begin_def Let_def intro: same_books_trans split: if_splits)
qed (simp add: poll_begin_def)

lemma same_books_load: "same_books w (spawn_installed_apps_load k w)"
  by (auto simp: spawn_installed_apps_load_def intro: same_books_trans split: option.splits)

lemma same_books_poll_end: "same_books w (fst (poll_end ticket a w))"
  unfolding poll_end_def Let_def fst_conv by (rule same_books_trans [OF _ same_books_load]) simp

lemma same_books_load_ends: "same_books w (load_ends k apps w)"
  by (auto simp: load_ends_def Let_def intro: same_books_trans split: option.splits)

lemma same_books_stop: "same_books w (fst (stop_ios_session w))"
  by (auto simp: stop_ios_session_def Let_def intro: same_books_trans split: option.splits IosSlot.splits)

lemma same_books_moves:
  assumes "pn_handles w i = Some v" "session_moves v v'"
  shows "same_books w (w\<lparr>pn_handles := (pn_handles w)(i := Some v')\<rparr>)"
proof -
  let ?w = "w\<lparr>pn_handles := (pn_handles w)(i := Some v')\<rparr>"
  have "iv_status v \<le> iv_status v'" using assms(2) by (simp add: session_moves_def)
  note before = ios_statuses.alive_before [of "pn_handles w" i v iv_status v', OF assms(1) this]
  have "live w k" if "live ?w k" for k using that before [of k] unfolding live_def by auto
  with assms(1) show ?thesis by (simp add: same_books_def)
qed

lemma begin_wf: "panel_wf w \<Longrightarrow> panel_wf (fst (start_ios_begin b device_id w))"
proof -
  assume w: "panel_wf w"
  let ?w = "set_device (Some device_id) w" and ?s = "pn_store (set_device (Some device_id) w)"
  let ?busy = "case is_session ?s of Some slot \<Rightarrow> ios_slot_is_live ?w slot | None \<Rightarrow> False"
  have wd: "panel_wf ?w" by (rule same_books_wf [OF _ w]) simp
  show ?thesis
  proof (cases "isOk (ios_launch_allowed b) \<and> \<not> ?busy")
    case False
    with w wd show ?thesis by (cases "ios_launch_allowed b") (auto simp: start_ios_begin_def Let_def)
  next
    case True
    let ?v = "?w\<lparr>pn_store := ?s\<lparr>is_session := Some SlotStarting, is_next_id := is_next_id ?s + 1\<rparr>,
                 pn_starting := pn_starting ?w @ [is_next_id ?s]\<rparr>"
    have eq: "fst (start_ios_begin b device_id w) = ?v"
      using True by (cases "ios_launch_allowed b") (simp_all add: start_ios_begin_def Let_def)
    have slot: "is_session ?s \<noteq> Some SlotStarting" using True by auto
    have dead: "\<not> live ?w i" for i
    proof
      assume l: "live ?w i"
      with wd slot have "is_session ?s = Some (SlotHandle i)" by (auto simp: panel_wf_def)
      with True l show False by (auto simp: live_def handle_view_def)
    qed
    then have "\<not> live ?v i" for i by (simp add: live_def)
    with wd slot show ?thesis unfolding eq by (auto simp: panel_wf_def less_Suc_eq)
  qed
qed

lemma single_start:
  assumes "panel_wf w" "i \<in> set (pn_starting w @ pn_spawned w)"
  shows "is_session (pn_store w) = Some SlotStarting \<and> pn_starting w @ pn_spawned w = [i]"
  using assms by (cases "pn_starting w @ pn_spawned w") (auto simp: panel_wf_def split: if_splits)

lemma failed_wf: "panel_wf w \<Longrightarrow> i \<in> set (pn_starting w) \<Longrightarrow> panel_wf (fst (start_ios_failed i why w))"
proof -
  assume w: "panel_wf w" and i: "i \<in> set (pn_starting w)"
  then have s: "is_session (pn_store w) = Some SlotStarting" "pn_starting w = [i]" "pn_spawned w = []"
    using single_start [of w i] by (auto simp: append_eq_Cons_conv)
  with w show ?thesis by (auto simp: start_ios_failed_def panel_wf_def panel_defs live_def)
qed

lemma spawned_wf: "panel_wf w \<Longrightarrow> i \<in> set (pn_starting w) \<Longrightarrow> panel_wf (start_ios_spawned i w)"
proof -
  assume w: "panel_wf w" and i: "i \<in> set (pn_starting w)"
  then have s: "is_session (pn_store w) = Some SlotStarting" "pn_starting w = [i]" "pn_spawned w = []"
    using single_start [of w i] by (auto simp: append_eq_Cons_conv)
  with w show ?thesis by (auto simp: start_ios_spawned_def panel_wf_def panel_defs live_def)
qed

lemma install_wf: "panel_wf w \<Longrightarrow> i \<in> set (pn_spawned w) \<Longrightarrow> panel_wf (fst (start_ios_install i w))"
proof -
  assume w: "panel_wf w" and i: "i \<in> set (pn_spawned w)"
  then have s: "is_session (pn_store w) = Some SlotStarting" "pn_starting w = []" "pn_spawned w = [i]"
    using single_start [of w i] by (auto simp: append_eq_Cons_conv)
  with w show ?thesis by (auto simp: start_ios_install_def panel_wf_def panel_defs live_def)
qed

lemma panel_step_wf: "panel_step w w' \<Longrightarrow> \<not> pn_closed w' \<Longrightarrow> (\<not> pn_closed w \<longrightarrow> panel_wf w) \<Longrightarrow> panel_wf w' \<and> \<not> pn_closed w"
proof (induction rule: panel_step.induct)
  case (Begin w b device_id)
  have "pn_closed (fst (start_ios_begin b device_id w)) = pn_closed w"
    by (auto simp: start_ios_begin_def Let_def panel_defs split: sum.splits)
  with Begin begin_wf show ?case by simp
next
  case (Failed i w why)
  have "pn_closed (fst (start_ios_failed i why w)) = pn_closed w" by (simp add: start_ios_failed_def panel_defs)
  with Failed failed_wf show ?case by simp
next
  case (Spawned i w)
  have "pn_closed (start_ios_spawned i w) = pn_closed w" by (simp add: start_ios_spawned_def)
  with Spawned spawned_wf show ?case by simp
next
  case (Install i w)
  have "pn_closed (fst (start_ios_install i w)) = pn_closed w"
    by (simp add: start_ios_install_def Let_def panel_defs tell_stop_def)
  with Install install_wf show ?case by simp
next
  case (Reclaim w)
  then show ?case by (auto simp: reclaim_ios_def Let_def tell_stop_def panel_defs split: option.splits IosSlot.splits)
next
  case (Stop w)
  note sb = same_books_stop [of w]
  from same_books_closed [OF sb] same_books_wf [OF sb] Stop.prems show ?case by simp
next
  case (Moves w i v v')
  note sb = same_books_moves [OF Moves.hyps]
  from same_books_closed [OF sb] same_books_wf [OF sb] Moves.prems show ?case by simp
next
  case (PollBegin w t)
  note sb = same_books_poll_begin [of w t]
  from same_books_closed [OF sb] same_books_wf [OF sb] PollBegin.prems show ?case by simp
next
  case (PollEnd w ticket a)
  note sb = same_books_poll_end [of w ticket a]
  from same_books_closed [OF sb] same_books_wf [OF sb] PollEnd.prems show ?case by simp
next
  case (Load k w apps)
  note sb = same_books_load_ends [of w k apps]
  from same_books_closed [OF sb] same_books_wf [OF sb] Load.prems show ?case by simp
qed

lemma panel_run_wf: "panel_run w \<Longrightarrow> \<not> pn_closed w \<Longrightarrow> panel_wf w"
proof (induction rule: panel_run.induct)
  case First
  then show ?case by (simp add: panel_wf_def panel_start_def live_def)
next
  case (Next w w')
  with panel_step_wf show ?case by blast
qed

section \<open>Properties\<close>

text \<open>
  C2. One iOS session at a time. However the commands, the blocking parts of the starts, the sessions
  and the polls interleave, until the program closes at most one session is alive of all that were
  ever started. If it has been put into the store, or the store is shown as live for any other
  reason, a second start is refused and spawns nothing; a stop reaches the session that is in the
  store.
\<close>

theorem single_ios_session:
  assumes "panel_run w" and "\<not> pn_closed w" and "live w i"
  shows "(live w j \<longrightarrow> j = i) \<and>
    (is_session (pn_store w) = Some (SlotHandle i) \<or> is_session (pn_store w) = Some SlotStarting \<and> pn_spawned w = [i]) \<and>
    pn_starting w = [] \<and>
    (case start_ios_begin b device_id w of (w', r) \<Rightarrow> \<not> isOk r \<and> pn_starting w' = [] \<and> is_session (pn_store w') = is_session (pn_store w)) \<and>
    (pn_spawned w = [] \<longrightarrow> iv_told (handle_view (fst (stop_ios_session w)) i))"
proof -
  have wf: "panel_wf w" using panel_run_wf assms(1,2) .
  have place: "is_session (pn_store w) = Some (SlotHandle k) \<and> pn_starting w = [] \<and> pn_spawned w = [] \<or>
      is_session (pn_store w) = Some SlotStarting \<and> pn_starting w = [] \<and> pn_spawned w = [k]" if "live w k" for k
  proof (cases "k \<in> set (pn_spawned w)")
    case True
    then show ?thesis using single_start [OF wf, of k] by (auto simp: append_eq_Cons_conv)
  next
    case False
    with wf that have "is_session (pn_store w) = Some (SlotHandle k)" by (auto simp: panel_wf_def)
    with wf show ?thesis by (simp add: panel_wf_def)
  qed
  note p = place [OF assms(3)]
  have "live w j \<longrightarrow> j = i" using place [of j] p by auto
  moreover have "case start_ios_begin b device_id w of (w', r) \<Rightarrow> \<not> isOk r \<and> pn_starting w' = [] \<and> is_session (pn_store w') = is_session (pn_store w)"
  proof (cases "ios_launch_allowed b")
    case (Inl e)
    with p show ?thesis by (auto simp: start_ios_begin_def)
  next
    case (Inr u)
    from assms(3) obtain v where v: "pn_handles w i = Some v" "ios_session_is_live (iv_status v)" by (auto simp: live_def)
    from p show ?thesis
      by (elim disjE) (use Inr v in \<open>auto simp: start_ios_begin_def Let_def panel_defs handle_view_def\<close>)
  qed
  moreover have "iv_told (handle_view (fst (stop_ios_session w)) i)" if "pn_spawned w = []"
  proof -
    from assms(3) obtain v where v: "pn_handles w i = Some v" by (auto simp: live_def)
    have "is_session (pn_store w) = Some (SlotHandle i)" using p that by auto
    with v show ?thesis by (simp add: stop_ios_session_def Let_def panel_defs tell_stop_def handle_view_def)
  qed
  ultimately show ?thesis using p by auto
qed

definition linux_build :: build where
  "linux_build = \<lparr>on_windows = False, on_macos = False, debug_build = False, env_var = (\<lambda>_. None)\<rparr>"

text \<open>One session, put into the store, and running.\<close>

definition panel_spawned :: panel where
  "panel_spawned = start_ios_spawned 1 (fst (start_ios_begin linux_build ''U'' panel_start))"

definition panel_running :: panel where
  "panel_running = (let w = fst (start_ios_install 1 panel_spawned) in
     w\<lparr>pn_handles := (pn_handles w)(1 := Some (fresh_view\<lparr>iv_status := IosRunning 4000, iv_client := True\<rparr>))\<rparr>)"

lemmas panel_demo = linux_build_def panel_spawned_def panel_running_def start_ios_begin_def ios_launch_allowed_def panel_start_def
  panel_defs start_ios_spawned_def start_ios_install_def fresh_view_def Let_def

lemma panel_spawned_run: "panel_run panel_spawned"
  unfolding panel_spawned_def
  by (intro panel_run.Next [OF _ panel_step.Spawned] panel_run.Next [OF panel_run.First panel_step.Begin])
    (simp add: panel_demo)

lemma panel_running_run: "panel_run panel_running"
  unfolding panel_running_def Let_def
  by (intro panel_run.Next [OF _ panel_step.Moves [where v = fresh_view]] panel_run.Next [OF panel_spawned_run panel_step.Install])
    (simp_all add: panel_demo session_moves_def)

theorem single_ios_session_witness:
  "iv_told (handle_view (fst (stop_ios_session panel_running)) 1) \<and>
   (case start_ios_begin linux_build ''V'' panel_running of (_, r) \<Rightarrow> \<not> isOk r)"
proof -
  have "\<not> pn_closed panel_running" "live panel_running 1" "pn_spawned panel_running = []"
    by (simp_all add: panel_demo live_def)
  with single_ios_session [OF panel_running_run, of 1 1 linux_build "''V''"] show ?thesis
    by (auto split: prod.splits)
qed

text \<open>
  C38. A stop that comes while the session is being started is lost for good, although it is answered
  with success: the session is put into the store afterwards, alive and not asked to stop. What the
  stop did do is to forget the device, so the names of the applications are never loaded for this
  session either.
\<close>

theorem stop_while_starting_is_lost:
  assumes "is_session (pn_store w) = Some SlotStarting" and "pn_handles w i = Some v"
  shows "snd (stop_ios_session w) = Inr () \<and>
    (case start_ios_install i (fst (stop_ios_session w)) of (w', r) \<Rightarrow>
       r = Inr () \<and> is_session (pn_store w') = Some (SlotHandle i) \<and> pn_handles w' i = Some v \<and>
       pn_loads (fst (poll_end ticket a w')) = pn_loads w')"
  using assms
  by (simp add: stop_ios_session_def start_ios_install_def Let_def panel_defs poll_end_def spawn_installed_apps_load_def)

theorem stop_while_starting_is_lost_witness:
  "case start_ios_install 1 (fst (stop_ios_session panel_spawned)) of (w', r) \<Rightarrow>
     r = Inr () \<and> live w' 1 \<and> \<not> iv_told (handle_view w' 1)"
proof -
  have "is_session (pn_store panel_spawned) = Some SlotStarting" "pn_handles panel_spawned 1 = Some fresh_view"
    by (simp_all add: panel_demo)
  from stop_while_starting_is_lost [OF this] show ?thesis
    by (auto simp: live_def handle_view_def fresh_view_def split: prod.splits)
qed

text \<open>
  A refused start still changes which device the running session belongs to: the store then names
  the other device, and if the names of the applications were not asked for yet, the next poll of the
  running session lists those of the other device and takes them for its own.
\<close>

theorem refused_start_changes_device:
  assumes "isOk (ios_launch_allowed b)" and "is_session (pn_store w) = Some (SlotHandle i)"
    and "iv_status (handle_view w i) = IosRunning port" and "im_installed_requested (is_meta (pn_store w)) \<noteq> Some i"
  shows "case start_ios_begin b other w of (w', r) \<Rightarrow>
    r = Inl ''ios_session_already_running'' \<and> is_device_id (pn_store w') = Some other \<and>
    (\<exists>ticket. snd (poll_begin t w') = Inr ticket \<and>
       pn_loads (fst (poll_end ticket a (fst (poll_begin t w')))) = pn_loads w @ [(i, other)])"
proof -
  obtain u where b: "ios_launch_allowed b = Inr u" using assms(1) by (cases "ios_launch_allowed b") simp_all
  have e: "start_ios_begin b other w = (set_device (Some other) w, Inl ''ios_session_already_running'')"
    using assms(2,3) by (simp add: start_ios_begin_def b Let_def panel_defs handle_view_def)
  let ?w = "set_device (Some other) w"
  obtain w1 ticket where p: "poll_begin t ?w = (w1, Inr ticket)" "tk_session ticket = i"
    "is_device_id (pn_store w1) = Some other" "im_installed_requested (is_meta (pn_store w1)) \<noteq> Some i" "pn_loads w1 = pn_loads w"
    using assms(2-4) by (simp add: poll_begin_def Let_def panel_defs handle_view_def ios_idle_dto_def)
  have m: "im_installed_requested (take_answers ticket a m) = im_installed_requested m" for m
    by (simp add: take_answers_def Let_def split: option.splits)
  have "pn_loads (fst (poll_end ticket a w1)) = pn_loads w @ [(i, other)]"
    using p(2-) by (simp add: poll_end_def Let_def spawn_installed_apps_load_def panel_defs m)
  with p(1) show ?thesis by (simp add: e panel_defs)
qed

theorem refused_start_changes_device_witness:
  "case start_ios_begin linux_build ''V'' panel_running of (w', _) \<Rightarrow> is_device_id (pn_store w') = Some ''V''"
proof -
  have "isOk (ios_launch_allowed linux_build)" "is_session (pn_store panel_running) = Some (SlotHandle 1)"
    "iv_status (handle_view panel_running 1) = IosRunning 4000"
    "im_installed_requested (is_meta (pn_store panel_running)) \<noteq> Some 1"
    by (simp_all add: panel_demo handle_view_def default_meta_def)
  from refused_start_changes_device [OF this, of "''V''" 0 "\<lparr>an_locked = None, an_window = None, an_active = None\<rparr>"]
  show ?thesis by auto
qed

text \<open>
  C39. Closing the program can leave a session behind. The placeholder of a start is taken for nothing
  to stop; the start then completes after the store was emptied, and its session runs on in the store,
  alive and not asked to stop, when there is no later clean-up.
\<close>

theorem late_ios_start_survives_closing:
  "\<exists>w w'. panel_run w \<and> is_session (pn_store w) = Some SlotStarting \<and> reclaim_ios w = (w', []) \<and>
     (\<exists>u. panel_run u \<and> pn_closed u \<and> live u 1 \<and> \<not> iv_told (handle_view u 1) \<and>
        u = fst (start_ios_install 1 (start_ios_spawned 1 w')))"
proof -
  let ?w = "fst (start_ios_begin linux_build ''U'' panel_start)"
  let ?c = "fst (reclaim_ios ?w)"
  let ?u = "fst (start_ios_install 1 (start_ios_spawned 1 ?c))"
  have w: "panel_run ?w" by (rule panel_run.Next [OF panel_run.First panel_step.Begin])
  have c: "panel_run ?c" by (rule panel_run.Next [OF w panel_step.Reclaim])
  have "panel_run ?u"
    by (intro panel_run.Next [OF _ panel_step.Install] panel_run.Next [OF c panel_step.Spawned])
      (simp_all add: panel_demo reclaim_ios_def)
  moreover have "is_session (pn_store ?w) = Some SlotStarting" "reclaim_ios ?w = (?c, [])" "pn_closed ?u" "live ?u 1"
    "\<not> iv_told (handle_view ?u 1)"
    by (simp_all add: panel_demo reclaim_ios_def live_def handle_view_def)
  ultimately show ?thesis using w by blast
qed

text \<open>
  The device identifier stays inside: neither a final status of a poll nor what a poll goes on
  with nor the status it ends with depends on the identifier in the store.
\<close>

theorem udid_never_shown:
  "snd (poll_begin t (set_device d w)) = snd (poll_begin t w) \<and>
   snd (poll_end ticket a (set_device d w)) = snd (poll_end ticket a w)"
proof (rule conjI)
  have s: "slot_status (set_device d w) slot = slot_status w slot" for slot by (cases slot) simp_all
  have i: "is_session (pn_store (set_device d w)) = is_session (pn_store w)" "is_meta (pn_store (set_device d w)) = is_meta (pn_store w)"
    by (simp_all add: panel_defs)
  show "snd (poll_begin t (set_device d w)) = snd (poll_begin t w)"
    unfolding poll_begin_def i by (simp add: s Let_def i cong: option.case_cong IosSlot.case_cong split: option.split prod.split)
  show "snd (poll_end ticket a (set_device d w)) = snd (poll_end ticket a w)"
    by (simp add: poll_end_def Let_def i)
qed

text \<open>
  C0. Two listings of the applications of one device can run at the same time: the mark that one was
  started goes with the other values of the session when a poll finds the session over, so a session
  that is started again on the device starts a second listing while the first is still running.
\<close>

definition no_answers :: poll_answers where
  "no_answers = \<lparr>an_locked = None, an_window = None, an_active = None\<rparr>"

definition polled :: "panel \<Rightarrow> panel" where
  "polled w =
     (case poll_begin 0 w of
        (w, Inl _) \<Rightarrow> w
      | (w, Inr ticket) \<Rightarrow> fst (poll_end ticket no_answers w))"

lemma polled_run: "panel_run w \<Longrightarrow> panel_run (polled w)"
proof -
  assume w: "panel_run w"
  obtain w1 r where p: "poll_begin 0 w = (w1, r)" by (cases "poll_begin 0 w")
  with panel_run.Next [OF w panel_step.PollBegin, of 0] have "panel_run w1" by simp
  then show ?thesis using p by (cases r) (auto simp: polled_def intro: panel_run.Next panel_step.PollEnd)
qed

definition moved :: "nat \<Rightarrow> IosSessionStatus \<Rightarrow> panel \<Rightarrow> panel" where
  "moved i s w = w\<lparr>pn_handles := (pn_handles w)(i := Some ((handle_view w i)\<lparr>iv_status := s\<rparr>))\<rparr>"

lemma moved_run: "panel_run w \<Longrightarrow> pn_handles w i = Some v \<Longrightarrow> iv_status v \<le> s \<Longrightarrow> panel_run (moved i s w)"
  by (rule panel_run.Next) (auto simp: moved_def handle_view_def session_moves_def intro!: panel_step.Moves)

definition started_again :: panel where
  "started_again = fst (start_ios_install 2 (start_ios_spawned 2 (fst (start_ios_begin linux_build ''U''
     (polled (moved 1 (IosExited Requested) (polled panel_running)))))))"

theorem names_loaded_twice:
  "panel_run (polled (moved 2 (IosRunning 4001) started_again)) \<and>
   pn_loads (polled (moved 2 (IosRunning 4001) started_again)) = [(1, ''U''), (2, ''U'')]"
proof (rule conjI)
  note d = panel_demo moved_def polled_def started_again_def poll_begin_def poll_end_def handle_view_def ios_idle_dto_def
    take_answers_def spawn_installed_apps_load_def default_meta_def no_answers_def
  have 1: "panel_run (polled (moved 1 (IosExited Requested) (polled panel_running)))"
    by (intro polled_run moved_run [where v = "fresh_view\<lparr>iv_status := IosRunning 4000, iv_client := True\<rparr>"] panel_running_run)
      (simp_all add: d)
  have 2: "panel_run started_again"
    unfolding started_again_def
    by (intro panel_run.Next [OF _ panel_step.Install] panel_run.Next [OF _ panel_step.Spawned] panel_run.Next [OF 1 panel_step.Begin])
      (simp_all add: d)
  show "panel_run (polled (moved 2 (IosRunning 4001) started_again))"
    by (intro polled_run moved_run [where v = fresh_view] 2) (simp_all add: d)
  show "pn_loads (polled (moved 2 (IosRunning 4001) started_again)) = [(1, ''U''), (2, ''U'')]"
    by (simp add: d)
qed

end
