(* ===== verification/GuiSessions.thy ===== *)
theory GuiSessions
  imports GuiIos AdbProbe
begin

text \<open>
  The desktop program (\<open>quadcontrol-gui\<close>, \<open>lib.rs\<close>): the list of devices, the store of the Android
  sessions with its commands, and the end of the program, which reclaims the sessions of both kinds
  and the worker of a pairing. As in \<open>GuiIos\<close>, a start is split where it waits for its blocking part.
\<close>

section \<open>The list of devices\<close>

record DeviceDto =
  dd_id :: string
  dd_name :: string
  dd_platform :: string
  dd_status :: string
  dd_detail :: "string option"

record DeviceListDto =
  dl_devices :: "DeviceDto list"
  dl_android_error :: "string option"
  dl_ios_error :: "string option"

fun android_status :: "DeviceState \<Rightarrow> string" where
  "android_status Device = ''available''"
| "android_status Unauthorized = ''unauthorized''"
| "android_status Offline = ''offline''"
| "android_status (Other _) = ''other''"

fun adb_list_code :: "ExecutionError \<Rightarrow> string" where
  "adb_list_code AdbNotFound = ''adb_not_found''"
| "adb_list_code (TimedOut _) = ''adb_timed_out''"
| "adb_list_code _ = ''adb_failed''"

definition list_android_devices :: "(string \<Rightarrow> string option) \<Rightarrow> host \<Rightarrow> (host \<times> (string + Device list)) option" where
  "list_android_devices env h =
     (case system_run (system_runner_new (resolve_adb env None)) h DevicesLong of
        None \<Rightarrow> None
      | Some (h, Inl error) \<Rightarrow> Some (h, Inl (adb_list_code error))
      | Some (h, Inr output) \<Rightarrow>
          Some (h, if co_status output \<noteq> 0 then Inl ''adb_failed''
                   else mapErr (\<lambda>_. ''adb_failed'') (parse_devices (co_stdout output))))"

fun ios_list_code :: "IosError \<Rightarrow> string" where
  "ios_list_code (IosNotFound _) = ''ios_not_found''"
| "ios_list_code other = ios_error_code other"

definition list_ios_devices :: "(string \<Rightarrow> string option) \<Rightarrow> host \<Rightarrow> (host \<times> (string + IosDevice list)) option" where
  "list_ios_devices env h =
     map_option (\<lambda>(h, r). (h, mapErr ios_list_code r)) (list_devices (resolve_ios env None) h)"

definition android_dto :: "Device \<Rightarrow> DeviceDto" where
  "android_dto d = \<lparr>dd_id = dev_serial d, dd_name = (case dev_model d of Some m \<Rightarrow> m | None \<Rightarrow> dev_serial d),
     dd_platform = ''android'', dd_status = android_status (dev_state d), dd_detail = None\<rparr>"

definition ios_dto :: "IosDevice \<Rightarrow> DeviceDto" where
  "ios_dto d = \<lparr>dd_id = id_udid d, dd_name = id_name d, dd_platform = ''ios'', dd_status = ''available'', dd_detail = None\<rparr>"

definition listed :: "string + 'a list \<Rightarrow> 'a list" where
  "listed r = (case r of Inl _ \<Rightarrow> [] | Inr ds \<Rightarrow> ds)"

definition error_of :: "string + 'a \<Rightarrow> string option" where
  "error_of r = (case r of Inl why \<Rightarrow> Some why | Inr _ \<Rightarrow> None)"

definition list_devices_blocking :: "(string \<Rightarrow> string option) \<Rightarrow> host \<Rightarrow> (host \<times> DeviceListDto) option" where
  "list_devices_blocking env h =
     (case list_android_devices env h of
        None \<Rightarrow> None
      | Some (h, android) \<Rightarrow>
          (case list_ios_devices env h of
             None \<Rightarrow> None
           | Some (h, ios) \<Rightarrow>
               Some (h, \<lparr>dl_devices = map android_dto (listed android) @ map ios_dto (listed ios),
                         dl_android_error = error_of android, dl_ios_error = error_of ios\<rparr>)))"

section \<open>Android sessions\<close>

fun session_error_code :: "ScrcpyError \<Rightarrow> string" where
  "session_error_code (ScrcpyNotFound _) = ''scrcpy_not_found''"
| "session_error_code (ScrcpyVersion _) = ''scrcpy_version''"
| "session_error_code _ = ''session_start_failed''"

record SessionDto =
  sx_device_id :: string
  sx_state :: string
  sx_exit_code :: "int option"
  sx_stderr_tail :: "string option"

definition truncate_tail :: "string \<Rightarrow> nat \<Rightarrow> string" where
  "truncate_tail s limit = concat (rev (take limit (rev (str_chars s))))"

fun session_dto :: "string \<Rightarrow> SessionStatus \<Rightarrow> SessionDto" where
  "session_dto device_id Running = \<lparr>sx_device_id = device_id, sx_state = ''running'', sx_exit_code = None, sx_stderr_tail = None\<rparr>"
| "session_dto device_id Stopping = \<lparr>sx_device_id = device_id, sx_state = ''stopping'', sx_exit_code = None, sx_stderr_tail = None\<rparr>"
| "session_dto device_id (Exited k _) = \<lparr>sx_device_id = device_id, sx_state = ''exited'', sx_exit_code = Some k, sx_stderr_tail = None\<rparr>"
| "session_dto device_id (Failed _) =
     \<lparr>sx_device_id = device_id, sx_state = ''failed'', sx_exit_code = None, sx_stderr_tail = Some ''session_failed''\<rparr>"

fun session_row :: "string \<Rightarrow> SessionStatus \<Rightarrow> SessionDto" where
  "session_row device_id (Exited k tail) =
     \<lparr>sx_device_id = device_id, sx_state = ''exited'', sx_exit_code = Some k,
      sx_stderr_tail = (if k \<noteq> 0 then Some (truncate_tail tail 2000) else None)\<rparr>"
| "session_row device_id (Failed _) = session_dto device_id (Failed ''session_failed'')"
| "session_row device_id status = session_dto device_id status"

definition gui_scrcpy_options :: "(string \<Rightarrow> string option) \<Rightarrow> string \<Rightarrow> bool \<Rightarrow> bool \<Rightarrow> LaunchOptions" where
  "gui_scrcpy_options env device_id off audio =
     \<lparr>lo_adb = resolve_adb env None, lo_scrcpy = resolve_scrcpy env None, lo_serial = device_id, bit_rate = ''8M'',
      screen_off = off, audio_on_computer = audio, passthrough = [], scrcpy_env = []\<rparr>"

record android_view =
  av_device :: string
  av_status :: SessionStatus
  av_told :: bool

text \<open>The store (the next id and, by device, the ids of handles), the handles, and the starts in flight.\<close>

record desk =
  dk_next_id :: nat
  dk_sessions :: "string \<Rightarrow> nat option"
  dk_handles :: "nat \<Rightarrow> android_view option"
  dk_starting :: "(nat \<times> string) list"
  dk_spawned :: "(nat \<times> string) list"

definition desk_start :: desk where
  "desk_start = \<lparr>dk_next_id = 1, dk_sessions = (\<lambda>_. None), dk_handles = (\<lambda>_. None), dk_starting = [], dk_spawned = []\<rparr>"

fun is_controlling :: "SessionStatus \<Rightarrow> bool" where
  "is_controlling Running = True"
| "is_controlling Stopping = True"
| "is_controlling _ = False"

definition controls :: "desk \<Rightarrow> nat \<Rightarrow> bool" where
  "controls w i = (case dk_handles w i of Some v \<Rightarrow> is_controlling (av_status v) | None \<Rightarrow> False)"

definition occupied :: "desk \<Rightarrow> string \<Rightarrow> bool" where
  "occupied w device_id = (case dk_sessions w device_id of Some i \<Rightarrow> controls w i | None \<Rightarrow> False)"

definition tell_session :: "nat \<Rightarrow> desk \<Rightarrow> desk" where
  "tell_session i w = w\<lparr>dk_handles := (dk_handles w)(i := map_option (av_told_update (\<lambda>_. True)) (dk_handles w i))\<rparr>"

definition start_session_begin :: "bool \<Rightarrow> string \<Rightarrow> desk \<Rightarrow> desk \<times> (string + nat)" where
  "start_session_begin windows device_id w =
     (if windows then (w, Inl ''windows_session_unsupported'')
      else if occupied w device_id then (w, Inl ''session_already_running'')
      else (w\<lparr>dk_sessions := (dk_sessions w)(device_id := None), dk_next_id := dk_next_id w + 1,
              dk_starting := dk_starting w @ [(dk_next_id w, device_id)]\<rparr>, Inr (dk_next_id w)))"

definition start_session_failed :: "nat \<times> string \<Rightarrow> string \<Rightarrow> desk \<Rightarrow> desk \<times> (string + unit)" where
  "start_session_failed x why w = (w\<lparr>dk_starting := remove1 x (dk_starting w)\<rparr>, Inl why)"

definition start_session_spawned :: "nat \<times> string \<Rightarrow> desk \<Rightarrow> desk" where
  "start_session_spawned x w =
     w\<lparr>dk_starting := remove1 x (dk_starting w), dk_spawned := dk_spawned w @ [x],
       dk_handles := (dk_handles w)(fst x := Some \<lparr>av_device = snd x, av_status = Running, av_told = False\<rparr>)\<rparr>"

definition start_session_insert :: "nat \<times> string \<Rightarrow> desk \<Rightarrow> desk \<times> (string + unit)" where
  "start_session_insert x w =
     (let w = w\<lparr>dk_spawned := remove1 x (dk_spawned w)\<rparr> in
      if occupied w (snd x) then (tell_session (fst x) w, Inl ''session_already_running'')
      else (w\<lparr>dk_sessions := (dk_sessions w)(snd x \<mapsto> fst x)\<rparr>, Inr ()))"

definition stop_session :: "string \<Rightarrow> desk \<Rightarrow> desk \<times> (string + unit)" where
  "stop_session device_id w =
     (case dk_sessions w device_id of Some i \<Rightarrow> tell_session i w | None \<Rightarrow> w, Inr ())"

text \<open>One entry of \<open>sessions\<close>; the order of the entries is that of the hash map.\<close>

definition shown_session :: "desk \<Rightarrow> string \<Rightarrow> SessionDto option" where
  "shown_session w device_id =
     Option.bind (dk_sessions w device_id) (\<lambda>i.
     map_option (\<lambda>v. session_row device_id (av_status v)) (dk_handles w i))"

text \<open>\<open>reclaim\_sessions\<close>: the store is drained and all that was in it is told.\<close>

definition drain_sessions :: "desk \<Rightarrow> desk" where
  "drain_sessions w =
     w\<lparr>dk_sessions := (\<lambda>_. None),
       dk_handles := (\<lambda>i. if i \<in> ran (dk_sessions w) then map_option (av_told_update (\<lambda>_. True)) (dk_handles w i)
                          else dk_handles w i)\<rparr>"

fun session_phase :: "SessionStatus \<Rightarrow> nat" where
  "session_phase Running = 0"
| "session_phase Stopping = 1"
| "session_phase (Exited _ _) = 2"
| "session_phase (Failed _) = 2"

instantiation SessionStatus :: preorder
begin

definition less_eq_SessionStatus :: "SessionStatus \<Rightarrow> SessionStatus \<Rightarrow> bool" where
  "s \<le> s' \<longleftrightarrow> session_phase s \<le> session_phase s'"

definition less_SessionStatus :: "SessionStatus \<Rightarrow> SessionStatus \<Rightarrow> bool" where
  "s < s' \<longleftrightarrow> session_phase s < session_phase s'"

instance by standard (auto simp: less_eq_SessionStatus_def less_SessionStatus_def)

end

declare less_eq_SessionStatus_def [simp]

interpretation android_statuses: mortal is_controlling
proof unfold_locales
  show "s \<le> s' \<Longrightarrow> is_controlling s' \<Longrightarrow> is_controlling s" for s s'
    by (cases s; cases s') simp_all
qed

inductive desk_step :: "desk \<Rightarrow> desk \<Rightarrow> bool" where
  Begin: "desk_step w (fst (start_session_begin windows device_id w))"
| Failed: "x \<in> set (dk_starting w) \<Longrightarrow> desk_step w (fst (start_session_failed x why w))"
| Spawned: "x \<in> set (dk_starting w) \<Longrightarrow> desk_step w (start_session_spawned x w)"
| Insert: "x \<in> set (dk_spawned w) \<Longrightarrow> desk_step w (fst (start_session_insert x w))"
| Stop: "desk_step w (fst (stop_session device_id w))"
| Moves: "dk_handles w i = Some v \<Longrightarrow> av_status v \<le> s \<Longrightarrow>
    desk_step w (w\<lparr>dk_handles := (dk_handles w)(i \<mapsto> v\<lparr>av_status := s\<rparr>)\<rparr>)"
| Drain: "desk_step w (drain_sessions w)"

inductive desk_run :: "desk \<Rightarrow> bool" where
  First: "desk_run desk_start"
| Next: "desk_run w \<Longrightarrow> desk_step w w' \<Longrightarrow> desk_run w'"

section \<open>Reclaiming everything\<close>

text \<open>The wait for the worker of a pairing; \<open>active\<close> says whether it still runs at a moment.\<close>

function pairing_drain :: "(nat \<Rightarrow> bool) \<Rightarrow> nat \<Rightarrow> clock \<Rightarrow> clock" where
  "pairing_drain active cancelled_at c =
     (if now c - cancelled_at < PAIRING_SHUTDOWN_DEADLINE \<and> active (now c)
      then pairing_drain active cancelled_at (os_sleep 25 c) else c)"
  by pat_completeness auto
termination
  by (relation "measure (\<lambda>(active, cancelled_at, c). cancelled_at + PAIRING_SHUTDOWN_DEADLINE - now c)") auto

declare pairing_drain.simps [simp del]

definition reclaim_sessions ::
  "(nat \<Rightarrow> bool) \<Rightarrow> SessionHandle list \<Rightarrow> IosSessionHandle list \<Rightarrow> clock \<Rightarrow>
   clock \<times> SessionHandle list \<times> IosSessionHandle list \<times> nat" where
  "reclaim_sessions active handles ios_handles c =
     (let cancelled_at = now c;
          handles = map (\<lambda>h. fst (request_stop c h)) handles;
          ios_handles = map (\<lambda>h. fst (ios_request_stop c h)) ios_handles;
          deadline_at = now c + max SHUTDOWN_DEADLINE IOS_SHUTDOWN_DEADLINE;
          (c, handles, late) = shutdown_all handles (deadline_at - now c) c;
          (c, ios_handles, ios_late) = ios_shutdown_all ios_handles (deadline_at - now c) c
      in (pairing_drain active cancelled_at c, handles, ios_handles, length late + length ios_late))"

text \<open>The command \<open>ping\<close>, with the version the package was built with.\<close>

definition ping :: "string \<Rightarrow> string" where
  "ping version = ''QuadControl GUI '' @ version"

section \<open>The end of the program\<close>

definition EXIT_WAIT_BUDGET :: nat where "EXIT_WAIT_BUDGET = 15000"

text \<open>
  The two flags, whether the clean-up runs on the other thread, how often it was started, and whether
  the event loop is over. At the last event the wait for the other thread ends when it is done, or
  after \<open>EXIT\_WAIT\_BUDGET\<close>; the event says which.
\<close>

record exit_state =
  ex_started :: bool
  ex_done :: bool
  ex_working :: bool
  ex_reclaims :: nat
  ex_over :: bool
  ex_gave_up :: bool

datatype exit_event = ExitRequested | CloseRequested | WorkerDone | ExitEvent bool

definition begin_shutdown :: "exit_state \<Rightarrow> exit_state" where
  "begin_shutdown s =
     (if ex_started s then s else s\<lparr>ex_started := True, ex_working := True, ex_reclaims := ex_reclaims s + 1\<rparr>)"

text \<open>The second result: is the exit or the closing of the window held back?\<close>

fun on_event :: "exit_event \<Rightarrow> exit_state \<Rightarrow> exit_state \<times> bool" where
  "on_event ExitRequested s = (if ex_done s then (s, False) else (begin_shutdown s, True))"
| "on_event CloseRequested s = (if ex_done s then (s, False) else (begin_shutdown s, True))"
| "on_event WorkerDone s = (if ex_working s then (s\<lparr>ex_working := False, ex_done := True\<rparr>, False) else (s, False))"
| "on_event (ExitEvent finished) s =
     (if ex_done s then (s\<lparr>ex_over := True\<rparr>, False)
      else if ex_started s
      then (if finished then (s\<lparr>ex_working := False, ex_done := True, ex_over := True\<rparr>, False)
            else (s\<lparr>ex_over := True, ex_gave_up := True\<rparr>, False))
      else (s\<lparr>ex_started := True, ex_reclaims := ex_reclaims s + 1, ex_done := True, ex_over := True\<rparr>, False))"

definition exit_start :: exit_state where
  "exit_start = \<lparr>ex_started = False, ex_done = False, ex_working = False, ex_reclaims = 0, ex_over = False, ex_gave_up = False\<rparr>"

definition on_events :: "exit_event list \<Rightarrow> exit_state" where
  "on_events es = fold (\<lambda>e s. fst (on_event e s)) es exit_start"

section \<open>Every session is in reach\<close>

definition desk_wf :: "desk \<Rightarrow> bool" where
  "desk_wf w \<longleftrightarrow>
     (\<forall>i v. dk_handles w i = Some v \<longrightarrow> is_controlling (av_status v) \<longrightarrow> \<not> av_told v \<longrightarrow>
        dk_sessions w (av_device v) = Some i \<or> (i, av_device v) \<in> set (dk_spawned w)) \<and>
     (\<forall>d i. dk_sessions w d = Some i \<longrightarrow> (\<exists>v. dk_handles w i = Some v \<and> av_device v = d)) \<and>
     (\<forall>i. dk_handles w i \<noteq> None \<longrightarrow> i < dk_next_id w) \<and>
     (\<forall>x \<in> set (dk_starting w). fst x < dk_next_id w \<and> dk_handles w (fst x) = None) \<and>
     distinct (map fst (dk_starting w)) \<and> distinct (map fst (dk_spawned w)) \<and>
     (\<forall>x \<in> set (dk_spawned w). \<exists>v. dk_handles w (fst x) = Some v \<and> av_device v = snd x)"

lemma desk_wfD:
  assumes "desk_wf w"
  shows "dk_handles w i = Some v \<Longrightarrow> is_controlling (av_status v) \<Longrightarrow> \<not> av_told v \<Longrightarrow>
      dk_sessions w (av_device v) = Some i \<or> (i, av_device v) \<in> set (dk_spawned w)"
    "dk_sessions w d = Some i \<Longrightarrow> \<exists>v. dk_handles w i = Some v \<and> av_device v = d"
    "dk_handles w i = Some v \<Longrightarrow> i < dk_next_id w"
    "x \<in> set (dk_starting w) \<Longrightarrow> fst x < dk_next_id w \<and> dk_handles w (fst x) = None"
    "distinct (map fst (dk_starting w))" "distinct (map fst (dk_spawned w))"
    "x \<in> set (dk_spawned w) \<Longrightarrow> \<exists>v. dk_handles w (fst x) = Some v \<and> av_device v = snd x"
  using assms by (auto simp: desk_wf_def)

lemma desk_wfI:
  assumes "\<And>i v. dk_handles w i = Some v \<Longrightarrow> is_controlling (av_status v) \<Longrightarrow> \<not> av_told v \<Longrightarrow>
      dk_sessions w (av_device v) = Some i \<or> (i, av_device v) \<in> set (dk_spawned w)"
    "\<And>d i. dk_sessions w d = Some i \<Longrightarrow> \<exists>v. dk_handles w i = Some v \<and> av_device v = d"
    "\<And>i v. dk_handles w i = Some v \<Longrightarrow> i < dk_next_id w"
    "\<And>x. x \<in> set (dk_starting w) \<Longrightarrow> fst x < dk_next_id w \<and> dk_handles w (fst x) = None"
    "distinct (map fst (dk_starting w))" "distinct (map fst (dk_spawned w))"
    "\<And>x. x \<in> set (dk_spawned w) \<Longrightarrow> \<exists>v. dk_handles w (fst x) = Some v \<and> av_device v = snd x"
  shows "desk_wf w"
  using assms unfolding desk_wf_def by blast

text \<open>Changes to the handles that make no session live again.\<close>

lemma handles_wf:
  assumes "desk_wf w"
    and "\<And>i. (dk_handles w i = None) = (hs i = None)"
    and "\<And>i v v'. dk_handles w i = Some v \<Longrightarrow> hs i = Some v' \<Longrightarrow> av_device v' = av_device v \<and>
      (is_controlling (av_status v') \<and> \<not> av_told v' \<longrightarrow> is_controlling (av_status v) \<and> \<not> av_told v)"
  shows "desk_wf (w\<lparr>dk_handles := hs\<rparr>)"
proof -
  note D = desk_wfD [OF assms(1)]
  have some: "\<exists>v. dk_handles w i = Some v" if "hs i = Some v'" for i v' using assms(2) [of i] that by auto
  have some': "\<exists>v'. hs i = Some v' \<and> av_device v' = av_device v" if "dk_handles w i = Some v" for i v
    using assms(2) [of i] assms(3) [OF that] that by auto
  show ?thesis
  proof (rule desk_wfI, goal_cases)
    case (1 i v')
    then obtain v where v: "dk_handles w i = Some v" using some by auto
    from assms(3) [OF v, of v'] 1 have "av_device v' = av_device v" "is_controlling (av_status v)" "\<not> av_told v" by auto
    with D(1) [OF v] show ?case by auto
  next
    case (2 d i)
    then show ?case using D(2) some' by (metis desk.select_convs(2,3) desk.surjective desk.update_convs(3))
  next
    case (3 i v)
    then obtain u where "dk_handles w i = Some u" using some by auto
    from D(3) [OF this] show ?case by simp
  next
    case (4 x)
    then show ?case using D(4) assms(2) by auto
  next
    case (7 x)
    then have "x \<in> set (dk_spawned w)" by simp
    from D(7) [OF this] obtain v where "dk_handles w (fst x) = Some v" "av_device v = snd x" by blast
    with some' show ?case by fastforce
  qed (use D(5,6) in simp_all)
qed

lemma tell_session_wf: "desk_wf w \<Longrightarrow> desk_wf (tell_session i w)"
  unfolding tell_session_def by (rule handles_wf) (auto split: if_splits)

lemma begin_desk_wf: "desk_wf w \<Longrightarrow> desk_wf (fst (start_session_begin windows device_id w))"
proof -
  assume w: "desk_wf w"
  note D = desk_wfD [OF w]
  show ?thesis
  proof (cases "windows \<or> occupied w device_id")
    case True
    with w show ?thesis by (auto simp: start_session_begin_def)
  next
    case False
    let ?w = "w\<lparr>dk_sessions := (dk_sessions w)(device_id := None), dk_next_id := dk_next_id w + 1,
              dk_starting := dk_starting w @ [(dk_next_id w, device_id)]\<rparr>"
    have free: "dk_sessions w (av_device v) = Some i \<Longrightarrow> dk_handles w i = Some v \<Longrightarrow> is_controlling (av_status v) \<Longrightarrow>
        av_device v \<noteq> device_id" for i v
      using False by (auto simp: occupied_def controls_def)
    have new: "dk_handles w (dk_next_id w) = None" using D(3) by (metis less_irrefl not_None_eq)
    have "desk_wf ?w"
    proof (rule desk_wfI, goal_cases)
      case (1 i v)
      with D(1) [of i v] free [of v i] show ?case by auto
    next
      case (2 d i)
      with D(2) [of d i] show ?case by (auto split: if_splits)
    next
      case (3 i v)
      with D(3) [of i v] show ?case by auto
    next
      case (4 x)
      with D(4) [of x] new show ?case by auto
    next
      case 5
      have "dk_next_id w \<notin> fst ` set (dk_starting w)" using D(4) by fastforce
      with D(5) show ?case by simp
    qed (use D(6,7) in auto)
    with False show ?thesis by (simp add: start_session_begin_def)
  qed
qed

lemma remove1_distinct: "distinct (map fst xs) \<Longrightarrow> distinct (map fst (remove1 x xs))"
  by (induction xs) (auto dest: notin_set_remove1 set_mp [OF set_remove1_subset])

lemma failed_desk_wf: "desk_wf w \<Longrightarrow> desk_wf (fst (start_session_failed x why w))"
proof (unfold start_session_failed_def fst_conv, rule desk_wfI, goal_cases)
  case (4 y)
  then show ?case using desk_wfD(4) [of w y] set_mp [OF set_remove1_subset] by fastforce
qed (auto dest: desk_wfD intro: remove1_distinct)

lemma spawned_desk_wf: "desk_wf w \<Longrightarrow> x \<in> set (dk_starting w) \<Longrightarrow> desk_wf (start_session_spawned x w)"
proof -
  assume w: "desk_wf w" and x: "x \<in> set (dk_starting w)"
  note D = desk_wfD [OF w]
  note x' = D(4) [OF x]
  have gone: "fst y \<noteq> fst x" if "y \<in> set (remove1 x (dk_starting w))" for y
    using D(5) x that by (induction "dk_starting w") (auto simp: distinct_map inj_on_def split: if_splits)
  show ?thesis unfolding start_session_spawned_def
  proof (rule desk_wfI, goal_cases)
    case (1 i v)
    with D(1) [of i v] show ?case by (cases x) (auto split: if_splits)
  next
    case (2 d i)
    with D(2) [of d i] x' show ?case by auto
  next
    case (3 i v)
    with D(3) [of i] x' show ?case by (auto split: if_splits)
  next
    case (4 y)
    with D(4) [of y] gone [of y] show ?case by (auto dest: set_mp [OF set_remove1_subset])
  next
    case 5
    with D(5) show ?case by (auto intro: remove1_distinct)
  next
    case 6
    have "fst x \<notin> fst ` set (dk_spawned w)" using D(7) x' by fastforce
    with D(6) show ?case by simp
  next
    case (7 y)
    with D(7) [of y] x' show ?case by auto
  qed
qed

lemma insert_desk_wf: "desk_wf w \<Longrightarrow> x \<in> set (dk_spawned w) \<Longrightarrow> desk_wf (fst (start_session_insert x w))"
proof -
  assume w: "desk_wf w" and x: "x \<in> set (dk_spawned w)"
  note D = desk_wfD [OF w]
  obtain u where u: "dk_handles w (fst x) = Some u" "av_device u = snd x" using D(7) [OF x] by blast
  let ?w = "w\<lparr>dk_spawned := remove1 x (dk_spawned w)\<rparr>"
  have other: "y = x \<or> y \<in> set (remove1 x (dk_spawned w))" if "y \<in> set (dk_spawned w)" for y
    using that by (cases "y = x") (auto simp: in_set_remove1)
  have sub: "y \<in> set (remove1 x (dk_spawned w)) \<Longrightarrow> y \<in> set (dk_spawned w)" for y by (meson notin_set_remove1)
  show ?thesis
  proof (cases "occupied ?w (snd x)")
    case True
    have "desk_wf (tell_session (fst x) ?w)" unfolding tell_session_def
    proof (rule desk_wfI, goal_cases)
      case (1 i v)
      then have i: "i \<noteq> fst x" using u by (auto split: if_splits)
      with 1 D(1) [of i v] other [of "(i, av_device v)"] show ?case by auto
    next
      case (2 d i)
      with D(2) [of d i] u show ?case by auto
    next
      case (3 i v)
      with D(3) [of i] u show ?case by (cases "i = fst x") auto
    next
      case (4 y)
      with D(4) [of y] u show ?case by auto
    next
      case (7 y)
      with D(7) [of y] sub [of y] u show ?case by auto
    qed (use D(5,6) in \<open>auto intro: remove1_distinct\<close>)
    with True show ?thesis by (simp add: start_session_insert_def Let_def)
  next
    case False
    have idle: "\<not> is_controlling (av_status v)" if "dk_sessions w (snd x) = Some i" "dk_handles w i = Some v" for i v
      using False that by (simp add: occupied_def controls_def)
    have "desk_wf (?w\<lparr>dk_sessions := (dk_sessions ?w)(snd x \<mapsto> fst x)\<rparr>)"
    proof (rule desk_wfI, goal_cases)
      case (1 i v)
      with D(1) [of i v] idle [of i v] other [of "(i, av_device v)"] show ?case by (cases x) auto
    next
      case (2 d i)
      with D(2) [of d i] u show ?case by (auto split: if_splits)
    next
      case (7 y)
      with D(7) [of y] sub [of y] show ?case by auto
    qed (use D(3-6) in \<open>auto intro: remove1_distinct\<close>)
    with False show ?thesis by (simp add: start_session_insert_def Let_def)
  qed
qed

lemma drain_desk_wf: "desk_wf w \<Longrightarrow> desk_wf (drain_sessions w)"
proof (unfold drain_sessions_def, rule desk_wfI, goal_cases)
  case (1 i v)
  show ?case
  proof (cases "i \<in> ran (dk_sessions w)")
    case True
    with 1 show ?thesis by auto
  next
    case False
    with 1 have "dk_handles w i = Some v" by simp
    with 1 False desk_wfD(1) [of w i v] show ?thesis by (auto simp: ran_def)
  qed
next
  case (3 i v)
  then show ?case using desk_wfD(3) [of w i] by (auto split: if_splits)
next
  case (4 x)
  then show ?case using desk_wfD(4) [of w x] by auto
next
  case (7 x)
  then show ?case using desk_wfD(7) [of w x] by auto
qed (use desk_wfD in auto)

lemma desk_step_wf: "desk_step w w' \<Longrightarrow> desk_wf w \<Longrightarrow> desk_wf w'"
proof (induction rule: desk_step.induct)
  case (Stop w device_id)
  then show ?case by (auto simp: stop_session_def tell_session_wf split: option.splits)
next
  case (Moves w i v s)
  have "is_controlling s \<Longrightarrow> is_controlling (av_status v)" by (rule android_statuses.dies_once [OF Moves.hyps(2)])
  with Moves show ?case by (intro handles_wf) (auto split: if_splits)
qed (auto intro: begin_desk_wf failed_desk_wf spawned_desk_wf insert_desk_wf drain_desk_wf)

lemma desk_run_wf: "desk_run w \<Longrightarrow> desk_wf w"
proof (induction rule: desk_run.induct)
  case First
  show ?case by (simp add: desk_wf_def desk_start_def)
qed (rule desk_step_wf)

section \<open>The clean-up is bounded\<close>

lemma pairing_drain_time: "pairing_drain active a c = c' \<Longrightarrow> \<forall>t. lag c t \<le> J \<Longrightarrow> a \<le> now c \<Longrightarrow>
  now c \<le> now c' \<and> lag c' = lag c \<and> now c' \<le> max (now c) (a + PAIRING_SHUTDOWN_DEADLINE + 25 + J)"
proof (induction active a c rule: pairing_drain.induct)
  case (1 active a c)
  note unf = pairing_drain.simps [of active a c]
  show ?case
  proof (cases "now c - a < PAIRING_SHUTDOWN_DEADLINE \<and> active (now c)")
    case True
    have "lag c (now c) \<le> J" using "1.prems"(2) by blast
    then have "now c + 25 + lag c (now c) \<le> a + PAIRING_SHUTDOWN_DEADLINE + 25 + J" using True "1.prems"(3) by linarith
    moreover have "pairing_drain active a (os_sleep 25 c) = c'" using "1.prems"(1) True by (simp add: unf)
    ultimately show ?thesis using "1.IH" [OF True] "1.prems" by auto
  next
    case False
    with "1.prems" show ?thesis by (auto simp: unf)
  qed
qed

section \<open>Properties\<close>

text \<open>
  C15. Every session can be seen and ended. However starts, stops, the sessions themselves and the
  clean-up interleave, a session that controls a device and was not asked to stop is in the store under
  its own device, where it is listed and where a stop reaches it, unless its start is just about to put
  it there. Two such sessions of one device are the same, again unless a start is about to be completed.
\<close>

theorem controlling_session_in_reach:
  assumes "desk_run w" and "dk_handles w i = Some v" "is_controlling (av_status v)" "\<not> av_told v" "(i, av_device v) \<notin> set (dk_spawned w)"
  shows "shown_session w (av_device v) = Some (session_row (av_device v) (av_status v)) \<and>
    (\<exists>v'. dk_handles (fst (stop_session (av_device v) w)) i = Some v' \<and> av_told v') \<and>
    snd (start_session_begin windows (av_device v) w) \<notin> range Inr \<and>
    (dk_handles w j = Some u \<and> is_controlling (av_status u) \<and> \<not> av_told u \<and> av_device u = av_device v \<longrightarrow>
       j = i \<or> (j, av_device v) \<in> set (dk_spawned w))"
proof -
  have wf: "desk_wf w" using desk_run_wf assms(1) .
  have s: "dk_sessions w (av_device v) = Some i" using desk_wfD(1) [OF wf assms(2-4)] assms(5) by blast
  have "dk_handles w j = Some u \<and> is_controlling (av_status u) \<and> \<not> av_told u \<and> av_device u = av_device v \<longrightarrow>
       j = i \<or> (j, av_device v) \<in> set (dk_spawned w)"
    using desk_wfD(1) [OF wf, of j u] s by auto
  moreover have "occupied w (av_device v)" using s assms(2,3) by (simp add: occupied_def controls_def)
  ultimately show ?thesis
    using s assms(2) by (auto simp: shown_session_def stop_session_def tell_session_def start_session_begin_def)
qed

definition desk_demo :: desk where
  "desk_demo = fst (start_session_insert (1, ''phone'') (start_session_spawned (1, ''phone'')
     (fst (start_session_begin False ''phone'' desk_start))))"

lemmas desk_demo_defs = desk_demo_def start_session_insert_def start_session_spawned_def start_session_begin_def desk_start_def
  occupied_def controls_def Let_def

lemma desk_demo_run: "desk_run desk_demo"
  unfolding desk_demo_def
  by (intro desk_run.Next [OF _ desk_step.Insert] desk_run.Next [OF _ desk_step.Spawned]
      desk_run.Next [OF desk_run.First desk_step.Begin]) (simp_all add: desk_demo_defs)

theorem controlling_session_in_reach_witness:
  "shown_session desk_demo ''phone'' =
     Some \<lparr>sx_device_id = ''phone'', sx_state = ''running'', sx_exit_code = None, sx_stderr_tail = None\<rparr>"
proof -
  let ?v = "\<lparr>av_device = ''phone'', av_status = Running, av_told = False\<rparr>"
  have "dk_handles desk_demo 1 = Some ?v" "is_controlling (av_status ?v)" "\<not> av_told ?v" "(1, av_device ?v) \<notin> set (dk_spawned desk_demo)"
    by (simp_all add: desk_demo_defs)
  from controlling_session_in_reach [OF desk_demo_run this] show ?thesis by simp
qed

text \<open>
  C30. The clean-up at the end is bounded: the Android and the iOS sessions share one deadline of seven
  seconds and the worker of a pairing has thirteen from the start, so with few enough late wake-ups all
  of it fits the fifteen seconds that the last event waits. Sessions of both kinds whose supervisors end
  within seven seconds after they were asked are all waited for, and none is reported as late.
\<close>

theorem reclaim_fits_exit_wait:
  assumes "reclaim_sessions active handles ios_handles c = (c', handles', ios_handles', late)" and "\<forall>t. lag c t \<le> J"
  shows "now c' \<le> now c + max (7000 + (length handles + length ios_handles) * J) (13025 + J) \<and>
    ((length handles + length ios_handles) * J \<le> 8000 \<and> J \<le> 1975 \<longrightarrow> now c' \<le> now c + EXIT_WAIT_BUDGET) \<and>
    ((\<forall>h \<in> set handles. h_stop h = None \<and> \<not> h_taken h \<and> (\<exists>t \<le> now c + 7000. h_done h (Some (now c)) = Some (t, True))) \<and>
     (\<forall>h \<in> set ios_handles. h_stop h = None \<and> \<not> h_taken h \<and> (\<exists>t \<le> now c + 7000. h_done h (Some (now c)) = Some (t, True)))
     \<longrightarrow> late = 0)"
proof -
  let ?at = "now c + 7000" and ?hs = "map (send_stop c) handles" and ?ihs = "map (send_stop c) ios_handles"
  have at: "now c + max SHUTDOWN_DEADLINE IOS_SHUTDOWN_DEADLINE = ?at" by (simp add: SHUTDOWN_DEADLINE_def IOS_SHUTDOWN_DEADLINE_def)
  obtain c1 hs1 l1 where 1: "shutdown_all ?hs (?at - now c) c = (c1, hs1, l1)" by (cases "shutdown_all ?hs (?at - now c) c")
  obtain c2 hs2 l2 where 2: "ios_shutdown_all ?ihs (?at - now c1) c1 = (c2, hs2, l2)" by (cases "ios_shutdown_all ?ihs (?at - now c1) c1")
  define c3 where "c3 = pairing_drain active (now c) c2"
  have eq: "c' = c3" "late = length l1 + length l2"
    using assms(1) 1 2 unfolding reclaim_sessions_def Let_def at request_stop_def ios_request_stop_def c3_def by simp_all
  have twice: "map (send_stop x) (map (send_stop c) hs) = map (send_stop c) hs" for x and hs :: "'s handle list"
    by (simp add: send_stop_def comp_def split: option.splits)
  have a1: "await_done ?at c ?hs = (c1, hs1, l1)"
    using 1 unfolding android_shutdown.shutdown_eq twice by simp
  have a2: "ios_await_done (now c1 + (?at - now c1)) c1 ?ihs = (c2, hs2, l2)"
    using 2 unfolding ios_batch.shutdown_eq twice by simp
  have t1: "now c \<le> now c1 \<and> now c1 \<le> max (now c) ?at + length handles * J \<and> lag c1 = lag c"
    using android_shutdown.await_time [OF a1 assms(2)] by simp
  have J1: "\<forall>t. lag c1 t \<le> J" using t1 assms(2) by simp
  have t2: "now c1 \<le> now c2 \<and> now c2 \<le> max (now c1) (now c1 + (?at - now c1)) + length ios_handles * J \<and> lag c2 = lag c1"
    using ios_batch.await_time [OF a2 J1] by simp
  have J2: "\<forall>t. lag c2 t \<le> J" using t2 J1 by simp
  have m: "now c2 \<le> ?at + length handles * J + length ios_handles * J"
    using t1 t2 by (auto simp: max_def split: if_splits)
  have "now c3 \<le> max (now c2) (now c + PAIRING_SHUTDOWN_DEADLINE + 25 + J)"
    using pairing_drain_time [OF c3_def [symmetric] J2] t1 t2 by simp
  then have b: "now c' \<le> now c + max (7000 + (length handles + length ios_handles) * J) (13025 + J)"
    using m by (simp add: eq PAIRING_SHUTDOWN_DEADLINE_def WL_COMMAND_TIMEOUT_def distrib_right)
  moreover have "now c' \<le> now c + EXIT_WAIT_BUDGET" if "(length handles + length ios_handles) * J \<le> 8000 \<and> J \<le> 1975"
  proof -
    from that have "7000 + (length handles + length ios_handles) * J \<le> 15000" "13025 + J \<le> 15000" by linarith+
    with b show ?thesis unfolding EXIT_WAIT_BUDGET_def by (meson add_left_mono le_trans max.boundedI)
  qed
  moreover have "late = 0" if h: "(\<forall>h \<in> set handles. h_stop h = None \<and> \<not> h_taken h \<and> (\<exists>t \<le> ?at. h_done h (Some (now c)) = Some (t, True))) \<and>
     (\<forall>h \<in> set ios_handles. h_stop h = None \<and> \<not> h_taken h \<and> (\<exists>t \<le> ?at. h_done h (Some (now c)) = Some (t, True)))"
  proof -
    have "l1 = []"
      by (rule android_shutdown.await_all_done [OF _ a1]) (use h in \<open>auto simp: send_stop_def\<close>)
    moreover have "\<forall>h \<in> set ?ihs. \<not> h_taken h \<and> (\<exists>t. h_done h (h_stop h) = Some (t, True) \<and> t \<le> now c1 + (?at - now c1))"
    proof
      fix g assume "g \<in> set ?ihs"
      then obtain h' where "h' \<in> set ios_handles" "g = send_stop c h'" by auto
      with h obtain t where "\<not> h_taken g" "h_done g (h_stop g) = Some (t, True)" "t \<le> ?at" by (auto simp: send_stop_def)
      then show "\<not> h_taken g \<and> (\<exists>t. h_done g (h_stop g) = Some (t, True) \<and> t \<le> now c1 + (?at - now c1))" by fastforce
    qed
    then have "l2 = []" by (rule ios_batch.await_all_done [OF _ a2])
    ultimately show ?thesis by (simp add: eq)
  qed
  ultimately show ?thesis by blast
qed

theorem reclaim_fits_exit_wait_witness:
  "case reclaim_sessions (\<lambda>_. True) [prompt_handle 1] [] clock0 of (c', _, _, late) \<Rightarrow> now c' \<le> 15000 \<and> late = 0"
proof -
  obtain c' hs ihs late where e: "reclaim_sessions (\<lambda>_. True) [prompt_handle 1] [] clock0 = (c', hs, ihs, late)"
    by (cases "reclaim_sessions (\<lambda>_. True) [prompt_handle 1] [] clock0")
  have "\<forall>t. lag clock0 t \<le> 0" by (simp add: clock0_def)
  from reclaim_fits_exit_wait [OF e this] have "now c' \<le> 15000 \<and> late = 0"
    by (simp add: prompt_handle_def clock0_def EXIT_WAIT_BUDGET_def)
  then show ?thesis by (simp only: e prod.case)
qed

text \<open>
  The clean-up runs once: whatever sequence of requests to exit, clicks on the close button, ends of
  the background thread and final events arrives, it is started at most once, and the event loop is over
  only when it has been started; it is then complete, unless the last event has given up waiting.
  While it runs, exits and closing are held back.
\<close>

theorem exit_reclaims_once:
  "ex_reclaims (on_events es) \<le> 1 \<and>
   (ex_over (on_events es), ex_reclaims (on_events es), ex_done (on_events es) \<or> ex_gave_up (on_events es)) \<in>
     {(False, 0, False), (False, 1, False), (False, 1, True), (True, 1, True)} \<and>
   (ex_working (on_events es), snd (on_event ExitRequested (on_events es)), snd (on_event CloseRequested (on_events es))) \<in>
     {(True, True, True)} \<union> {False} \<times> UNIV"
proof -
  define ok where "ok s \<longleftrightarrow>
     (ex_reclaims s = (if ex_started s then 1 else 0)) \<and> (ex_done s \<longrightarrow> ex_started s \<and> \<not> ex_working s) \<and>
     (ex_working s \<longrightarrow> ex_started s) \<and> (ex_gave_up s \<longrightarrow> ex_started s) \<and> (ex_over s \<longrightarrow> ex_done s \<or> ex_gave_up s)" for s :: exit_state
  have step: "ok s \<Longrightarrow> ok (fst (on_event e s))" for e s
    by (cases e) (auto simp: ok_def begin_shutdown_def)
  have "ok s \<Longrightarrow> ok (fold (\<lambda>e s. fst (on_event e s)) es s)" for s
    by (induction es arbitrary: s) (simp_all add: step)
  then have "ok (on_events es)" by (simp add: on_events_def ok_def exit_start_def)
  then show ?thesis by (auto simp: ok_def)
qed

end
