(* ===== verification/GuiCommands.thy ===== *)
theory GuiCommands
  imports GuiIos
begin

text \<open>
  The desktop program (\<open>quadcontrol-gui\<close>, \<open>lib.rs\<close>): the commands of the iPhone panel that talk to the
  device. The client of a session is in a map from the ids of the handles, since the client a command
  works with is a clone of the one in the store. The thread a command waits for does not panic.
\<close>

section \<open>The commands\<close>

text \<open>Run a call on the client of the running session; what goes out of an error is its code.\<close>

definition ios_call :: "(wda \<Rightarrow> 'a wda_result) \<Rightarrow> panel \<Rightarrow> (nat \<Rightarrow> wda) \<Rightarrow> (nat \<Rightarrow> wda) \<times> (string + 'a)" where
  "ios_call act w clients =
     (case ios_client w of
        Inl e \<Rightarrow> (clients, Inl e)
      | Inr i \<Rightarrow> (case act (clients i) of (h, r) \<Rightarrow> (clients(i := h), mapErr ios_error_code r)))"

text \<open>The size of the window: as the polls know it, or asked for.\<close>

definition window_for :: "WindowSize option \<Rightarrow> wda \<Rightarrow> WindowSize wda_result" where
  "window_for cached h = (case cached of Some window \<Rightarrow> (h, Inr window) | None \<Rightarrow> window_size h)"

definition ios_tap ::
  "f64 \<Rightarrow> f64 \<Rightarrow> f64 \<Rightarrow> f64 \<Rightarrow> panel \<Rightarrow> (nat \<Rightarrow> wda) \<Rightarrow> (nat \<Rightarrow> wda) \<times> (string + unit)" where
  "ios_tap x_px y_px width_px height_px w =
     ios_call (\<lambda>h. wda_bind (window_for (im_window (is_meta (pn_store w))) h) (\<lambda>window h.
       case content_point x_px y_px width_px height_px window of
         None \<Rightarrow> (h, Inr ())
       | Some (x_pt, y_pt) \<Rightarrow> tap x_pt y_pt h)) w"

definition ios_swipe ::
  "f64 \<times> f64 \<Rightarrow> f64 \<times> f64 \<Rightarrow> f64 \<Rightarrow> f64 \<Rightarrow> nat \<Rightarrow> panel \<Rightarrow> (nat \<Rightarrow> wda) \<Rightarrow> (nat \<Rightarrow> wda) \<times> (string + unit)" where
  "ios_swipe from_px to_px width_px height_px duration_ms w =
     (let duration_secs = Fin (rat_of_nat (clamp_swipe_ms duration_ms) / 1000) in
      ios_call (\<lambda>h. wda_bind (window_for (im_window (is_meta (pn_store w))) h) (\<lambda>window h.
        case content_segment from_px to_px width_px height_px window of
          None \<Rightarrow> (h, Inr ())
        | Some (src, dst) \<Rightarrow> swipe src dst duration_secs h)) w)"

definition ios_send_text :: "string \<Rightarrow> panel \<Rightarrow> (nat \<Rightarrow> wda) \<Rightarrow> (nat \<Rightarrow> wda) \<times> (string + unit)" where
  "ios_send_text text_sent = ios_call (send_text text_sent)"

definition ios_activate_app :: "string \<Rightarrow> panel \<Rightarrow> (nat \<Rightarrow> wda) \<Rightarrow> (nat \<Rightarrow> wda) \<times> (string + unit)" where
  "ios_activate_app bid = ios_call (activate_app bid)"

definition ios_home :: "panel \<Rightarrow> (nat \<Rightarrow> wda) \<Rightarrow> (nat \<Rightarrow> wda) \<times> (string + unit)" where
  "ios_home = ios_call press_home"

definition ios_wake :: "panel \<Rightarrow> (nat \<Rightarrow> wda) \<Rightarrow> (nat \<Rightarrow> wda) \<times> (string + unit)" where
  "ios_wake = ios_call wake"

text \<open>
  A screenshot is written below the directory of pictures, or the home directory, which are the first
  two arguments; \<open>stamp\<close> is the local time as formatted, \<open>write_file\<close> says whether the file was written.
\<close>

definition screenshot_path :: "string option \<Rightarrow> string option \<Rightarrow> string \<Rightarrow> string + string" where
  "screenshot_path pictures home stamp =
     (case (case pictures of Some d \<Rightarrow> Some d | None \<Rightarrow> home) of
        None \<Rightarrow> Inl ''screenshot_failed''
      | Some d \<Rightarrow> Inr (d @ (if d = [] \<or> ends_with ''/'' d then [] else ''/'') @ ''QuadControl-'' @ stamp @ ''.png''))"

definition ios_screenshot ::
  "string option \<Rightarrow> string option \<Rightarrow> string \<Rightarrow> (string \<Rightarrow> string \<Rightarrow> bool) \<Rightarrow> panel \<Rightarrow> (nat \<Rightarrow> wda) \<Rightarrow>
     (nat \<Rightarrow> wda) \<times> (string + string)" where
  "ios_screenshot pictures home stamp write_file w clients =
     (case ios_call screenshot_png w clients of
        (clients, r) \<Rightarrow>
          (clients, andThen r (\<lambda>png. andThen (screenshot_path pictures home stamp) (\<lambda>path.
             if write_file path png then Inr path else Inl ''screenshot_failed''))))"

text \<open>The queries of a status poll: failed ones say nothing.\<close>

definition okay :: "wda \<times> ('e + 'a) \<Rightarrow> wda \<times> 'a option" where
  "okay hr = (case hr of (h, Inr a) \<Rightarrow> (h, Some a) | (h, Inl _) \<Rightarrow> (h, None))"

definition poll_queries :: "poll_ticket \<Rightarrow> wda \<Rightarrow> wda \<times> poll_answers" where
  "poll_queries ticket h =
     (case okay (locked h) of (h, l) \<Rightarrow>
      case okay (window_size h) of (h, win) \<Rightarrow>
      case (if tk_query ticket then okay (active_app h) else (h, None)) of (h, active) \<Rightarrow>
        (h, \<lparr>an_locked = l, an_window = win, an_active = map_option aa_bundle_id active\<rparr>))"

text \<open>The listing of applications that a poll starts, on its own thread: a failure says nothing.\<close>

definition load_apps :: "(string \<Rightarrow> string option) \<Rightarrow> string \<Rightarrow> host \<Rightarrow> (host \<times> InstalledApp list option) option" where
  "load_apps env udid h =
     map_option (\<lambda>(h, r). (h, case r of Inl _ \<Rightarrow> None | Inr apps \<Rightarrow> Some apps)) (installed_apps (resolve_ios env None) udid h)"

text \<open>
  What the web view asks about the machine, and the system application it may open: \<open>app_exists\<close> says
  whether a path exists, \<open>run_process\<close> how a process ended (\<open>None\<close> for a signal).
\<close>

definition IPHONE_MIRRORING_APP :: string where
  "IPHONE_MIRRORING_APP = ''/System/Applications/iPhone Mirroring.app''"

definition host_platform :: "build \<Rightarrow> string" where
  "host_platform b = (if on_macos b then ''macos'' else if on_windows b then ''windows'' else ''linux'')"

definition ios_dev_wda_enabled :: "build \<Rightarrow> bool" where
  "ios_dev_wda_enabled b \<longleftrightarrow> on_macos b \<and> isOk (ios_launch_allowed b)"

definition iphone_mirroring_available :: "build \<Rightarrow> (string \<Rightarrow> bool) \<Rightarrow> bool" where
  "iphone_mirroring_available b app_exists \<longleftrightarrow> on_macos b \<and> app_exists IPHONE_MIRRORING_APP"

definition open_iphone_mirroring :: "build \<Rightarrow> (string \<Rightarrow> string list \<Rightarrow> io_error + int option) \<Rightarrow> string + unit" where
  "open_iphone_mirroring b run_process =
     (if \<not> on_macos b then Inl ''unsupported''
      else case run_process ''open'' [''-b'', ''com.apple.ScreenContinuity''] of
             Inl _ \<Rightarrow> Inl ''iphone_mirroring_failed''
           | Inr status \<Rightarrow> if status = Some 0 then Inr () else Inl ''iphone_mirroring_failed'')"

section \<open>What the commands send\<close>

lemma ios_call_stopped: "ios_client w = Inl e \<Longrightarrow> ios_call act w clients = (clients, Inl e)"
  by (simp add: ios_call_def)

lemma ios_call_running: "ios_client w = Inr i \<Longrightarrow>
    ios_call act w clients = (clients(i := fst (act (clients i))), mapErr ios_error_code (snd (act (clients i))))"
  by (simp add: ios_call_def split: prod.splits)

lemma does_unless_locked:
  assumes "\<And>rq. rq_method rq = GET \<or> own_request rq \<Longrightarrow> P rq" and "does P n act"
  shows "does P (4 + n) (unless_locked act)"
proof -
  have "does P n (\<lambda>w. if b then (w, Inl DeviceLocked) else act w)" for b
    using assms(2) by (cases b) (simp_all add: does_pure)
  then show ?thesis unfolding unless_locked_def
    by (intro does_bind [where n = 4 and m = n] does_locked assms(1)) simp_all
qed

lemma does_session_post:
  assumes "\<And>rq. own_request rq \<Longrightarrow> P rq"
    and "\<And>b s. P \<lparr>rq_method = POST, rq_url = b @ ''/session/'' @ s @ path, rq_body = Some body, rq_limit = REQUEST_TIMEOUT\<rparr>"
  shows "does P 4 (session_post path body wrap)"
  unfolding session_post_def
  by (intro does_bind [where n = 4 and m = 0] does_session_call does_post does_pure assms) simp_all

text \<open>A request that is a question, repairs the session, or posts this to this command.\<close>

definition asks_or_posts :: "string \<Rightarrow> json set \<Rightarrow> http_request \<Rightarrow> bool" where
  "asks_or_posts path bodies rq \<longleftrightarrow> rq_method rq = GET \<or> own_request rq \<or>
     rq_method rq = POST \<and> ends_with path (rq_url rq) \<and> (\<exists>body \<in> bodies. rq_body rq = Some body)"

lemma does_gesture:
  "body \<in> bodies \<Longrightarrow> does (asks_or_posts path bodies) 8 (unless_locked (session_post path body wrap))"
  by (rule does_weaken [OF does_unless_locked [OF _ does_session_post]])
    (auto simp: asks_or_posts_def ends_with_iff)

text \<open>The bodies of a tap that is shown at \<open>(x, y)\<close> and of a swipe between such points.\<close>

definition tap_bodies :: "rat \<Rightarrow> rat \<Rightarrow> WindowSize \<Rightarrow> rat \<times> rat \<Rightarrow> json set" where
  "tap_bodies cw ch window p =
     {JObject [(''x'', f64_json (Fin px)), (''y'', f64_json (Fin py))] | px py.
        0 \<le> px \<and> px \<le> rat_of_nat (unat (ws_width window)) \<and> 0 \<le> py \<and> py \<le> rat_of_nat (unat (ws_height window)) \<and>
        picture_of cw ch window (px, py) = p}"

definition swipe_bodies :: "rat \<Rightarrow> rat \<Rightarrow> WindowSize \<Rightarrow> rat \<times> rat \<Rightarrow> rat \<times> rat \<Rightarrow> json set" where
  "swipe_bodies cw ch window p q =
     {JObject [(''fromX'', f64_json (Fin ax)), (''fromY'', f64_json (Fin ay)), (''toX'', f64_json (Fin bx)),
        (''toY'', f64_json (Fin byy)), (''duration'', JNumber (Float secs))] | ax ay bx byy secs.
        {ax, bx} \<subseteq> {0..rat_of_nat (unat (ws_width window))} \<and> {ay, byy} \<subseteq> {0..rat_of_nat (unat (ws_height window))} \<and>
        picture_of cw ch window (ax, ay) = p \<and> picture_of cw ch window (bx, byy) = q \<and> 5 / 100 \<le> secs \<and> secs \<le> 2}"

lemma content_point_fin: "content_point x y cw ch window = Some (a, b) \<Longrightarrow> \<exists>px py. a = Fin px \<and> b = Fin py"
  by (cases "(x, y, cw, ch, window)" rule: content_point.cases) auto

lemma does_shown_tap:
  assumes "0 < cw" "0 < ch" "ws_width window \<noteq> 0" "ws_height window \<noteq> 0"
    and "content_point (Fin x) (Fin y) (Fin cw) (Fin ch) window = Some (a, b)"
  shows "does (asks_or_posts ''/wda/tap'' (tap_bodies cw ch window (x, y))) 8 (tap a b)"
proof -
  obtain px py where ab: "a = Fin px" "b = Fin py" using content_point_fin [OF assms(5)] by blast
  have "JObject [(''x'', f64_json a), (''y'', f64_json b)] \<in> tap_bodies cw ch window (x, y)"
    using assms(5) content_point_iff [OF assms(1-4), of x y px py] unfolding ab tap_bodies_def by blast
  then show ?thesis unfolding tap_def by (rule does_gesture)
qed

lemma swipe_secs: "swipe_duration (Fin (rat_of_nat (clamp_swipe_ms d) / 1000)) = rat_of_nat (clamp_swipe_ms d) / 1000 \<and>
    5 / 100 \<le> rat_of_nat (clamp_swipe_ms d) / 1000 \<and> rat_of_nat (clamp_swipe_ms d) / 1000 \<le> 2"
proof -
  have "50 \<le> clamp_swipe_ms d" "clamp_swipe_ms d \<le> 2000" by (simp_all add: clamp_swipe_ms_def SWIPE_MIN_MS_def SWIPE_MAX_MS_def)
  then have "rat_of_nat 50 \<le> rat_of_nat (clamp_swipe_ms d)" "rat_of_nat (clamp_swipe_ms d) \<le> rat_of_nat 2000"
    by (simp_all only: of_nat_le_iff)
  then show ?thesis by (simp add: swipe_duration_def SWIPE_MIN_SECS_def SWIPE_MAX_SECS_def)
qed

lemma does_shown_swipe:
  assumes "0 < cw" "0 < ch" "ws_width window \<noteq> 0" "ws_height window \<noteq> 0"
    and "content_segment (Fin x, Fin y) (Fin x', Fin y') (Fin cw) (Fin ch) window = Some (src, dst)"
  shows "does (asks_or_posts ''/wda/dragfromtoforduration'' (swipe_bodies cw ch window (x, y) (x', y'))) 8
    (swipe src dst (Fin (rat_of_nat (clamp_swipe_ms d) / 1000)))"
proof -
  from assms(5) have s: "content_point (Fin x) (Fin y) (Fin cw) (Fin ch) window = Some src"
    "content_point (Fin x') (Fin y') (Fin cw) (Fin ch) window = Some dst"
    by (auto simp: content_segment_def bind_eq_Some_conv)
  obtain ax ay bx byy where ab: "src = (Fin ax, Fin ay)" "dst = (Fin bx, Fin byy)"
    using s content_point_fin [of _ _ _ _ _ "fst src" "snd src"] content_point_fin [of _ _ _ _ _ "fst dst" "snd dst"]
    by (metis prod.collapse)
  note p = s [unfolded ab content_point_iff [OF assms(1-4)]]
  note secs = swipe_secs [of d]
  show ?thesis unfolding swipe_def
  proof (rule does_gesture)
    show "JObject [(''fromX'', f64_json (fst src)), (''fromY'', f64_json (snd src)), (''toX'', f64_json (fst dst)),
        (''toY'', f64_json (snd dst)),
        (''duration'', JNumber (Float (swipe_duration (Fin (rat_of_nat (clamp_swipe_ms d) / 1000)))))]
      \<in> swipe_bodies cw ch window (x, y) (x', y')"
      unfolding swipe_bodies_def mem_Collect_eq ab
      by (rule exI [of _ ax], rule exI [of _ ay], rule exI [of _ bx], rule exI [of _ byy],
          rule exI [of _ "rat_of_nat (clamp_swipe_ms d) / 1000"])
        (use p secs in simp)
  qed
qed

section \<open>Properties\<close>

text \<open>
  C22. A gesture on the panel reaches the device where the picture shows it, or not at all. With the
  window known from a poll, a tap and a swipe that miss the picture send nothing and are no errors;
  one that is on the picture sends, besides questions and the repair of the session, only posts to
  the command meant, whose coordinates lie in the window and are drawn at the positions of the
  pointer, and whose duration lasts between 50 ms and 2 s; no other session hears of it.
\<close>

theorem gestures_land_where_shown:
  assumes "ios_client w = Inr i" and "im_window (is_meta (pn_store w)) = Some window"
    and "0 < cw" "0 < ch" "ws_width window \<noteq> 0" "ws_height window \<noteq> 0"
  shows "(case ios_tap (Fin x) (Fin y) (Fin cw) (Fin ch) w clients of (clients', r) \<Rightarrow>
      (if content_point (Fin x) (Fin y) (Fin cw) (Fin ch) window = None then clients' = clients \<and> r = Inr ()
       else reach (asks_or_posts ''/wda/tap'' (tap_bodies cw ch window (x, y))) 8 (clients i) (clients' i)) \<and>
      clients'(i := clients i) = clients) \<and>
    (case ios_swipe (Fin x, Fin y) (Fin x', Fin y') (Fin cw) (Fin ch) d w clients of (clients', r) \<Rightarrow>
      (if content_segment (Fin x, Fin y) (Fin x', Fin y') (Fin cw) (Fin ch) window = None then clients' = clients \<and> r = Inr ()
       else reach (asks_or_posts ''/wda/dragfromtoforduration'' (swipe_bodies cw ch window (x, y) (x', y'))) 8
              (clients i) (clients' i)) \<and>
      clients'(i := clients i) = clients)"
proof -
  note area = assms(3-6)
  have tap: "reach (asks_or_posts ''/wda/tap'' (tap_bodies cw ch window (x, y))) 8 h (fst (tap a b h))"
    if "content_point (Fin x) (Fin y) (Fin cw) (Fin ch) window = Some (a, b)" for a b h
    using does_shown_tap [OF area that] by (simp add: does_def)
  have swipe: "reach (asks_or_posts ''/wda/dragfromtoforduration'' (swipe_bodies cw ch window (x, y) (x', y'))) 8 h
      (fst (swipe a b (Fin (rat_of_nat (clamp_swipe_ms d) / 1000)) h))"
    if "content_segment (Fin x, Fin y) (Fin x', Fin y') (Fin cw) (Fin ch) window = Some (a, b)" for a b h
    using does_shown_swipe [OF area that] by (simp add: does_def)
  show ?thesis
    unfolding ios_tap_def ios_swipe_def Let_def ios_call_running [OF assms(1)] window_for_def assms(2)
    by (auto simp: wda_bind_def tap swipe split: option.splits)
qed

text \<open>A running session whose window is known.\<close>

definition panel_shown :: panel where
  "panel_shown = set_meta (default_meta\<lparr>im_window := Some \<lparr>ws_width = 100, ws_height = 200\<rparr>\<rparr>) panel_running"

theorem gestures_land_where_shown_witness:
  "reach (asks_or_posts ''/wda/tap'' (tap_bodies 400 200 \<lparr>ws_width = 100, ws_height = 200\<rparr> (200, 100))) 8
     (demo_wda False) (fst (ios_tap (Fin 200) (Fin 100) (Fin 400) (Fin 200) panel_shown (\<lambda>_. demo_wda False)) 1) \<and>
   ios_tap (Fin 10) (Fin 100) (Fin 400) (Fin 200) panel_shown (\<lambda>_. demo_wda False) = (\<lambda>_. demo_wda False, Inr ())"
proof -
  have r: "ios_client panel_shown = Inr 1" "im_window (is_meta (pn_store panel_shown)) = Some \<lparr>ws_width = 100, ws_height = 200\<rparr>"
    by (simp_all add: panel_demo panel_shown_def ios_client_def handle_view_def)
  have area: "(0 :: rat) < 400" "(0 :: rat) < 200" "ws_width \<lparr>ws_width = 100, ws_height = 200\<rparr> \<noteq> 0"
    "ws_height \<lparr>ws_width = 100, ws_height = 200\<rparr> \<noteq> 0" by simp_all
  have p: "content_point (Fin 200) (Fin 100) (Fin 400) (Fin 200) \<lparr>ws_width = 100, ws_height = 200\<rparr> \<noteq> None"
    "content_point (Fin 10) (Fin 100) (Fin 400) (Fin 200) \<lparr>ws_width = 100, ws_height = 200\<rparr> = None"
    by (simp_all add: content_rat_def Let_def)
  note g = gestures_land_where_shown [OF r area, of _ _ "\<lambda>_. demo_wda False"]
  show ?thesis using conjunct1 [OF g, of 200 100] conjunct1 [OF g, of 10 100] p by (auto split: prod.splits)
qed

end
