(* ===== verification/Spec2Isabelle.thy ===== *)
theory Spec2Isabelle
  imports ScrcpyCli FakeGoIos FakeAdb GuiPairing GuiSessions GuiCommands
begin

text \<open>
  QuadControl controls Android phones and iPhones from a computer: it mirrors an Android phone by
  running \<open>scrcpy\<close>, and shows and drives an iPhone through \<open>go-ios\<close>, WebDriverAgent and its stream of
  pictures. This development models the Rust crates that do so, function by function, under the names
  of the source, and proves what makes them correct.

  \<^bold>\<open>The parts and how they meet.\<close> Everything the program controls is a child process it launches. The
  crate \<open>quadcontrol-process\<close> ends processes with bounded ladders of signals and keeps the tail of
  their standard error. \<open>adb-probe\<close> runs three read-only \<open>adb\<close> commands with limits and parses what they
  print. \<open>quadcontrol-android\<close> launches and supervises \<open>scrcpy\<close>, and pairs phones over the air;
  \<open>quadcontrol-scrcpy\<close> is its command line. \<open>quadcontrol-ios\<close> supervises the four \<open>go-ios\<close> processes of
  an iPhone session, talks to WebDriverAgent and passes the pictures on to any number of viewers. The
  desktop program \<open>quadcontrol-gui\<close> keeps the sessions of both kinds and one pairing in three stores,
  shows them to a web view, and reclaims them all at the end.

  \<^bold>\<open>Theories.\<close>
  \<^item> \<open>QC_Prelude\<close>: Rust's strings as lists of bytes (splitting, trimming, UTF-8, parsing of integers) and
    results as sums, which all others share. \<open>OsModel\<close>: a clock whose sleeps may wake late, processes
    with their signals, pipes and exits, and the host, which logs all that is launched.
  \<^item> \<open>ProcessLadder\<close>: \<open>quadcontrol-process/src/lib.rs\<close>.
  \<^item> \<open>AdbProbe\<close>: \<open>adb-probe/src/lib.rs\<close> and \<open>main.rs\<close>.
  \<^item> \<open>Supervision\<close>: what the supervised sessions of both kinds have in common, with the interfaces
    \<open>batch_shutdown\<close> (ask all, then wait for all until one deadline) and \<open>mortal\<close> (a session that is over
    does not come back), each interpreted for Android and for iOS.
  \<^item> \<open>ScrcpyLib\<close>: \<open>quadcontrol-android/src/lib.rs\<close>; \<open>ScrcpyCli\<close>: its \<open>main.rs\<close>.
  \<^item> \<open>WirelessData\<close>, \<open>WirelessAdb\<close>, \<open>PairingRound\<close>, \<open>PairingFlow\<close>, \<open>PairingSuccess\<close>: \<open>wireless.rs\<close>:
    secrets, parsers and the state machine of a round; the bounded commands; the round itself; properties
    of the whole flow; the flow with an \<open>adb\<close> that works.
  \<^item> \<open>IosLib\<close>: \<open>quadcontrol-ios/src/lib.rs\<close> and \<open>devices.rs\<close>; \<open>Base64\<close> and \<open>WdaClient\<close>: \<open>wda.rs\<close>;
    \<open>MjpegProxy\<close> (the upstream reader) and \<open>MjpegSlot\<close> (the broadcast slot and the threads, as a step
    relation): \<open>mjpeg.rs\<close>; \<open>IosSession\<close> (the supervising thread) \<open>IosLaunch\<close> (the order of what it
    launches, and the session as a whole) and \<open>IosStartup\<close> (a start-up where everything works): \<open>session.rs\<close>.
  \<^item> \<open>FakeProcess\<close>, \<open>FakeGoIos\<close> and \<open>FakeAdb\<close>: the stand-ins for \<open>go-ios\<close>, \<open>adb\<close> and \<open>scrcpy\<close> that the
    integration tests run, \<open>bin/ios-test-helper.rs\<close> and \<open>bin/scrcpy-test-helper.rs\<close>, as programs that
    the model of the host launches, and the two successes on top of them.
  \<^item> \<open>GuiPairing\<close>, \<open>GuiPanel\<close>, \<open>GuiIos\<close>, \<open>GuiCommands\<close>, \<open>GuiSessions\<close>:
    \<open>quadcontrol-gui/src-tauri/src/lib.rs\<close>: pairing, the values behind the iPhone panel, the store of the
    one iPhone session, the commands that talk to the device, the list of devices with the store of the
    Android sessions and the end of the program. The stores are step relations: a command that waits
    between two of its critical sections is one step per section, so that all interleavings are covered.
  \<^item> This theory: properties that span the desktop program and the crates of the sessions.

  \<^bold>\<open>What the lemmas show.\<close> Processes and sessions: every ladder, shutdown and supervision returns, with the
  children dead and reaped, in a stated time; an iPhone session launches in order and ends clean; where
  the programs it needs work, it comes up, and a phone that scans the code is paired; the statuses its
  thread writes are those the panel takes. Parsers and codecs: listings are read back, JSON
  strings and base64 invert, the picture stream is delivered frame by frame, \<open>stderr\<close> keeps exactly its
  tail. Secrets: no command line, summary, status or left-over value carries a password or the identifier
  of a device. Stores: one pairing and one iPhone session at a time, every Android session in reach, no
  result of a cancelled round, nothing forgotten at the end. The proxy: viewers see a subsequence of the
  stream, counters are exact, stopping terminates, the one-frame slot refines the full history. Some properties state where the code
  departs from its comments; the manifest lists them as findings.

  \<^bold>\<open>Time and fuel.\<close> Times are in milliseconds. A sleep of \<open>d\<close> ends at \<open>d\<close> plus the lag of that moment; a
  property that bounds time bounds the lag by \<open>J\<close>. Loops with a deadline are functions whose measure is
  the time left; loops that may run for ever (\<open>supervise_loop\<close>, \<open>run_until_stop\<close>, a wait for a process)
  are partial functions with \<open>None\<close> for not returning, and that they do return is a property. There is no
  fuel. Numbers keep their width where the source can overflow them: \<open>u16\<close> and \<open>u32\<close> by their bounds in
  the parsers, window sizes as words of 32 bits, the count of polls as a word of 64 bits.

  \<^bold>\<open>Parameters.\<close> What is not in the repository is an argument: \<open>serde_json\<close> (\<open>json_parser\<close>), the QR encoder,
  the random source, the HTTP library with the server behind it (\<open>wd_answer\<close>, which may depend on all
  requests so far), sockets and ports, the programs launched (\<open>launch\<close>), the environment, parsing of IP
  addresses, the directories and the clock for a screenshot.

  \<^bold>\<open>Not modelled.\<close> Numbers of type \<open>f64\<close> are computed as exact rationals with the three special values, so
  rounding is not seen. Ids and frame counters of type \<open>u64\<close> are natural numbers: they are only ever
  incremented by one. Mutexes are not poisoned, since nothing panics in the critical sections; threads of
  the desktop program that panic are a branch only where the source tells it from other failures. Setting
  process groups, \<open>prctl\<close>, signal handlers (seen as the number of signals so far), debug renderings and
  messages printed for diagnosis are left out, as are building the window and registering the commands,
  which is the GUI framework's. The crates \<open>core\<close>, \<open>crypto\<close>, \<open>diagnostics\<close>, \<open>ffi\<close>, \<open>media\<close>, \<open>pairing\<close>,
  \<open>protocol\<close> and \<open>transport\<close> are empty; the web view (JavaScript), the Swift packages and the Java agent are not part of the Rust program.
\<close>

section \<open>The panel follows the supervised session\<close>

text \<open>The statuses a supervising thread writes, seen by the panel one after the other.\<close>

definition follow :: "nat \<Rightarrow> IosSessionStatus list \<Rightarrow> panel \<Rightarrow> panel" where
  "follow i statuses p = fold (moved i) statuses p"

lemma follow_run:
  assumes "panel_run p" "pn_handles p i = Some v" "sorted_wrt (\<le>) (iv_status v # ss)"
  shows "panel_run (follow i ss p) \<and> pn_handles (follow i ss p) i = Some (v\<lparr>iv_status := last (iv_status v # ss)\<rparr>) \<and>
    pn_store (follow i ss p) = pn_store p"
  using assms
proof (induction ss arbitrary: p v)
  case (Cons s ss)
  have "panel_run (moved i s p)" using Cons.prems by (intro moved_run [where v = v]) simp_all
  moreover have "pn_handles (moved i s p) i = Some (v\<lparr>iv_status := s\<rparr>)" "pn_store (moved i s p) = pn_store p"
    using Cons.prems(2) by (simp_all add: moved_def handle_view_def)
  ultimately show ?case using Cons.IH [of "moved i s p" "v\<lparr>iv_status := s\<rparr>"] Cons.prems(3) by (simp add: follow_def)
qed (simp add: follow_def)

text \<open>
  C3. What the panel assumes of a session is what the supervising thread does. Take a session in the
  panel that is being started, and any world in which a stop request is seen some time: the thread
  ends with no child left, and each status it writes is one that the panel takes as a step; at the end
  the session is over in the panel. All that the web view was shown of it is one of the
  sequences below, and a code only with a failure, one of the stable codes of the errors.
\<close>

theorem panel_follows_session:
  assumes "panel_run p" and "pn_handles p i = Some v" and "iv_status v = IosStarting"
    and "healthy w" and "w_stop w n" and "polls (w_clk w) \<le> n" and "w_status w = [IosStarting]"
  shows "\<exists>w' ss. ios_supervise options w = Some w' \<and> w_children w' = [] \<and> w_status w' = IosStarting # ss \<and>
    panel_run (follow i ss p) \<and> pn_store (follow i ss p) = pn_store p \<and> \<not> live (follow i ss p) i \<and>
    map (it_state \<circ> ios_status_dto) ss \<in>
      {[''stopping'', ''exited''], [''stopping'', ''failed''], [''running'', ''stopping'', ''exited''], [''running'', ''stopping'', ''failed'']} \<and>
    set (map (it_code \<circ> ios_status_dto) ss) \<subseteq> {None} \<union> range (Some \<circ> ios_error_code)"
proof -
  obtain w' chs run final where s: "ios_supervise options w = Some w'" "w_children w' = []"
    "w_status w' = w_status w @ run @ [IosStopping, final]" "run \<in> {[]} \<union> range (\<lambda>port. [IosRunning port])"
    "final \<in> range IosExited \<union> range (\<lambda>e. IosFailed (ios_error_code e))"
    using ios_supervise_ends [OF assms(4-6)] by blast
  let ?ss = "run @ [IosStopping, final]"
  have ph: "ios_phase final = 3" "\<not> ios_session_is_live final" using s(5) by auto
  have up: "sorted_wrt (\<le>) (iv_status v # ?ss)" using s(4) ph assms(3) by auto
  note f = follow_run [OF assms(1,2) up]
  have "\<not> live (follow i ?ss p) i" using f ph by (simp add: live_def)
  moreover have "map (it_state \<circ> ios_status_dto) ?ss \<in>
      {[''stopping'', ''exited''], [''stopping'', ''failed''], [''running'', ''stopping'', ''exited''], [''running'', ''stopping'', ''failed'']}"
    using s(4,5) by (elim UnE imageE) (simp_all add: ios_idle_dto_def)
  moreover have "set (map (it_code \<circ> ios_status_dto) ?ss) \<subseteq> {None} \<union> range (Some \<circ> ios_error_code)"
    using s(4,5) by (elim UnE imageE) (simp_all add: ios_idle_dto_def)
  ultimately show ?thesis using f s(1-3) assms(7) by (intro exI [of _ w'] exI [of _ ?ss]) simp
qed

text \<open>A panel with a session that has just been spawned, and the world of its thread.\<close>

theorem panel_follows_session_witness:
  "\<exists>ss. panel_run (follow 1 ss panel_spawned) \<and> \<not> live (follow 1 ss panel_spawned) 1 \<and>
     (\<exists>w'. ios_supervise (ios_launch_options ''U'' (Launch ''ios'' some_ids [])) quiet_world = Some w' \<and> w_status w' = IosStarting # ss)"
proof -
  have "pn_handles panel_spawned 1 = Some fresh_view" "iv_status fresh_view = IosStarting" by (simp_all add: panel_demo)
  moreover have "healthy quiet_world" by (auto simp: healthy_def busy_defs)
  moreover have "w_stop quiet_world 5" "polls (w_clk quiet_world) \<le> 5" "w_status quiet_world = [IosStarting]"
    by (simp_all add: busy_defs)
  ultimately show ?thesis
    using panel_follows_session [OF panel_spawned_run, of 1 fresh_view quiet_world 5 "ios_launch_options ''U'' (Launch ''ios'' some_ids [])"]
    by blast
qed

section \<open>The desk follows the supervised session\<close>

definition desk_moved :: "nat \<Rightarrow> SessionStatus \<Rightarrow> desk \<Rightarrow> desk" where
  "desk_moved i s w = w\<lparr>dk_handles := (dk_handles w)(i := map_option (av_status_update (\<lambda>_. s)) (dk_handles w i))\<rparr>"

definition desk_follow :: "nat \<Rightarrow> SessionStatus list \<Rightarrow> desk \<Rightarrow> desk" where
  "desk_follow i statuses w = fold (desk_moved i) statuses w"

lemma desk_follow_run:
  assumes "desk_run w" "dk_handles w i = Some v" "sorted_wrt (\<le>) (av_status v # ss)"
  shows "desk_run (desk_follow i ss w) \<and> dk_handles (desk_follow i ss w) i = Some (v\<lparr>av_status := last (av_status v # ss)\<rparr>) \<and>
    dk_sessions (desk_follow i ss w) = dk_sessions w"
  using assms
proof (induction ss arbitrary: w v)
  case (Cons s ss)
  have m: "desk_moved i s w = w\<lparr>dk_handles := (dk_handles w)(i \<mapsto> v\<lparr>av_status := s\<rparr>)\<rparr>"
    using Cons.prems(2) by (simp add: desk_moved_def)
  have "desk_run (desk_moved i s w)" unfolding m
    using Cons.prems by (intro desk_run.Next [OF Cons.prems(1)] desk_step.Moves) simp_all
  then show ?case using Cons.IH [of "desk_moved i s w" "v\<lparr>av_status := s\<rparr>"] Cons.prems(3) by (simp add: desk_follow_def m)
qed (simp add: desk_follow_def)

text \<open>
  C7. The same for the sessions of \<open>scrcpy\<close>: for a session that is in the store and runs, once a stop
  request is there to be seen by the \<open>k\<close>-th look, the thread ends with \<open>scrcpy\<close> dead and reaped, the
  statuses it writes are steps of the store, and then the device is free again: a new start of it is
  accepted. The entry that is shown is the exit code, with the tail of the standard error, at most
  2000 characters of it, only for a code that is not 0.
\<close>

theorem desk_follows_session:
  assumes "desk_run w" and "dk_sessions w d = Some i" and "dk_handles w i = Some v" and "av_status v = Running"
    and "wait_err (sn_child s) = None" and "stop (polls c + k)" and "\<forall>t. lag c t \<le> J"
  shows "\<exists>c' s' ss exit_code tail. supervise stop escalated c s = Some (c', s', ss) \<and>
    reaped (sn_child s') \<and> exited_by (now c') (sn_child s') \<and> now c' \<le> now c + k * (25 + J) + 5405 + 3 * J \<and>
    desk_run (desk_follow i ss w) \<and> isOk (snd (start_session_begin False d (desk_follow i ss w))) \<and>
    shown_session (desk_follow i ss w) d =
      Some \<lparr>sx_device_id = d, sx_state = ''exited'', sx_exit_code = Some exit_code,
            sx_stderr_tail = (if exit_code = 0 then None else Some (truncate_tail tail 2000))\<rparr>"
proof -
  obtain c' s' ss code tail where l: "supervise stop escalated c s = Some (c', s', ss)"
    "ss \<in> {[Exited code tail], [Stopping, Exited code tail]}" "reaped (sn_child s')" "exited_by (now c') (sn_child s')"
    "now c' \<le> now c + k * (25 + J) + 5405 + 3 * J"
    using supervise_ends [of s stop c k J escalated, OF assms(5-7)] by blast
  have "sorted_wrt (\<le>) (av_status v # ss)" using l(2) assms(4) by auto
  moreover have e: "last (av_status v # ss) = Exited code tail" using l(2) by auto
  ultimately have f: "desk_run (desk_follow i ss w)" "dk_handles (desk_follow i ss w) i = Some (v\<lparr>av_status := Exited code tail\<rparr>)"
    "dk_sessions (desk_follow i ss w) = dk_sessions w"
    using desk_follow_run [OF assms(1,3)] by (metis (no_types))+
  have "isOk (snd (start_session_begin False d (desk_follow i ss w)))"
    using f assms(2) by (simp add: start_session_begin_def occupied_def controls_def)
  moreover have "shown_session (desk_follow i ss w) d =
      Some \<lparr>sx_device_id = d, sx_state = ''exited'', sx_exit_code = Some code,
            sx_stderr_tail = (if code = 0 then None else Some (truncate_tail tail 2000))\<rparr>"
    using f assms(2) by (simp add: shown_session_def)
  ultimately show ?thesis using l f by blast
qed

theorem desk_follows_session_witness:
  "\<exists>ss c' s'. supervise (\<lambda>n. n = 3) (\<lambda>_. False) clock0 \<lparr>sn_child = stubborn, sn_progress = (\<lambda>_. 0)\<rparr> = Some (c', s', ss) \<and>
     desk_run (desk_follow 1 ss desk_demo) \<and> isOk (snd (start_session_begin False ''phone'' (desk_follow 1 ss desk_demo)))"
proof -
  let ?v = "\<lparr>av_device = ''phone'', av_status = Running, av_told = False\<rparr>"
  let ?s = "\<lparr>sn_child = stubborn, sn_progress = (\<lambda>_. 0)\<rparr>"
  have "dk_sessions desk_demo ''phone'' = Some 1" "dk_handles desk_demo 1 = Some ?v" "av_status ?v = Running"
    by (simp_all add: desk_demo_defs)
  moreover have "wait_err (sn_child ?s) = None" "(\<lambda>n. n = 3) (polls clock0 + 3)" "\<forall>t. lag clock0 t \<le> 0"
    by (simp_all add: stubborn_def clock0_def)
  ultimately show ?thesis
    using desk_follows_session [OF desk_demo_run, of "''phone''" 1 ?v ?s "\<lambda>n. n = 3" clock0 3 0 "\<lambda>_. False"] by blast
qed

section \<open>Leaving the program\<close>

lemma reclaim_ios_tells:
  assumes "panel_wf p" "is_session (pn_store p) \<noteq> Some SlotStarting" "pn_handles (fst (reclaim_ios p)) i = Some v"
    "ios_session_is_live (iv_status v)"
  shows "iv_told v"
proof -
  have "live p i" using assms(3,4)
    by (auto simp: live_def reclaim_ios_def Let_def tell_stop_def panel_defs split: option.splits IosSlot.splits if_splits)
  then have "is_session (pn_store p) = Some (SlotHandle i)" using assms(1,2) by (auto simp: panel_wf_def)
  with assms(3) show ?thesis by (auto simp: reclaim_ios_def Let_def tell_stop_def panel_defs)
qed

lemma drain_sessions_tells:
  assumes "desk_wf d" "dk_spawned d = []" "dk_handles (drain_sessions d) i = Some v" "is_controlling (av_status v)"
  shows "av_told v"
proof (cases "i \<in> ran (dk_sessions d)")
  case True
  with assms(3) show ?thesis by (auto simp: drain_sessions_def)
next
  case False
  then have "dk_handles d i = Some v" "dk_sessions d (av_device v) \<noteq> Some i" using assms(3) by (auto simp: drain_sessions_def ran_def)
  with desk_wfD(1) [OF assms(1)] assms(2,4) show ?thesis by auto
qed

lemma cancel_at_exit_tells:
  assumes "pair_wf g" "wk \<in> set (pw_workers (cancel_at_exit g))"
  shows "wk_generation wk \<in> set (pw_told (cancel_at_exit g))"
proof -
  have w: "wk \<in> set (pw_workers g)" using assms(2) by (simp add: cancel_at_exit_def)
  then have ne: "wk_generation wk \<in> set (map wk_generation (pw_workers g))" by simp
  then have "pairing_is_active (ps_state (pw_store g))" "wk_generation wk = pairing_generation (ps_state (pw_store g))"
    using assms(1) by (auto simp: pair_wf_def Let_def split: if_splits)
  then have "ps_cancel (pw_store g) = Some (wk_generation wk)" using assms(1) by (auto simp: pair_wf_def Let_def)
  then show ?thesis by (simp add: cancel_at_exit_def)
qed

text \<open>
  C8. Leaving the program forgets nothing. Whatever the three stores went through, if no start waits
  between two of its sections (\<open>GuiIos.late_ios_start_survives_closing\<close> is why), then once the stores
  are reclaimed every session of \<open>scrcpy\<close> that still controls a phone, every live session of an
  iPhone and the worker of a pairing that runs have been told to stop, and both stores are empty.
\<close>

theorem leaving_tells_everything:
  assumes "panel_run p" "\<not> pn_closed p" "is_session (pn_store p) \<noteq> Some SlotStarting"
    and "desk_run d" "dk_spawned d = []" and "pair_reach pair_start g"
  shows "(\<forall>i v. pn_handles (fst (reclaim_ios p)) i = Some v \<longrightarrow> ios_session_is_live (iv_status v) \<longrightarrow> iv_told v) \<and>
    (\<forall>i v. dk_handles (drain_sessions d) i = Some v \<longrightarrow> is_controlling (av_status v) \<longrightarrow> av_told v) \<and>
    (\<forall>wk \<in> set (pw_workers (cancel_at_exit g)). wk_generation wk \<in> set (pw_told (cancel_at_exit g))) \<and>
    is_session (pn_store (fst (reclaim_ios p))) = None \<and> dk_sessions (drain_sessions d) = Map.empty"
proof -
  have wf: "panel_wf p" "desk_wf d" "pair_wf g"
    using panel_run_wf [OF assms(1,2)] desk_run_wf [OF assms(4)] pair_reach_wf [OF assms(6) pair_start_wf] by blast+
  have "is_session (pn_store (fst (reclaim_ios p))) = None"
    by (auto simp: reclaim_ios_def Let_def tell_stop_def panel_defs split: option.splits IosSlot.splits)
  moreover have "dk_sessions (drain_sessions d) = Map.empty" by (simp add: drain_sessions_def)
  ultimately show ?thesis
    using reclaim_ios_tells [OF wf(1) assms(3)] drain_sessions_tells [OF wf(2) assms(5)] cancel_at_exit_tells [OF wf(3)] by blast
qed

text \<open>An iPhone session that runs, a phone that is mirrored, and a pairing by hand.\<close>

theorem leaving_tells_everything_witness:
  "iv_told (the (pn_handles (fst (reclaim_ios panel_running)) 1)) \<and> av_told (the (dk_handles (drain_sessions desk_demo) 1)) \<and>
   pw_told (cancel_at_exit (fst (pair_manual (\<lambda>_. True) ''10.0.0.7'' 4444 ''123456'' 0 pair_start))) = [1]"
proof -
  let ?g = "fst (pair_manual (\<lambda>_. True) ''10.0.0.7'' 4444 ''123456'' 0 pair_start)"
  have g: "pair_reach pair_start ?g"
    by (rule pair_reach.Further [OF pair_reach.Here], rule pair_step.ByHand [of "\<lambda>_. True" "''10.0.0.7''" 4444 "''123456''" 0 pair_start])
      (simp add: prod_eq_iff)
  have "\<not> pn_closed panel_running" "is_session (pn_store panel_running) \<noteq> Some SlotStarting" "dk_spawned desk_demo = []"
    by (simp_all add: panel_demo desk_demo_defs)
  note t = leaving_tells_everything [OF panel_running_run this(1,2) desk_demo_run this(3) g]
  have "pn_handles (fst (reclaim_ios panel_running)) 1 = Some (the (pn_handles (fst (reclaim_ios panel_running)) 1))"
    "ios_session_is_live (iv_status (the (pn_handles (fst (reclaim_ios panel_running)) 1)))"
    "dk_handles (drain_sessions desk_demo) 1 = Some (the (dk_handles (drain_sessions desk_demo) 1))"
    "is_controlling (av_status (the (dk_handles (drain_sessions desk_demo) 1)))"
    by (simp_all add: panel_demo desk_demo_defs reclaim_ios_def tell_stop_def drain_sessions_def)
  moreover have "pw_told (cancel_at_exit ?g) = [1]"
    by (simp add: pair_manual_def validate_manual_inputs_def reserve_round_def pair_start_def cancel_at_exit_def is_ascii_digit_def)
  ultimately show ?thesis using t by blast
qed

end
